(* ===== verification/Nachos_Prelude.thy ===== *)
theory Nachos_Prelude
  imports Main "HOL-Library.Word" "HOL-Library.Signed_Division"
begin

text \<open>
  The vocabulary the component theories share.

  \<^item> \<open>fault\<close> and \<open>'a res\<close>: how a routine that does not return normally is
    modelled. A failed \<open>ASSERT\<close> of \<open>lib/debug.h\<close> (it prints a message and
    calls \<open>Abort\<close>), a null dereference, an array access out of range, a machine
    halt and an undefined operation of C++ are values of \<open>fault\<close>.
  \<^item> \<open>bindR\<close>, \<open>ASSERT\<close>, \<open>foldR\<close>, \<open>aget\<close>, \<open>aset\<close>: sequencing, the assertion macro,
    the counting \<open>for\<close> loop and bounds-checked array access.
  \<^item> machine integers: \<open>int\<close> and \<open>unsigned\<close> of the 32-bit build are \<open>32 word\<close>
    wherever wrap-around or bit operations matter.
  \<^item> \<open>min_macro\<close>, \<open>divRoundDown\<close>, \<open>divRoundUp\<close>: the macros of \<open>lib/utility.h\<close>.
  \<^item> little-endian bytes of 16- and 32-bit words, with the round trips the machine's
    memory and the disk structures rely on.
\<close>

unbundle bit_operations_syntax

named_theorems res_simps \<open>how the fault monad computes\<close>
named_theorems nachos_defs \<open>definitions unfolded by the component proofs\<close>

section \<open>Faults and results\<close>

datatype fault =
    AssertFailed      \<comment> \<open>\<open>ASSERT\<close> or \<open>ASSERTNOTREACHED\<close> of lib/debug.h aborts\<close>
  | NullDeref         \<comment> \<open>a null pointer is dereferenced\<close>
  | OutOfBounds       \<comment> \<open>an array is indexed out of its range\<close>
  | UseAfterFree      \<comment> \<open>a deallocated object is used\<close>
  | LoopsForever      \<comment> \<open>a loop over a cyclic structure never ends\<close>
  | NoReturnValue     \<comment> \<open>control runs off the end of a value-returning function\<close>
  | DivideTrap        \<comment> \<open>the quotient of \<open>INT_MIN / -1\<close> does not fit: undefined, a trap on the host\<close>
  | AllocFailed       \<comment> \<open>\<open>new\<close> is called with a negative size\<close>
  | MachineHalted     \<comment> \<open>\<open>Interrupt::Halt\<close> ends the simulation\<close>

type_synonym 'a res = "fault + 'a"

type_synonym byte = "8 word"
type_synonym u16 = "16 word"
type_synonym u32 = "32 word"
type_synonym i32 = "32 word"

definition bindR :: "'a res \<Rightarrow> ('a \<Rightarrow> 'b res) \<Rightarrow> 'b res" where
  "bindR m f = (case m of Inl e \<Rightarrow> Inl e | Inr x \<Rightarrow> f x)"

definition ASSERT :: "bool \<Rightarrow> unit res" where
  "ASSERT c = (if c then Inr () else Inl AssertFailed)"

lemma bindR_simps [simp, res_simps]:
  "bindR (Inl e) f = Inl e"
  "bindR (Inr x) f = f x"
  by (simp_all add: bindR_def)

lemma ASSERT_simps [simp, res_simps]:
  "ASSERT True = Inr ()"
  "ASSERT False = Inl AssertFailed"
  by (simp_all add: ASSERT_def)

lemma ASSERT_eq_Inr [simp]: "ASSERT c = Inr u \<longleftrightarrow> c"
  by (simp add: ASSERT_def)

lemma bindR_eq_Inr: "bindR m f = Inr y \<longleftrightarrow> (\<exists>x. m = Inr x \<and> f x = Inr y)"
  by (cases m) simp_all

lemma bindR_eq_Inl: "bindR m f = Inl e \<longleftrightarrow> m = Inl e \<or> (\<exists>x. m = Inr x \<and> f x = Inl e)"
  by (cases m) simp_all

lemma bindR_assoc: "bindR (bindR m f) g = bindR m (\<lambda>x. bindR (f x) g)"
  by (cases m) simp_all

lemma bindR_cong [fundef_cong]:
  "m = m' \<Longrightarrow> (\<And>x. m' = Inr x \<Longrightarrow> f x = f' x) \<Longrightarrow> bindR m f = bindR m' f'"
  by (cases m') (simp_all add: bindR_def)

text \<open>Evaluate the first step before looking at the continuation.\<close>

lemma bindR_weak_cong: "m = m' \<Longrightarrow> bindR m f = bindR m' f"
  by simp

lemma bindR_ASSERT [simp]:
  "bindR (ASSERT c) f = (if c then f () else Inl AssertFailed)"
  by (simp add: ASSERT_def)

text \<open>The loop \<open>for (x in xs) s = body(x, s)\<close>; the first fault ends it.\<close>

fun foldR :: "('a \<Rightarrow> 's \<Rightarrow> 's res) \<Rightarrow> 'a list \<Rightarrow> 's \<Rightarrow> 's res" where
  "foldR f [] s = Inr s"
| "foldR f (x # xs) s = bindR (f x s) (foldR f xs)"

lemma foldR_append: "foldR f (xs @ ys) s = bindR (foldR f xs s) (foldR f ys)"
proof (induction xs arbitrary: s)
  case (Cons x xs)
  then show ?case by (cases "f x s") simp_all
qed simp

text \<open>Loop rule: an invariant indexed by the part of the list already done.\<close>

lemma foldR_invariant:
  assumes "I [] s"
    and "\<And>done x rest t. xs = done @ x # rest \<Longrightarrow> I done t \<Longrightarrow>
           \<exists>t'. f x t = Inr t' \<and> I (done @ [x]) t'"
  shows "\<exists>s'. foldR f xs s = Inr s' \<and> I xs s'"
  using assms
proof (induction xs arbitrary: I s)
  case Nil
  then show ?case by simp
next
  case (Cons x xs)
  from Cons.prems(2) [of "[]" x xs s] Cons.prems(1)
  obtain t where t: "f x s = Inr t" "I [x] t" by auto
  have "\<exists>s'. foldR f xs t = Inr s' \<and> I (x # xs) s'"
  proof (rule Cons.IH [of "\<lambda>d. I (x # d)"])
    show "I [x] t" by (rule t)
  next
    fix d y rest u
    assume "xs = d @ y # rest" "I (x # d) u"
    then show "\<exists>t'. f y u = Inr t' \<and> I (x # d @ [y]) t'"
      using Cons.prems(2) [of "x # d" y rest u] by simp
  qed
  with t(1) show ?case by simp
qed

section \<open>Arrays\<close>

definition aget :: "'a list \<Rightarrow> int \<Rightarrow> 'a res" where
  "aget xs i = (if 0 \<le> i \<and> nat i < length xs then Inr (xs ! nat i) else Inl OutOfBounds)"

definition aset :: "'a list \<Rightarrow> int \<Rightarrow> 'a \<Rightarrow> 'a list res" where
  "aset xs i v = (if 0 \<le> i \<and> nat i < length xs then Inr (xs[nat i := v]) else Inl OutOfBounds)"

lemma aget_in [simp]: "0 \<le> i \<Longrightarrow> nat i < length xs \<Longrightarrow> aget xs i = Inr (xs ! nat i)"
  by (simp add: aget_def)

lemma aset_in [simp]: "0 \<le> i \<Longrightarrow> nat i < length xs \<Longrightarrow> aset xs i v = Inr (xs[nat i := v])"
  by (simp add: aset_def)

section \<open>The macros of lib/utility.h\<close>

text \<open>
  Division and remainder of C++ round towards zero: \<open>sdiv\<close> and \<open>smod\<close>. On the
  arguments the callers have they are \<open>div\<close> and \<open>mod\<close>.
\<close>

definition min_macro :: "int \<Rightarrow> int \<Rightarrow> int" where
  "min_macro a b = (if a < b then a else b)"

definition max_macro :: "int \<Rightarrow> int \<Rightarrow> int" where
  "max_macro a b = (if a > b then a else b)"

definition divRoundDown :: "int \<Rightarrow> int \<Rightarrow> int" where
  "divRoundDown n s = n sdiv s"

definition divRoundUp :: "int \<Rightarrow> int \<Rightarrow> int" where
  "divRoundUp n s = n sdiv s + (if n smod s > 0 then 1 else 0)"

lemma sdiv_nonneg: "0 \<le> n \<Longrightarrow> 0 < s \<Longrightarrow> (n::int) sdiv s = n div s"
  by (cases "n = 0") (simp_all add: signed_divide_int_def)

lemma smod_nonneg: "0 \<le> n \<Longrightarrow> 0 < s \<Longrightarrow> (n::int) smod s = n mod s"
  by (cases "n = 0") (simp_all add: signed_modulo_int_def)

lemma divRoundUp_eq:
  "0 \<le> n \<Longrightarrow> 0 < s \<Longrightarrow> divRoundUp n s = n div s + (if n mod s > 0 then 1 else 0)"
  by (simp add: divRoundUp_def sdiv_nonneg smod_nonneg)

lemma divRoundUp_mult:
  "0 \<le> n \<Longrightarrow> 0 < s \<Longrightarrow> divRoundUp n s * s = n - n mod s + (if n mod s > 0 then s else 0)"
  by (simp add: divRoundUp_eq distrib_right minus_mod_eq_div_mult)

lemma divRoundUp_ge: "0 \<le> n \<Longrightarrow> 0 < s \<Longrightarrow> n \<le> divRoundUp n s * s"
  using divRoundUp_mult [of n s] pos_mod_bound [of s n] by (smt (verit))

lemma divRoundUp_less: "0 \<le> n \<Longrightarrow> 0 < s \<Longrightarrow> divRoundUp n s * s < n + s"
  using divRoundUp_mult [of n s] pos_mod_sign [of s n] by (smt (verit))

lemma divRoundUp_nonneg: "0 \<le> n \<Longrightarrow> 0 < s \<Longrightarrow> 0 \<le> divRoundUp n s"
  by (simp add: divRoundUp_eq pos_imp_zdiv_nonneg_iff)

lemma divRoundUp_div: "0 \<le> n \<Longrightarrow> 0 < s \<Longrightarrow> i < n \<Longrightarrow> i div s < divRoundUp n s"
proof -
  assume n: "0 \<le> n" and s: "0 < s" and "i < n"
  then have "i < divRoundUp n s * s" using divRoundUp_ge [OF n s] by simp
  moreover have "i div s * s \<le> i" using s by (simp add: minus_mod_eq_div_mult [symmetric])
  ultimately have "i div s * s < divRoundUp n s * s" by simp
  with s show ?thesis by simp
qed

section \<open>Little-endian bytes\<close>

text \<open>The bytes of a 16- or 32-bit word as the (little-endian) host stores them.\<close>

definition bytes_of_u32 :: "u32 \<Rightarrow> byte list" where
  "bytes_of_u32 w = [ucast w, ucast (drop_bit 8 w), ucast (drop_bit 16 w), ucast (drop_bit 24 w)]"

definition u32_of_bytes :: "byte \<Rightarrow> byte \<Rightarrow> byte \<Rightarrow> byte \<Rightarrow> u32" where
  "u32_of_bytes b0 b1 b2 b3 =
     ucast b0 OR push_bit 8 (ucast b1) OR push_bit 16 (ucast b2) OR push_bit 24 (ucast b3)"

definition bytes_of_u16 :: "u16 \<Rightarrow> byte list" where
  "bytes_of_u16 w = [ucast w, ucast (drop_bit 8 w)]"

definition u16_of_bytes :: "byte \<Rightarrow> byte \<Rightarrow> u16" where
  "u16_of_bytes b0 b1 = ucast b0 OR push_bit 8 (ucast b1)"

lemma bit_byte_less: "bit (b :: byte) k \<Longrightarrow> k < 8"
  using bit_imp_le_length by fastforce

lemma bit_u32_of_bytes:
  "bit (u32_of_bytes a b c d) n \<longleftrightarrow>
     (if n < 8 then bit a n else if n < 16 then bit b (n - 8)
      else if n < 24 then bit c (n - 16) else n < 32 \<and> bit d (n - 24))"
  unfolding u32_of_bytes_def by (auto simp: bit_simps dest: bit_byte_less)

lemma bit_u16_of_bytes:
  "bit (u16_of_bytes a b) n \<longleftrightarrow> (if n < 8 then bit a n else n < 16 \<and> bit b (n - 8))"
  unfolding u16_of_bytes_def by (auto simp: bit_simps dest: bit_byte_less)

lemma u32_of_bytes_of_u32 [simp]:
  "u32_of_bytes (ucast w) (ucast (drop_bit 8 w)) (ucast (drop_bit 16 w)) (ucast (drop_bit 24 w)) = w"
  by (rule bit_word_eqI) (auto simp: bit_u32_of_bytes bit_unsigned_iff bit_drop_bit_eq)

lemma u16_of_bytes_of_u16 [simp]: "u16_of_bytes (ucast w) (ucast (drop_bit 8 w)) = w"
  by (rule bit_word_eqI) (auto simp: bit_u16_of_bytes bit_unsigned_iff bit_drop_bit_eq)

lemma bytes_of_u32_of_bytes [simp]: "bytes_of_u32 (u32_of_bytes a b c d) = [a, b, c, d]"
  unfolding bytes_of_u32_def
  by (auto intro!: bit_word_eqI simp: bit_u32_of_bytes bit_unsigned_iff bit_drop_bit_eq
      dest: bit_byte_less)

lemma bytes_of_u16_of_bytes [simp]: "bytes_of_u16 (u16_of_bytes a b) = [a, b]"
  unfolding bytes_of_u16_def
  by (auto intro!: bit_word_eqI simp: bit_u16_of_bytes bit_unsigned_iff bit_drop_bit_eq
      dest: bit_byte_less)

lemma length_bytes_of_u32 [simp]: "length (bytes_of_u32 w) = 4"
  by (simp add: bytes_of_u32_def)

text \<open>The 32-bit word at an offset of a byte array.\<close>

definition word_at :: "byte list \<Rightarrow> nat \<Rightarrow> u32" where
  "word_at b i = u32_of_bytes (b ! i) (b ! (i + 1)) (b ! (i + 2)) (b ! (i + 3))"

lemma word_at_append: "word_at (xs @ bytes_of_u32 w @ ys) (length xs) = w"
  by (simp add: word_at_def bytes_of_u32_def nth_append)

lemma word_at_same:
  "n = length xs \<Longrightarrow> word_at (xs @ bytes_of_u32 w @ ys) n = w"
  "word_at (bytes_of_u32 w @ ys) 0 = w" "word_at (bytes_of_u32 w) 0 = w"
  using word_at_append [of xs w ys] word_at_append [of "[]" w ys] word_at_append [of "[]" w "[]"] by simp_all


section \<open>Reading words as numbers\<close>

lemma uint_small: "uint (w :: i32) < 2 ^ 31 \<Longrightarrow> sint w = uint w"
  unfolding sint_uint by (rule trans [OF _ signed_take_bit_int_eq_self [of 31]]) (auto simp: order_trans [OF _ uint_ge_0])

lemma sint_if: "sint (w :: i32) = (if uint w < 2 ^ 31 then uint w else uint w - 2 ^ 32)"
proof (cases "uint w < 2 ^ 31")
  case True
  then show ?thesis by (simp add: uint_small)
next
  case False
  have "signed_take_bit 31 (uint w) = signed_take_bit 31 (uint w - 2 ^ 32)"
    by (simp add: signed_take_bit_eq_iff_take_bit_eq take_bit_eq_mod mod_diff_right_eq)
  moreover have "signed_take_bit 31 (uint w - 2 ^ 32) = uint w - 2 ^ 32"
    using False uint_lt2p [of w] by (intro signed_take_bit_int_eq_self) auto
  ultimately show ?thesis using False by (simp add: sint_uint)
qed

lemma sint_small: "unat (w :: i32) < 2 ^ 31 \<Longrightarrow> sint w = int (unat w)"
proof -
  assume "unat w < 2 ^ 31"
  then have "int (unat w) < int (2 ^ 31)" by (simp only: of_nat_less_iff)
  then have "uint w < 2 ^ 31" by (simp only: of_nat_unat of_nat_power of_nat_numeral)
  then show ?thesis by (simp only: uint_small of_nat_unat)
qed

lemma sint_signed_drop_bit: "sint (signed_drop_bit n w) = sint (w :: i32) div 2 ^ n"
  by (simp add: sint_signed_drop_bit_eq drop_bit_eq_div)

lemma unat_and_3: "unat ((w :: i32) AND 3) = unat w mod 4"
proof -
  have "w AND 3 = take_bit 2 w" by (simp add: take_bit_eq_mask mask_eq_exp_minus_1)
  then have "unat (w AND 3) = take_bit 2 (unat w)" by (simp only: unsigned_take_bit_eq)
  then show ?thesis by (simp add: take_bit_eq_mod)
qed

lemma unat_and_1: "unat ((w :: i32) AND 1) = unat w mod 2"
proof -
  have "w AND 1 = take_bit 1 w" by (simp add: take_bit_eq_mask mask_eq_exp_minus_1)
  then have "unat (w AND 1) = take_bit 1 (unat w)" by (simp only: unsigned_take_bit_eq)
  then show ?thesis by (simp add: take_bit_eq_mod)
qed

lemma unat_div_128: "unat ((w :: i32) div 128) = unat w div 128"
  by (simp add: unat_div)

lemma unat_mod_128: "unat ((w :: i32) mod 128) = unat w mod 128"
  by (simp add: unat_mod)

lemma uint_less_int_iff: "uint w < int n \<longleftrightarrow> unat w < n"
  by (metis of_nat_unat of_nat_less_iff)

lemma uint_le_int_iff: "uint w \<le> int n \<longleftrightarrow> unat w \<le> n"
  by (metis of_nat_unat of_nat_le_iff)

lemma add_mod_carry:
  assumes "0 \<le> x" "x < N" "0 \<le> y" "y < (N :: int)"
  shows "(x + y) mod N = (if x + y < N then x + y else x + y - N)"
proof (cases "x + y < N")
  case False
  have "(x + y) mod N = (x + y - N) mod N" by (simp add: mod_diff_right_eq [symmetric])
  also have "\<dots> = x + y - N" using False assms by (intro mod_pos_pos_trivial) auto
  finally show ?thesis using False by simp
qed (use assms in \<open>simp add: mod_pos_pos_trivial\<close>)

lemma bit31_sint: "bit (w :: i32) 31 \<longleftrightarrow> sint w < 0"
  using bit_last_iff [of w] by simp

lemma and_sign_bit: "(w :: i32) AND 0x80000000 = 0 \<longleftrightarrow> 0 \<le> sint w"
  using and_exp_eq_0_iff_not_bit [of w 31] bit31_sint [of w] by (simp add: not_less)

lemma bit31_uint: "bit (w :: i32) 31 \<longleftrightarrow> 2 ^ 31 \<le> uint w"
  using uint_lt2p [of w] by (simp add: bit31_sint sint_if)

lemma uint_neg: "uint (- (w :: u32)) = (if w = 0 then 0 else 2 ^ 32 - uint w)"
  using uint_lt2p [of w] by (auto simp: uint_word_ariths zmod_zminus1_eq_if uint_0_iff)

lemma sint_bound: "- (2 ^ 31) \<le> sint (w :: i32) \<and> sint w < 2 ^ 31"
  using uint_lt2p [of w] uint_ge_0 [of w] by (simp add: sint_if, linarith)

text \<open>Wrapping addition and subtraction read as signed numbers.\<close>

lemma sint_add:
  "sint (a + b :: i32) = sint a + sint b +
     (if sint a + sint b < - (2 ^ 31) then 2 ^ 32 else if sint a + sint b \<ge> 2 ^ 31 then - (2 ^ 32) else 0)"
  using add_mod_carry [of "uint a" "2 ^ 32" "uint b"] uint_lt2p [of a] uint_lt2p [of b]
  by (simp add: sint_if uint_word_ariths) (use uint_ge_0 [of a] uint_ge_0 [of b] in linarith)

lemma sint_diff:
  "sint (a - b :: i32) = sint a - sint b +
     (if sint a - sint b < - (2 ^ 31) then 2 ^ 32 else if sint a - sint b \<ge> 2 ^ 31 then - (2 ^ 32) else 0)"
proof -
  have "sint a = sint (a - b + b)" by simp
  then show ?thesis using sint_add [of "a - b" b] sint_bound [of "a - b"] sint_bound [of a] sint_bound [of b]
    by (auto split: if_splits)
qed

lemma xor_sign: "((a XOR b :: i32) AND 0x80000000 = 0) \<longleftrightarrow> (sint a < 0) = (sint b < 0)"
proof -
  have "bit (a XOR b) 31 \<longleftrightarrow> bit a 31 \<noteq> bit b 31" by (simp add: bit_xor_iff)
  then show ?thesis using and_sign_bit [of "a XOR b"] bit31_sint [of "a XOR b"] by (auto simp: bit31_sint)
qed

end
