(* ===== verification/Nachos_Bitmap.thy ===== *)
theory Nachos_Bitmap
  imports Nachos_Prelude
begin

text \<open>
  The bitmap of \<open>lib/bitmap.h\<close> and \<open>lib/bitmap.cc\<close>: an array of bits kept in an array of
  unsigned words, used to allocate disk sectors, physical page frames, process
  slots and semaphore slots. The record has the fields of the class; every member
  function is a definition. Its contract towards the allocators that use it is the
  locale \<open>slot_map\<close>, stated over the set of bits that are on and interpreted on the
  word-level operations.
\<close>

section \<open>The class\<close>

definition BitsInByte :: int where "BitsInByte = 8"
definition BitsInWord :: int where "BitsInWord = 4 * BitsInByte"

record Bitmap =
  numBits :: int
  numWords :: int
  map_words :: "u32 list"

definition bit_mask :: "int \<Rightarrow> u32" where
  "bit_mask which = push_bit (nat (which mod BitsInWord)) 1"

definition Bitmap_Test :: "Bitmap \<Rightarrow> int \<Rightarrow> bool res" where
  "Bitmap_Test b which =
     bindR (ASSERT (which \<ge> 0 \<and> which < numBits b)) (\<lambda>_.
     bindR (aget (map_words b) (which div BitsInWord)) (\<lambda>w.
     Inr (w AND bit_mask which \<noteq> 0)))"

definition Bitmap_Mark :: "Bitmap \<Rightarrow> int \<Rightarrow> Bitmap res" where
  "Bitmap_Mark b which =
     bindR (ASSERT (which \<ge> 0 \<and> which < numBits b)) (\<lambda>_.
     bindR (aget (map_words b) (which div BitsInWord)) (\<lambda>w.
     bindR (aset (map_words b) (which div BitsInWord) (w OR bit_mask which)) (\<lambda>ws.
     let b' = b\<lparr>map_words := ws\<rparr> in
     bindR (Bitmap_Test b' which) (\<lambda>t.
     bindR (ASSERT t) (\<lambda>_. Inr b')))))"

definition Bitmap_Clear :: "Bitmap \<Rightarrow> int \<Rightarrow> Bitmap res" where
  "Bitmap_Clear b which =
     bindR (ASSERT (which \<ge> 0 \<and> which < numBits b)) (\<lambda>_.
     bindR (aget (map_words b) (which div BitsInWord)) (\<lambda>w.
     bindR (aset (map_words b) (which div BitsInWord) (w AND NOT (bit_mask which))) (\<lambda>ws.
     let b' = b\<lparr>map_words := ws\<rparr> in
     bindR (Bitmap_Test b' which) (\<lambda>t.
     bindR (ASSERT (\<not> t)) (\<lambda>_. Inr b')))))"

definition Bitmap_new :: "int \<Rightarrow> Bitmap res" where
  "Bitmap_new numItems =
     bindR (ASSERT (numItems > 0)) (\<lambda>_.
     let words = divRoundUp numItems BitsInWord;
         b = \<lparr>numBits = numItems, numWords = words, map_words = replicate (nat words) 0\<rparr>
     in foldR (\<lambda>i b. Bitmap_Clear b (int i)) [0..<nat numItems] b)"

function Bitmap_FindAndSet_from :: "Bitmap \<Rightarrow> int \<Rightarrow> (int \<times> Bitmap) res" where
  "Bitmap_FindAndSet_from b i =
     (if i < numBits b
      then bindR (Bitmap_Test b i) (\<lambda>t.
             if \<not> t then bindR (Bitmap_Mark b i) (\<lambda>b'. Inr (i, b'))
             else Bitmap_FindAndSet_from b (i + 1))
      else Inr (-1, b))"
  by pat_completeness auto
termination
  by (relation "measure (\<lambda>(b, i). nat (numBits b - i))") auto

declare Bitmap_FindAndSet_from.simps [simp del]

definition Bitmap_FindAndSet :: "Bitmap \<Rightarrow> (int \<times> Bitmap) res" where
  "Bitmap_FindAndSet b = Bitmap_FindAndSet_from b 0"

definition Bitmap_NumClear :: "Bitmap \<Rightarrow> int res" where
  "Bitmap_NumClear b =
     foldR (\<lambda>i count. bindR (Bitmap_Test b (int i)) (\<lambda>t. Inr (if \<not> t then count + 1 else count)))
       [0..<nat (numBits b)] 0"

text \<open>The bit numbers \<open>Bitmap::Print\<close> writes to the console, in order.\<close>

definition Bitmap_Print :: "Bitmap \<Rightarrow> int list res" where
  "Bitmap_Print b =
     foldR (\<lambda>i out. bindR (Bitmap_Test b (int i)) (\<lambda>t. Inr (if t then out @ [int i] else out)))
       [0..<nat (numBits b)] []"

definition Bitmap_SelfTest :: "Bitmap \<Rightarrow> Bitmap res" where
  "Bitmap_SelfTest b =
     bindR (ASSERT (numBits b \<ge> BitsInWord)) (\<lambda>_.
     bindR (Bitmap_NumClear b) (\<lambda>n.
     bindR (ASSERT (n = numBits b)) (\<lambda>_.
     bindR (Bitmap_FindAndSet b) (\<lambda>(i, b).
     bindR (ASSERT (i = 0)) (\<lambda>_.
     bindR (Bitmap_Mark b 31) (\<lambda>b.
     bindR (Bitmap_Test b 0) (\<lambda>t0.
     bindR (Bitmap_Test b 31) (\<lambda>t31.
     bindR (ASSERT (t0 \<and> t31)) (\<lambda>_.
     bindR (Bitmap_FindAndSet b) (\<lambda>(i, b).
     bindR (ASSERT (i = 1)) (\<lambda>_.
     bindR (Bitmap_Clear b 0) (\<lambda>b.
     bindR (Bitmap_Clear b 1) (\<lambda>b.
     bindR (Bitmap_Clear b 31) (\<lambda>b.
     bindR (foldR (\<lambda>i b. Bitmap_Mark b (int i)) [0..<nat (numBits b)] b) (\<lambda>b.
     bindR (Bitmap_FindAndSet b) (\<lambda>(i, b).
     bindR (ASSERT (i = -1)) (\<lambda>_.
     foldR (\<lambda>i b. Bitmap_Clear b (int i)) [0..<nat (numBits b)] b)))))))))))))))))"

section \<open>Abstraction\<close>

text \<open>The class invariant, and the set of bits that are on.\<close>

definition Bitmap_ok :: "Bitmap \<Rightarrow> bool" where
  "Bitmap_ok b \<longleftrightarrow> 0 < numBits b \<and> numWords b = divRoundUp (numBits b) BitsInWord \<and>
     length (map_words b) = nat (numWords b)"

definition bit_at :: "Bitmap \<Rightarrow> int \<Rightarrow> bool" where
  "bit_at b i = bit (map_words b ! nat (i div BitsInWord)) (nat (i mod BitsInWord))"

definition Bitmap_used :: "Bitmap \<Rightarrow> int set" where
  "Bitmap_used b = {i. 0 \<le> i \<and> i < numBits b \<and> bit_at b i}"

lemma BitsInWord_32: "BitsInWord = 32"
  by (simp add: BitsInWord_def BitsInByte_def)

lemma and_bit_mask: "(w AND bit_mask i \<noteq> 0) = bit w (nat (i mod BitsInWord))"
proof -
  have "w AND bit_mask i = (if bit w (nat (i mod BitsInWord)) then bit_mask i else 0)"
    unfolding bit_mask_def by (rule bit_word_eqI) (auto simp: bit_simps)
  moreover have "bit_mask i \<noteq> 0"
    by (simp add: bit_mask_def BitsInWord_32 push_bit_eq_mult)
  ultimately show ?thesis by simp
qed

lemma Bitmap_ok_index [simp]:
  assumes "Bitmap_ok b" "0 \<le> i" "i < numBits b"
  shows "0 \<le> i div BitsInWord" "nat (i div BitsInWord) < length (map_words b)"
proof -
  show "0 \<le> i div BitsInWord" using assms by (simp add: BitsInWord_32)
  have "i div BitsInWord < numWords b"
    using assms divRoundUp_div [of "numBits b" BitsInWord i]
    by (simp add: Bitmap_ok_def BitsInWord_32)
  then show "nat (i div BitsInWord) < length (map_words b)"
    using assms by (simp add: Bitmap_ok_def BitsInWord_32)
qed

text \<open>Two bit numbers with the same word and the same position are equal.\<close>

lemma index_inj:
  assumes "0 \<le> i" "0 \<le> j" "nat (i div BitsInWord) = nat (j div BitsInWord)"
    "nat (i mod BitsInWord) = nat (j mod BitsInWord)"
  shows "i = j"
proof -
  have "i div BitsInWord = j div BitsInWord" "i mod BitsInWord = j mod BitsInWord"
    using assms by (simp_all add: BitsInWord_32 eq_nat_nat_iff)
  then show ?thesis by (metis div_mult_mod_eq)
qed

lemma Bitmap_Test_eq:
  assumes "Bitmap_ok b"
  shows "Bitmap_Test b i =
    (if 0 \<le> i \<and> i < numBits b then Inr (i \<in> Bitmap_used b) else Inl AssertFailed)"
  using assms by (auto simp: Bitmap_Test_def and_bit_mask Bitmap_used_def bit_at_def)

lemma bit_at_update:
  assumes "Bitmap_ok b" "0 \<le> i" "i < numBits b" "0 \<le> j" "j < numBits b"
  shows "bit_at (b\<lparr>map_words := (map_words b)[nat (i div BitsInWord) := w]\<rparr>) j =
    (if nat (j div BitsInWord) = nat (i div BitsInWord) then bit w (nat (j mod BitsInWord))
     else bit_at b j)"
  using assms by (simp add: bit_at_def nth_list_update)

lemma bit_or_mask:
  assumes "0 \<le> i" "0 \<le> j"
  shows "bit (w OR bit_mask i) (nat (j mod BitsInWord)) =
    (bit w (nat (j mod BitsInWord)) \<or> nat (j mod BitsInWord) = nat (i mod BitsInWord))"
  using assms by (auto simp: bit_mask_def BitsInWord_32 bit_simps)

lemma bit_and_not_mask:
  assumes "0 \<le> i" "0 \<le> j"
  shows "bit (w AND NOT (bit_mask i)) (nat (j mod BitsInWord)) =
    (bit w (nat (j mod BitsInWord)) \<and> nat (j mod BitsInWord) \<noteq> nat (i mod BitsInWord))"
  using assms by (auto simp: bit_mask_def BitsInWord_32 bit_simps)

definition mark_word :: "Bitmap \<Rightarrow> int \<Rightarrow> Bitmap" where
  "mark_word b i = b\<lparr>map_words := (map_words b)[nat (i div BitsInWord) :=
     map_words b ! nat (i div BitsInWord) OR bit_mask i]\<rparr>"

definition clear_word :: "Bitmap \<Rightarrow> int \<Rightarrow> Bitmap" where
  "clear_word b i = b\<lparr>map_words := (map_words b)[nat (i div BitsInWord) :=
     map_words b ! nat (i div BitsInWord) AND NOT (bit_mask i)]\<rparr>"

lemma word_op_ok [simp]:
  "Bitmap_ok (mark_word b i) = Bitmap_ok b" "numBits (mark_word b i) = numBits b"
  "Bitmap_ok (clear_word b i) = Bitmap_ok b" "numBits (clear_word b i) = numBits b"
  by (simp_all add: Bitmap_ok_def mark_word_def clear_word_def)

lemma used_mark_word:
  assumes "Bitmap_ok b" "0 \<le> i" "i < numBits b"
  shows "Bitmap_used (mark_word b i) = insert i (Bitmap_used b)"
proof (rule set_eqI)
  fix j
  show "j \<in> Bitmap_used (mark_word b i) \<longleftrightarrow> j \<in> insert i (Bitmap_used b)"
    using assms index_inj [of j i]
    by (auto simp: Bitmap_used_def mark_word_def bit_at_update bit_or_mask)
      (auto simp: bit_at_def bit_or_mask split: if_splits)
qed

lemma used_clear_word:
  assumes "Bitmap_ok b" "0 \<le> i" "i < numBits b"
  shows "Bitmap_used (clear_word b i) = Bitmap_used b - {i}"
proof (rule set_eqI)
  fix j
  show "j \<in> Bitmap_used (clear_word b i) \<longleftrightarrow> j \<in> Bitmap_used b - {i}"
    using assms index_inj [of j i]
    by (auto simp: Bitmap_used_def clear_word_def bit_at_update bit_and_not_mask)
      (auto simp: bit_at_def bit_and_not_mask split: if_splits)
qed

lemma Bitmap_Mark_eq:
  assumes "Bitmap_ok b"
  shows "Bitmap_Mark b i =
    (if 0 \<le> i \<and> i < numBits b then Inr (mark_word b i) else Inl AssertFailed)"
  using assms used_mark_word [of b i]
  by (simp add: Bitmap_Mark_def Let_def Bitmap_Test_eq mark_word_def [symmetric])

lemma Bitmap_Clear_eq:
  assumes "Bitmap_ok b"
  shows "Bitmap_Clear b i =
    (if 0 \<le> i \<and> i < numBits b then Inr (clear_word b i) else Inl AssertFailed)"
  using assms used_clear_word [of b i]
  by (simp add: Bitmap_Clear_def Let_def Bitmap_Test_eq clear_word_def [symmetric])


lemma Bitmap_FindAndSet_from_full:
  assumes "Bitmap_ok b" "0 \<le> i" "{i..<numBits b} \<subseteq> Bitmap_used b"
  shows "Bitmap_FindAndSet_from b i = Inr (-1, b)"
  using assms
proof (induction b i rule: Bitmap_FindAndSet_from.induct)
  case (1 b i)
  show ?case
  proof (cases "i < numBits b")
    case True
    with "1.prems" have used: "i \<in> Bitmap_used b" by auto
    have "Bitmap_FindAndSet_from b (i + 1) = Inr (-1, b)"
      using "1.prems" used True by (intro "1.IH") (auto simp: Bitmap_Test_eq)
    with True used "1.prems" show ?thesis
      by (simp add: Bitmap_FindAndSet_from.simps [of b i] Bitmap_Test_eq)
  next
    case False
    then show ?thesis by (simp add: Bitmap_FindAndSet_from.simps [of b i])
  qed
qed

lemma Bitmap_FindAndSet_from_free:
  assumes "Bitmap_ok b" "0 \<le> i" "\<not> {i..<numBits b} \<subseteq> Bitmap_used b"
  shows "\<exists>k. i \<le> k \<and> k < numBits b \<and> k \<notin> Bitmap_used b \<and> {i..<k} \<subseteq> Bitmap_used b \<and>
    Bitmap_FindAndSet_from b i = Inr (k, mark_word b k)"
  using assms
proof (induction b i rule: Bitmap_FindAndSet_from.induct)
  case (1 b i)
  from "1.prems" have lt: "i < numBits b" by force
  show ?case
  proof (cases "i \<in> Bitmap_used b")
    case True
    with "1.prems" have "\<not> {i + 1..<numBits b} \<subseteq> Bitmap_used b"
      by (auto simp: subset_iff) (metis add1_zle_eq le_less)
    then obtain k where k: "i + 1 \<le> k" "k < numBits b" "k \<notin> Bitmap_used b"
      "{i + 1..<k} \<subseteq> Bitmap_used b" "Bitmap_FindAndSet_from b (i + 1) = Inr (k, mark_word b k)"
      using "1.IH" [of True] True lt "1.prems" by (auto simp: Bitmap_Test_eq)
    have "{i..<k} \<subseteq> Bitmap_used b"
      using k(4) True by (auto simp: subset_iff) (metis add1_zle_eq le_less)
    with k True lt "1.prems" show ?thesis
      by (intro exI [of _ k]) (simp add: Bitmap_FindAndSet_from.simps [of b i] Bitmap_Test_eq)
  next
    case False
    with lt "1.prems" show ?thesis
      by (intro exI [of _ i])
        (simp add: Bitmap_FindAndSet_from.simps [of b i] Bitmap_Test_eq Bitmap_Mark_eq)
  qed
qed

lemma Bitmap_used_range: "Bitmap_used b \<subseteq> {0..<numBits b}"
  by (auto simp: Bitmap_used_def)

lemma Bitmap_NumClear_eq:
  assumes ok: "Bitmap_ok b"
  shows "Bitmap_NumClear b = Inr (int (card ({0..<numBits b} - Bitmap_used b)))"
proof -
  let ?f = "\<lambda>i count. bindR (Bitmap_Test b (int i)) (\<lambda>t. Inr (if \<not> t then count + 1 else count))"
  let ?I = "\<lambda>d (c::int). c = int (card ({0..<int (length d)} - Bitmap_used b))"
  have "\<exists>c. foldR ?f [0..<nat (numBits b)] 0 = Inr c \<and> ?I [0..<nat (numBits b)] c"
  proof (rule foldR_invariant)
    show "?I [] 0" by simp
  next
    fix d x rest and c :: int
    assume split: "[0..<nat (numBits b)] = d @ x # rest" and I: "?I d c"
    have x: "x = length d" "length d < nat (numBits b)"
      using arg_cong [OF split, of "\<lambda>l. l ! length d"] arg_cong [OF split, of length]
      by (auto simp: nth_append)
    have lt: "int (length d) < numBits b" using x by simp
    have range: "{0..<1 + int (length d)} = insert (int (length d)) {0..<int (length d)}"
      by auto
    show "\<exists>t'. ?f x c = Inr t' \<and> ?I (d @ [x]) t'"
      using x lt I ok by (simp add: Bitmap_Test_eq range insert_Diff_if)
  qed
  then show ?thesis using ok by (simp add: Bitmap_NumClear_def Bitmap_ok_def)
qed

section \<open>The contract towards allocators\<close>

text \<open>
  What a client of a slot allocator relies on, over the set of used slots only.
  The file system (sectors), the address spaces (page frames), the process table and
  the semaphore table all allocate through these operations.
\<close>

locale slot_map =
  fixes ok :: "'b \<Rightarrow> bool"
    and nslots :: "'b \<Rightarrow> int"
    and used :: "'b \<Rightarrow> int set"
    and mark :: "'b \<Rightarrow> int \<Rightarrow> 'b res"
    and clear :: "'b \<Rightarrow> int \<Rightarrow> 'b res"
    and test :: "'b \<Rightarrow> int \<Rightarrow> bool res"
    and find_and_set :: "'b \<Rightarrow> (int \<times> 'b) res"
    and num_clear :: "'b \<Rightarrow> int res"
  assumes used_range: "ok b \<Longrightarrow> used b \<subseteq> {0..<nslots b}"
    and test_law: "ok b \<Longrightarrow> 0 \<le> i \<Longrightarrow> i < nslots b \<Longrightarrow> test b i = Inr (i \<in> used b)"
    and mark_law: "ok b \<Longrightarrow> 0 \<le> i \<Longrightarrow> i < nslots b \<Longrightarrow>
      \<exists>b'. mark b i = Inr b' \<and> ok b' \<and> nslots b' = nslots b \<and> used b' = insert i (used b)"
    and clear_law: "ok b \<Longrightarrow> 0 \<le> i \<Longrightarrow> i < nslots b \<Longrightarrow>
      \<exists>b'. clear b i = Inr b' \<and> ok b' \<and> nslots b' = nslots b \<and> used b' = used b - {i}"
    and find_full: "ok b \<Longrightarrow> used b = {0..<nslots b} \<Longrightarrow> find_and_set b = Inr (-1, b)"
    and find_free: "ok b \<Longrightarrow> used b \<noteq> {0..<nslots b} \<Longrightarrow>
      \<exists>i b'. find_and_set b = Inr (i, b') \<and> 0 \<le> i \<and> i < nslots b \<and> i \<notin> used b \<and>
        {0..<i} \<subseteq> used b \<and> ok b' \<and> nslots b' = nslots b \<and> used b' = insert i (used b)"
    and num_clear_law: "ok b \<Longrightarrow> num_clear b = Inr (int (card ({0..<nslots b} - used b)))"

text \<open>
  The loops the clients run over an allocator: take \<open>n\<close> slots, asserting each time that
  one was found, and give back a list of slots, asserting each time that it was taken.
\<close>

fun take_slots :: "('b \<Rightarrow> (int \<times> 'b) res) \<Rightarrow> nat \<Rightarrow> 'b \<Rightarrow> (int list \<times> 'b) res" where
  "take_slots next_slot 0 b = Inr ([], b)"
| "take_slots next_slot (Suc n) b =
     bindR (next_slot b) (\<lambda>(i, b').
     bindR (ASSERT (i \<ge> 0)) (\<lambda>_.
     bindR (take_slots next_slot n b') (\<lambda>(is, b''). Inr (i # is, b''))))"

definition release_slots ::
    "('b \<Rightarrow> int \<Rightarrow> bool res) \<Rightarrow> ('b \<Rightarrow> int \<Rightarrow> 'b res) \<Rightarrow> int list \<Rightarrow> 'b \<Rightarrow> 'b res" where
  "release_slots test clear is b =
     foldR (\<lambda>i b. bindR (test b i) (\<lambda>t. bindR (ASSERT t) (\<lambda>_. clear b i))) is b"

context slot_map
begin

lemma finite_used: "ok b \<Longrightarrow> finite (used b)"
  using used_range finite_subset by blast

lemma take_slots_ok:
  assumes "ok b" "int n \<le> int (card ({0..<nslots b} - used b))"
  shows "\<exists>is b'. take_slots find_and_set n b = Inr (is, b') \<and> length is = n \<and> distinct is \<and>
    set is \<subseteq> {0..<nslots b} - used b \<and> ok b' \<and> nslots b' = nslots b \<and>
    used b' = used b \<union> set is"
  using assms
proof (induction n arbitrary: b)
  case 0
  then show ?case by simp
next
  case (Suc n)
  have "used b \<noteq> {0..<nslots b}" using Suc.prems by auto
  then obtain i b1 where f: "find_and_set b = Inr (i, b1)" "0 \<le> i" "i < nslots b"
    "i \<notin> used b" "ok b1" "nslots b1 = nslots b" "used b1 = insert i (used b)"
    using find_free Suc.prems by blast
  have "{0..<nslots b1} - used b1 = ({0..<nslots b} - used b) - {i}" using f by auto
  then have "int (card ({0..<nslots b1} - used b1)) = int (card ({0..<nslots b} - used b)) - 1"
    using f card_Suc_Diff1 [of "{0..<nslots b} - used b" i] by simp
  with Suc.prems f have "int n \<le> int (card ({0..<nslots b1} - used b1))" by simp
  then obtain "is" b' where IH: "take_slots find_and_set n b1 = Inr (is, b')" "length is = n"
    "distinct is" "set is \<subseteq> {0..<nslots b1} - used b1" "ok b'" "nslots b' = nslots b1"
    "used b' = used b1 \<union> set is"
    using Suc.IH [OF f(5)] by blast
  show ?case
    using f IH by (intro exI [of _ "i # is"] exI [of _ b']) auto
qed

lemma release_slots_ok:
  assumes "ok b" "distinct is" "set is \<subseteq> used b"
  shows "\<exists>b'. release_slots test clear is b = Inr b' \<and> ok b' \<and> nslots b' = nslots b \<and>
    used b' = used b - set is"
  using assms unfolding release_slots_def
proof (induction "is" arbitrary: b)
  case Nil
  then show ?case by simp
next
  case (Cons i "is")
  then have i: "0 \<le> i" "i < nslots b" "i \<in> used b" using used_range [of b] by auto
  then obtain b1 where c: "clear b i = Inr b1" "ok b1" "nslots b1 = nslots b"
    "used b1 = used b - {i}"
    using clear_law Cons.prems by blast
  moreover have "set is \<subseteq> used b1" using Cons.prems c by auto
  ultimately obtain b' where
    "foldR (\<lambda>i b. bindR (test b i) (\<lambda>t. bindR (ASSERT t) (\<lambda>_. clear b i))) is b1 = Inr b'"
    "ok b'" "nslots b' = nslots b1" "used b' = used b1 - set is"
    using Cons.IH [of b1] Cons.prems by auto
  with i c Cons.prems show ?case by (auto simp: test_law)
qed

end

interpretation bm: slot_map Bitmap_ok numBits Bitmap_used Bitmap_Mark Bitmap_Clear Bitmap_Test
  Bitmap_FindAndSet Bitmap_NumClear
proof unfold_locales
  fix b :: Bitmap
  assume ok: "Bitmap_ok b"
  show "Bitmap_used b \<subseteq> {0..<numBits b}" by (rule Bitmap_used_range)
  show "Bitmap_NumClear b = Inr (int (card ({0..<numBits b} - Bitmap_used b)))"
    using ok by (rule Bitmap_NumClear_eq)
  {
    fix i assume i: "0 \<le> i" "i < numBits b"
    show "Bitmap_Test b i = Inr (i \<in> Bitmap_used b)"
      using ok i by (simp add: Bitmap_Test_eq)
    show "\<exists>b'. Bitmap_Mark b i = Inr b' \<and> Bitmap_ok b' \<and> numBits b' = numBits b \<and>
        Bitmap_used b' = insert i (Bitmap_used b)"
      using ok i by (simp add: Bitmap_Mark_eq used_mark_word)
    show "\<exists>b'. Bitmap_Clear b i = Inr b' \<and> Bitmap_ok b' \<and> numBits b' = numBits b \<and>
        Bitmap_used b' = Bitmap_used b - {i}"
      using ok i by (simp add: Bitmap_Clear_eq used_clear_word)
  }
  show "Bitmap_FindAndSet b = Inr (-1, b)" if "Bitmap_used b = {0..<numBits b}"
    using ok that by (simp add: Bitmap_FindAndSet_def Bitmap_FindAndSet_from_full)
  show "\<exists>i b'. Bitmap_FindAndSet b = Inr (i, b') \<and> 0 \<le> i \<and> i < numBits b \<and>
      i \<notin> Bitmap_used b \<and> {0..<i} \<subseteq> Bitmap_used b \<and> Bitmap_ok b' \<and>
      numBits b' = numBits b \<and> Bitmap_used b' = insert i (Bitmap_used b)"
    if "Bitmap_used b \<noteq> {0..<numBits b}"
  proof -
    have "\<not> {0..<numBits b} \<subseteq> Bitmap_used b" using that Bitmap_used_range by blast
    then obtain k where "0 \<le> k" "k < numBits b" "k \<notin> Bitmap_used b" "{0..<k} \<subseteq> Bitmap_used b"
      "Bitmap_FindAndSet_from b 0 = Inr (k, mark_word b k)"
      using Bitmap_FindAndSet_from_free [OF ok, of 0] by auto
    then show ?thesis using ok by (simp add: Bitmap_FindAndSet_def used_mark_word)
  qed
qed

section \<open>Whole-map loops, the constructor and the self test\<close>

lemma Clear_range:
  assumes "Bitmap_ok b" "int n \<le> numBits b"
  shows "\<exists>b'. foldR (\<lambda>i b. Bitmap_Clear b (int i)) [0..<n] b = Inr b' \<and> Bitmap_ok b' \<and>
    numBits b' = numBits b \<and> Bitmap_used b' = Bitmap_used b - {0..<int n}"
  using assms(2)
proof (induction n)
  case 0
  with assms show ?case by simp
next
  case (Suc n)
  then obtain b1 where b1: "foldR (\<lambda>i b. Bitmap_Clear b (int i)) [0..<n] b = Inr b1"
    "Bitmap_ok b1" "numBits b1 = numBits b" "Bitmap_used b1 = Bitmap_used b - {0..<int n}"
    by auto
  from Suc.prems b1 bm.clear_law [of b1 "int n"] obtain b2 where
    "Bitmap_Clear b1 (int n) = Inr b2" "Bitmap_ok b2" "numBits b2 = numBits b1"
    "Bitmap_used b2 = Bitmap_used b1 - {int n}" by auto
  moreover have "{0..<int (Suc n)} = insert (int n) {0..<int n}" by auto
  ultimately show ?case using b1 by (auto simp: foldR_append)
qed

lemma Mark_range:
  assumes "Bitmap_ok b" "int n \<le> numBits b"
  shows "\<exists>b'. foldR (\<lambda>i b. Bitmap_Mark b (int i)) [0..<n] b = Inr b' \<and> Bitmap_ok b' \<and>
    numBits b' = numBits b \<and> Bitmap_used b' = Bitmap_used b \<union> {0..<int n}"
  using assms(2)
proof (induction n)
  case 0
  with assms show ?case by simp
next
  case (Suc n)
  then obtain b1 where b1: "foldR (\<lambda>i b. Bitmap_Mark b (int i)) [0..<n] b = Inr b1"
    "Bitmap_ok b1" "numBits b1 = numBits b" "Bitmap_used b1 = Bitmap_used b \<union> {0..<int n}"
    by auto
  from Suc.prems b1 bm.mark_law [of b1 "int n"] obtain b2 where
    "Bitmap_Mark b1 (int n) = Inr b2" "Bitmap_ok b2" "numBits b2 = numBits b1"
    "Bitmap_used b2 = insert (int n) (Bitmap_used b1)" by auto
  moreover have "{0..<int (Suc n)} = insert (int n) {0..<int n}" by auto
  ultimately show ?case using b1 by (auto simp: foldR_append)
qed

lemma Bitmap_new_ok:
  assumes "0 < n"
  shows "\<exists>b. Bitmap_new n = Inr b \<and> Bitmap_ok b \<and> numBits b = n \<and> Bitmap_used b = {}"
proof -
  let ?b = "\<lparr>numBits = n, numWords = divRoundUp n BitsInWord,
    map_words = replicate (nat (divRoundUp n BitsInWord)) 0\<rparr>"
  have "Bitmap_ok ?b" using assms by (simp add: Bitmap_ok_def)
  then show ?thesis
    using Clear_range [of ?b "nat n"] assms Bitmap_used_range [of ?b]
    by (auto simp: Bitmap_new_def Let_def)
qed

lemma Bitmap_FindAndSet_least:
  assumes "Bitmap_ok b" "0 \<le> k" "k < numBits b" "k \<notin> Bitmap_used b" "{0..<k} \<subseteq> Bitmap_used b"
  shows "\<exists>b'. Bitmap_FindAndSet b = Inr (k, b') \<and> Bitmap_ok b' \<and> numBits b' = numBits b \<and>
    Bitmap_used b' = insert k (Bitmap_used b)"
proof -
  have "Bitmap_used b \<noteq> {0..<numBits b}" using assms by auto
  then obtain i b' where i: "Bitmap_FindAndSet b = Inr (i, b')" "0 \<le> i" "i \<notin> Bitmap_used b"
    "{0..<i} \<subseteq> Bitmap_used b" "Bitmap_ok b'" "numBits b' = numBits b"
    "Bitmap_used b' = insert i (Bitmap_used b)"
    using bm.find_free [OF assms(1)] by blast
  have "i = k"
  proof (cases i k rule: linorder_cases)
    case less
    then have "i \<in> {0..<k}" using i by simp
    with assms(5) i(3) show ?thesis by blast
  next
    case greater
    then have "k \<in> {0..<i}" using assms by simp
    with i(4) assms(4) show ?thesis by blast
  qed simp
  with i show ?thesis by blast
qed

lemma Bitmap_SelfTest_ok:
  assumes ok: "Bitmap_ok b" and big: "BitsInWord \<le> numBits b" and clear: "Bitmap_used b = {}"
  shows "\<exists>b'. Bitmap_SelfTest b = Inr b' \<and> Bitmap_ok b' \<and> numBits b' = numBits b \<and>
    Bitmap_used b' = {}"
proof -
  have n: "32 \<le> numBits b" using big by (simp add: BitsInWord_32)
  have num: "Bitmap_NumClear b = Inr (numBits b)"
    using bm.num_clear_law [OF ok] clear n by simp
  obtain b1 where 1: "Bitmap_FindAndSet b = Inr (0, b1)" "Bitmap_ok b1" "numBits b1 = numBits b"
    "Bitmap_used b1 = {0}"
    using Bitmap_FindAndSet_least [OF ok, of 0] n clear by auto
  obtain b2 where 2: "Bitmap_Mark b1 31 = Inr b2" "Bitmap_ok b2" "numBits b2 = numBits b"
    "Bitmap_used b2 = {0, 31}"
    using bm.mark_law [OF 1(2), of 31] n 1 by auto
  obtain b3 where 3: "Bitmap_FindAndSet b2 = Inr (1, b3)" "Bitmap_ok b3" "numBits b3 = numBits b"
    "Bitmap_used b3 = {0, 1, 31}"
  proof -
    have "{0..<1::int} \<subseteq> {0, 31}" by auto
    then show ?thesis
      using Bitmap_FindAndSet_least [OF 2(2), of 1] n 2 that by auto
  qed
  obtain b4 where 4: "Bitmap_Clear b3 0 = Inr b4" "Bitmap_ok b4" "numBits b4 = numBits b"
    using bm.clear_law [OF 3(2), of 0] n 3 by auto
  obtain b5 where 5: "Bitmap_Clear b4 1 = Inr b5" "Bitmap_ok b5" "numBits b5 = numBits b"
    using bm.clear_law [OF 4(2), of 1] n 4 by auto
  obtain b6 where 6: "Bitmap_Clear b5 31 = Inr b6" "Bitmap_ok b6" "numBits b6 = numBits b"
    using bm.clear_law [OF 5(2), of 31] n 5 by auto
  obtain b7 where 7: "foldR (\<lambda>i b. Bitmap_Mark b (int i)) [0..<nat (numBits b6)] b6 = Inr b7"
    "Bitmap_ok b7" "numBits b7 = numBits b" "Bitmap_used b7 = {0..<numBits b}"
    using Mark_range [OF 6(2), of "nat (numBits b6)"] Bitmap_used_range [of b6] 6 n by auto
  have 8: "Bitmap_FindAndSet b7 = Inr (-1, b7)"
    using bm.find_full [OF 7(2)] 7 by simp
  obtain b9 where 9: "foldR (\<lambda>i b. Bitmap_Clear b (int i)) [0..<nat (numBits b7)] b7 = Inr b9"
    "Bitmap_ok b9" "numBits b9 = numBits b" "Bitmap_used b9 = {}"
    using Clear_range [OF 7(2), of "nat (numBits b7)"] 7 n by auto
  show ?thesis
    using big n 9(2,3,4)
    by (simp add: Bitmap_SelfTest_def num 1 2 3 4(1) 5(1) 6(1) 7(1) 8 9(1) bm.test_law
        cong: bindR_weak_cong)
qed

section \<open>Properties\<close>

text \<open>
  C14. \<open>Bitmap::FindAndSet\<close> returns -1 and leaves the map alone exactly when every bit is set;
  otherwise it returns the lowest clear bit number, and the only change to the map is
  that this bit is now set.
\<close>

theorem FindAndSet_lowest_clear:
  assumes "Bitmap_ok b"
  shows "if Bitmap_used b = {0..<numBits b} then Bitmap_FindAndSet b = Inr (-1, b)
    else \<exists>i b'. Bitmap_FindAndSet b = Inr (i, b') \<and> 0 \<le> i \<and> i < numBits b \<and>
      i \<notin> Bitmap_used b \<and> {0..<i} \<subseteq> Bitmap_used b \<and> Bitmap_ok b' \<and>
      numBits b' = numBits b \<and> Bitmap_used b' = insert i (Bitmap_used b)"
  using bm.find_full [OF assms] bm.find_free [OF assms] by auto

lemma three_bits_ok: "Bitmap_ok \<lparr>numBits = 3, numWords = 1, map_words = [5]\<rparr>"
  by (simp add: Bitmap_ok_def BitsInWord_32 divRoundUp_eq)

lemma three_bits_used: "1 \<notin> Bitmap_used \<lparr>numBits = 3, numWords = 1, map_words = [5]\<rparr>"
  by (simp add: Bitmap_used_def bit_at_def BitsInWord_32)

theorem FindAndSet_lowest_clear_witness:
  "\<exists>b'. Bitmap_FindAndSet \<lparr>numBits = 3, numWords = 1, map_words = [5]\<rparr> = Inr (1, b') \<and>
     Bitmap_used b' = insert 1 (Bitmap_used \<lparr>numBits = 3, numWords = 1, map_words = [5]\<rparr>)"
proof -
  let ?b = "\<lparr>numBits = 3, numWords = 1, map_words = [5]\<rparr>"
  have ne: "Bitmap_used ?b \<noteq> {0..<numBits ?b}" using three_bits_used by auto
  have zero: "0 \<in> Bitmap_used ?b" by (simp add: Bitmap_used_def bit_at_def BitsInWord_32)
  from FindAndSet_lowest_clear [OF three_bits_ok] ne obtain i b' where
    i: "Bitmap_FindAndSet ?b = Inr (i, b')" "0 \<le> i" "i \<notin> Bitmap_used ?b"
    "{0..<i} \<subseteq> Bitmap_used ?b" "Bitmap_used b' = insert i (Bitmap_used ?b)" by auto
  have "i \<noteq> 0" using i(3) zero by auto
  moreover have "\<not> 1 < i" using subsetD [OF i(4), of 1] three_bits_used by auto
  ultimately have "i = 1" using i(2) by simp
  with i show ?thesis by blast
qed

text \<open>
  C30. On a newly constructed bitmap of at least one word, as \<open>LibSelfTest\<close> builds it, no
  assertion of \<open>Bitmap::SelfTest\<close> fails, no access leaves the array, and the map is all
  clear again at the end.
\<close>

theorem Bitmap_SelfTest_passes:
  assumes "BitsInWord \<le> n"
  shows "\<exists>b b'. Bitmap_new n = Inr b \<and> Bitmap_SelfTest b = Inr b' \<and> Bitmap_ok b' \<and>
    Bitmap_used b' = {}"
proof -
  from assms have "0 < n" by (simp add: BitsInWord_32)
  then obtain b where b: "Bitmap_new n = Inr b" "Bitmap_ok b" "numBits b = n" "Bitmap_used b = {}"
    using Bitmap_new_ok by blast
  with assms Bitmap_SelfTest_ok [of b] show ?thesis by auto
qed

theorem Bitmap_SelfTest_passes_witness:
  "\<exists>b b'. Bitmap_new 200 = Inr b \<and> Bitmap_SelfTest b = Inr b' \<and> Bitmap_ok b' \<and>
     Bitmap_used b' = {}"
  by (rule Bitmap_SelfTest_passes) (simp add: BitsInWord_32)

end
