(* ===== verification/Nachos_List.thy ===== *)
theory Nachos_List
  imports Nachos_Prelude
begin

text \<open>
  The singly linked lists of \<open>lib/list.h\<close> and \<open>lib/list.cc\<close>, at the level of the pointers
  the code manipulates. A heap maps the addresses of live \<open>ListElement\<close> objects to
  their contents; \<open>new\<close> takes the next unused address and \<open>delete\<close> removes one. A
  list object has the fields \<open>first\<close>, \<open>last\<close> and \<open>numInList\<close> of the class. Every member
  function of \<open>List\<close> and \<open>SortedList\<close> is a definition that reads and writes this heap.

  The second half gives the contract: the relation \<open>holds\<close> between a list object
  in a heap and a sequence of items, the sequence-level operations \<open>seq_Append\<close> and
  its companions, and the refinement lemmas. The other components use the
  sequence-level operations.

  A traversal visits a cell per step. The loops carry the number of addresses
  handed out so far as fuel: a traversal that takes more steps has visited a cell
  twice, and since it does not change the heap it never ends, which is the fault
  \<open>LoopsForever\<close>. On every represented list the fuel is enough.
\<close>

section \<open>Elements, heap and list objects\<close>

type_synonym addr = nat

record 'a ListElement =
  next_ptr :: "addr option"
  item_of :: 'a

record 'a Heap =
  cells :: "addr \<rightharpoonup> 'a ListElement"
  brk :: addr

record CList =
  first_ptr :: "addr option"
  last_ptr :: "addr option"
  numInList :: int

definition new_ListElement :: "'a Heap \<Rightarrow> 'a \<Rightarrow> addr \<times> 'a Heap" where
  "new_ListElement h itm =
     (brk h, h\<lparr>cells := (cells h)(brk h \<mapsto> \<lparr>next_ptr = None, item_of = itm\<rparr>), brk := Suc (brk h)\<rparr>)"

definition delete_ListElement :: "'a Heap \<Rightarrow> addr \<Rightarrow> 'a Heap" where
  "delete_ListElement h p = h\<lparr>cells := (cells h)(p := None)\<rparr>"

definition deref :: "'a Heap \<Rightarrow> addr option \<Rightarrow> 'a ListElement res" where
  "deref h p = (case p of None \<Rightarrow> Inl NullDeref
     | Some a \<Rightarrow> (case cells h a of None \<Rightarrow> Inl UseAfterFree | Some e \<Rightarrow> Inr e))"

definition set_next :: "'a Heap \<Rightarrow> addr option \<Rightarrow> addr option \<Rightarrow> 'a Heap res" where
  "set_next h p q = bindR (deref h p) (\<lambda>e.
     Inr (h\<lparr>cells := (cells h)(the p \<mapsto> e\<lparr>next_ptr := q\<rparr>)\<rparr>))"

section \<open>List\<close>

definition List_new :: CList where
  "List_new = \<lparr>first_ptr = None, last_ptr = None, numInList = 0\<rparr>"

definition List_IsEmpty :: "CList \<Rightarrow> bool" where
  "List_IsEmpty l = (numInList l = 0)"

definition List_Front :: "'a Heap \<Rightarrow> CList \<Rightarrow> 'a res" where
  "List_Front h l = bindR (deref h (first_ptr l)) (\<lambda>e. Inr (item_of e))"

fun IsInList_loop :: "'a Heap \<Rightarrow> nat \<Rightarrow> addr option \<Rightarrow> 'a \<Rightarrow> bool res" where
  "IsInList_loop h fuel None itm = Inr False"
| "IsInList_loop h 0 (Some p) itm = Inl LoopsForever"
| "IsInList_loop h (Suc fuel) (Some p) itm =
     bindR (deref h (Some p)) (\<lambda>e.
       if itm = item_of e then Inr True else IsInList_loop h fuel (next_ptr e) itm)"

definition List_IsInList :: "'a Heap \<Rightarrow> CList \<Rightarrow> 'a \<Rightarrow> bool res" where
  "List_IsInList h l itm = IsInList_loop h (brk h) (first_ptr l) itm"

definition List_Append :: "'a Heap \<Rightarrow> CList \<Rightarrow> 'a \<Rightarrow> ('a Heap \<times> CList) res" where
  "List_Append h l itm =
     (let (element, h) = new_ListElement h itm in
      bindR (List_IsInList h l itm) (\<lambda>present.
      bindR (ASSERT (\<not> present)) (\<lambda>_.
      bindR (if List_IsEmpty l
             then Inr (h, l\<lparr>first_ptr := Some element, last_ptr := Some element\<rparr>)
             else bindR (set_next h (last_ptr l) (Some element)) (\<lambda>h.
                  Inr (h, l\<lparr>last_ptr := Some element\<rparr>))) (\<lambda>(h, l).
      let l = l\<lparr>numInList := numInList l + 1\<rparr> in
      bindR (List_IsInList h l itm) (\<lambda>present.
      bindR (ASSERT present) (\<lambda>_. Inr (h, l)))))))"

definition List_Prepend :: "'a Heap \<Rightarrow> CList \<Rightarrow> 'a \<Rightarrow> ('a Heap \<times> CList) res" where
  "List_Prepend h l itm =
     (let (element, h) = new_ListElement h itm in
      bindR (List_IsInList h l itm) (\<lambda>present.
      bindR (ASSERT (\<not> present)) (\<lambda>_.
      bindR (if List_IsEmpty l
             then Inr (h, l\<lparr>first_ptr := Some element, last_ptr := Some element\<rparr>)
             else bindR (set_next h (Some element) (first_ptr l)) (\<lambda>h.
                  Inr (h, l\<lparr>first_ptr := Some element\<rparr>))) (\<lambda>(h, l).
      let l = l\<lparr>numInList := numInList l + 1\<rparr> in
      bindR (List_IsInList h l itm) (\<lambda>present.
      bindR (ASSERT present) (\<lambda>_. Inr (h, l)))))))"

definition List_RemoveFront :: "'a Heap \<Rightarrow> CList \<Rightarrow> ('a \<times> 'a Heap \<times> CList) res" where
  "List_RemoveFront h l =
     bindR (ASSERT (\<not> List_IsEmpty l)) (\<lambda>_.
     bindR (deref h (first_ptr l)) (\<lambda>element.
     let thing = item_of element;
         l' = (if first_ptr l = last_ptr l
               then l\<lparr>first_ptr := None, last_ptr := None\<rparr>
               else l\<lparr>first_ptr := next_ptr element\<rparr>);
         l' = l'\<lparr>numInList := numInList l' - 1\<rparr>
     in Inr (thing, delete_ListElement h (the (first_ptr l)), l')))"

fun Remove_loop ::
    "'a Heap \<Rightarrow> CList \<Rightarrow> nat \<Rightarrow> addr option \<Rightarrow> addr option \<Rightarrow> 'a \<Rightarrow> ('a Heap \<times> CList) res" where
  "Remove_loop h l fuel prev None itm = Inl AssertFailed"
| "Remove_loop h l 0 prev (Some p) itm = Inl LoopsForever"
| "Remove_loop h l (Suc fuel) prev (Some p) itm =
     bindR (deref h (Some p)) (\<lambda>e.
       if itm = item_of e
       then bindR (set_next h prev (next_ptr e)) (\<lambda>h.
            let l = (if next_ptr e = None then l\<lparr>last_ptr := prev\<rparr> else l)
            in Inr (delete_ListElement h p, l\<lparr>numInList := numInList l - 1\<rparr>))
       else Remove_loop h l fuel (Some p) (next_ptr e) itm)"

definition List_Remove :: "'a Heap \<Rightarrow> CList \<Rightarrow> 'a \<Rightarrow> ('a Heap \<times> CList) res" where
  "List_Remove h l itm =
     bindR (List_IsInList h l itm) (\<lambda>present.
     bindR (ASSERT present) (\<lambda>_.
     bindR (deref h (first_ptr l)) (\<lambda>e.
     bindR (if itm = item_of e
            then bindR (List_RemoveFront h l) (\<lambda>(removed, h, l).
                 bindR (ASSERT (itm = removed)) (\<lambda>_. Inr (h, l)))
            else Remove_loop h l (brk h) (first_ptr l) (next_ptr e) itm) (\<lambda>(h, l).
     bindR (List_IsInList h l itm) (\<lambda>present.
     bindR (ASSERT (\<not> present)) (\<lambda>_. Inr (h, l)))))))"

text \<open>The items \<open>List::Apply\<close> hands to its function, in order.\<close>

fun Apply_loop :: "'a Heap \<Rightarrow> nat \<Rightarrow> addr option \<Rightarrow> 'a list res" where
  "Apply_loop h fuel None = Inr []"
| "Apply_loop h 0 (Some p) = Inl LoopsForever"
| "Apply_loop h (Suc fuel) (Some p) =
     bindR (deref h (Some p)) (\<lambda>e.
     bindR (Apply_loop h fuel (next_ptr e)) (\<lambda>xs. Inr (item_of e # xs)))"

definition List_Apply :: "'a Heap \<Rightarrow> CList \<Rightarrow> 'a list res" where
  "List_Apply h l = Apply_loop h (brk h) (first_ptr l)"

function SanityCheck_loop :: "'a Heap \<Rightarrow> CList \<Rightarrow> int \<Rightarrow> addr option \<Rightarrow> int res" where
  "SanityCheck_loop h l numFound ptr =
     (if ptr \<noteq> last_ptr l
      then if numFound + 1 \<le> numInList l
           then bindR (deref h ptr) (\<lambda>e. SanityCheck_loop h l (numFound + 1) (next_ptr e))
           else Inl AssertFailed
      else Inr numFound)"
  by pat_completeness auto
termination
  by (relation "measure (\<lambda>(h, l, n, p). nat (numInList l - n))") auto

declare SanityCheck_loop.simps [simp del]

definition List_SanityCheck :: "'a Heap \<Rightarrow> CList \<Rightarrow> unit res" where
  "List_SanityCheck h l =
     (if first_ptr l = None then ASSERT (numInList l = 0 \<and> last_ptr l = None)
      else if first_ptr l = last_ptr l
      then if numInList l = 1
           then bindR (deref h (last_ptr l)) (\<lambda>e. ASSERT (next_ptr e = None))
           else Inl AssertFailed
      else bindR (SanityCheck_loop h l 1 (first_ptr l)) (\<lambda>numFound.
           bindR (ASSERT (numFound = numInList l)) (\<lambda>_.
           bindR (deref h (last_ptr l)) (\<lambda>e. ASSERT (next_ptr e = None)))))"

text \<open>
  \<open>List::SelfTest\<close> calls the virtual functions \<open>Append\<close> and \<open>SanityCheck\<close>; the sorted
  list overrides both, so they are parameters here. The iterator is created on a
  list whose \<open>first\<close> is then checked to be null, so its loop is empty.
\<close>

definition SelfTest_put ::
    "('a Heap \<Rightarrow> CList \<Rightarrow> 'a \<Rightarrow> ('a Heap \<times> CList) res) \<Rightarrow> 'a \<Rightarrow> 'a Heap \<times> CList \<Rightarrow>
     ('a Heap \<times> CList) res" where
  "SelfTest_put add x = (\<lambda>(h, l).
     bindR (add h l x) (\<lambda>(h, l).
     bindR (List_IsInList h l x) (\<lambda>present.
     bindR (ASSERT present) (\<lambda>_.
     bindR (ASSERT (\<not> List_IsEmpty l)) (\<lambda>_. Inr (h, l))))))"

definition SelfTest_get :: "'a \<Rightarrow> 'a Heap \<times> CList \<Rightarrow> ('a Heap \<times> CList) res" where
  "SelfTest_get x = (\<lambda>(h, l).
     bindR (List_Remove h l x) (\<lambda>(h, l).
     bindR (List_IsInList h l x) (\<lambda>present.
     bindR (ASSERT (\<not> present)) (\<lambda>_. Inr (h, l)))))"

definition List_SelfTest_with ::
    "('a Heap \<Rightarrow> CList \<Rightarrow> 'a \<Rightarrow> ('a Heap \<times> CList) res) \<Rightarrow> ('a Heap \<Rightarrow> CList \<Rightarrow> unit res) \<Rightarrow>
     'a Heap \<Rightarrow> CList \<Rightarrow> 'a list \<Rightarrow> ('a Heap \<times> CList) res" where
  "List_SelfTest_with add sanity h l p =
     bindR (sanity h l) (\<lambda>_.
     bindR (ASSERT (List_IsEmpty l \<and> first_ptr l = None)) (\<lambda>_.
     bindR (foldR (SelfTest_put add) p (h, l)) (\<lambda>(h, l).
     bindR (sanity h l) (\<lambda>_.
     bindR (foldR SelfTest_get p (h, l)) (\<lambda>(h, l).
     bindR (ASSERT (List_IsEmpty l)) (\<lambda>_.
     bindR (sanity h l) (\<lambda>_. Inr (h, l))))))))"

definition List_SelfTest :: "'a Heap \<Rightarrow> CList \<Rightarrow> 'a list \<Rightarrow> ('a Heap \<times> CList) res" where
  "List_SelfTest = List_SelfTest_with List_Append List_SanityCheck"

section \<open>SortedList\<close>

fun Insert_loop ::
    "('a \<Rightarrow> 'a \<Rightarrow> int) \<Rightarrow> 'a Heap \<Rightarrow> nat \<Rightarrow> addr option \<Rightarrow> addr \<Rightarrow> 'a \<Rightarrow> ('a Heap option) res" where
  "Insert_loop compare h 0 ptr element itm = Inl LoopsForever"
| "Insert_loop compare h (Suc fuel) ptr element itm =
     bindR (deref h ptr) (\<lambda>e.
       if next_ptr e = None then Inr None
       else bindR (deref h (next_ptr e)) (\<lambda>e'.
         if compare itm (item_of e') < 0
         then bindR (set_next h (Some element) (next_ptr e)) (\<lambda>h.
              bindR (set_next h ptr (Some element)) (\<lambda>h. Inr (Some h)))
         else Insert_loop compare h fuel (next_ptr e) element itm))"

text \<open>The early \<open>return\<close> inside the loop skips the final assertion.\<close>

definition SortedList_Insert ::
    "('a \<Rightarrow> 'a \<Rightarrow> int) \<Rightarrow> 'a Heap \<Rightarrow> CList \<Rightarrow> 'a \<Rightarrow> ('a Heap \<times> CList) res" where
  "SortedList_Insert compare h l itm =
     (let (element, h) = new_ListElement h itm;
          finish = (\<lambda>h l. let l = l\<lparr>numInList := numInList l + 1\<rparr> in
             bindR (List_IsInList h l itm) (\<lambda>present.
             bindR (ASSERT present) (\<lambda>_. Inr (h, l))))
      in bindR (List_IsInList h l itm) (\<lambda>present.
         bindR (ASSERT (\<not> present)) (\<lambda>_.
         if List_IsEmpty l
         then finish h (l\<lparr>first_ptr := Some element, last_ptr := Some element\<rparr>)
         else bindR (deref h (first_ptr l)) (\<lambda>e.
           if compare itm (item_of e) < 0
           then bindR (set_next h (Some element) (first_ptr l)) (\<lambda>h.
                finish h (l\<lparr>first_ptr := Some element\<rparr>))
           else bindR (Insert_loop compare h (brk h) (first_ptr l) element itm) (\<lambda>r.
             case r of
               Some h \<Rightarrow> Inr (h, l\<lparr>numInList := numInList l + 1\<rparr>)
             | None \<Rightarrow> bindR (set_next h (last_ptr l) (Some element)) (\<lambda>h.
                       finish h (l\<lparr>last_ptr := Some element\<rparr>)))))))"

fun SortedCheck_loop :: "('a \<Rightarrow> 'a \<Rightarrow> int) \<Rightarrow> 'a Heap \<Rightarrow> nat \<Rightarrow> 'a \<Rightarrow> addr option \<Rightarrow> unit res" where
  "SortedCheck_loop compare h fuel prev None = Inr ()"
| "SortedCheck_loop compare h 0 prev (Some p) = Inl LoopsForever"
| "SortedCheck_loop compare h (Suc fuel) prev (Some p) =
     bindR (deref h (Some p)) (\<lambda>e.
     bindR (ASSERT (compare prev (item_of e) \<le> 0)) (\<lambda>_.
     SortedCheck_loop compare h fuel (item_of e) (next_ptr e)))"

definition SortedList_SanityCheck ::
    "('a \<Rightarrow> 'a \<Rightarrow> int) \<Rightarrow> 'a Heap \<Rightarrow> CList \<Rightarrow> unit res" where
  "SortedList_SanityCheck compare h l =
     bindR (List_SanityCheck h l) (\<lambda>_.
       if first_ptr l \<noteq> last_ptr l
       then bindR (deref h (first_ptr l)) (\<lambda>e.
            SortedCheck_loop compare h (brk h) (item_of e) (next_ptr e))
       else Inr ())"

fun adjacent_sorted :: "('a \<Rightarrow> 'a \<Rightarrow> int) \<Rightarrow> 'a list \<Rightarrow> bool" where
  "adjacent_sorted compare (x # y # ys) = (compare x y \<le> 0 \<and> adjacent_sorted compare (y # ys))"
| "adjacent_sorted compare _ = True"

definition SortedTest_put ::
    "('a \<Rightarrow> 'a \<Rightarrow> int) \<Rightarrow> 'a \<Rightarrow> 'a Heap \<times> CList \<Rightarrow> ('a Heap \<times> CList) res" where
  "SortedTest_put compare x = (\<lambda>(h, l).
     bindR (SortedList_Insert compare h l x) (\<lambda>(h, l).
     bindR (List_IsInList h l x) (\<lambda>present.
     bindR (ASSERT present) (\<lambda>_. Inr (h, l)))))"

definition SortedTest_get ::
    "'a \<Rightarrow> 'a list \<times> 'a Heap \<times> CList \<Rightarrow> ('a list \<times> 'a Heap \<times> CList) res" where
  "SortedTest_get _ = (\<lambda>(q, h, l).
     bindR (List_RemoveFront h l) (\<lambda>(x, h, l).
     bindR (List_IsInList h l x) (\<lambda>present.
     bindR (ASSERT (\<not> present)) (\<lambda>_. Inr (q @ [x], h, l)))))"

definition SortedList_SelfTest ::
    "('a \<Rightarrow> 'a \<Rightarrow> int) \<Rightarrow> 'a Heap \<Rightarrow> CList \<Rightarrow> 'a list \<Rightarrow> ('a Heap \<times> CList) res" where
  "SortedList_SelfTest compare h l p =
     bindR (List_SelfTest_with (SortedList_Insert compare) (SortedList_SanityCheck compare) h l p)
       (\<lambda>(h, l).
     bindR (foldR (SortedTest_put compare) p (h, l)) (\<lambda>(h, l).
     bindR (SortedList_SanityCheck compare h l) (\<lambda>_.
     bindR (foldR SortedTest_get p ([], h, l)) (\<lambda>(q, h, l).
     bindR (ASSERT (List_IsEmpty l)) (\<lambda>_.
     bindR (ASSERT (adjacent_sorted compare q)) (\<lambda>_.
     bindR (SortedList_SanityCheck compare h l) (\<lambda>_. Inr (h, l))))))))"

section \<open>The sequence a list object represents\<close>

text \<open>
  \<open>chain h p axs q\<close>: following \<open>next\<close> from \<open>p\<close> visits the cells \<open>axs\<close> (address and
  item) and then arrives at \<open>q\<close>.
\<close>

fun chain :: "'a Heap \<Rightarrow> addr option \<Rightarrow> (addr \<times> 'a) list \<Rightarrow> addr option \<Rightarrow> bool" where
  "chain h p [] q \<longleftrightarrow> p = q"
| "chain h p ((a, x) # axs) q \<longleftrightarrow>
     p = Some a \<and> (\<exists>n. cells h a = Some \<lparr>next_ptr = n, item_of = x\<rparr> \<and> chain h n axs q)"

definition rep :: "'a Heap \<Rightarrow> CList \<Rightarrow> (addr \<times> 'a) list \<Rightarrow> bool" where
  "rep h l axs \<longleftrightarrow> chain h (first_ptr l) axs None \<and> distinct (map fst axs) \<and>
     (\<forall>a\<in>fst ` set axs. a < brk h) \<and>
     last_ptr l = (if axs = [] then None else Some (fst (last axs))) \<and>
     numInList l = int (length axs)"

definition frame_out :: "'a Heap \<Rightarrow> 'a Heap \<Rightarrow> addr set \<Rightarrow> bool" where
  "frame_out h h' A \<longleftrightarrow> brk h \<le> brk h' \<and> (\<forall>a. a \<notin> A \<longrightarrow> cells h' a = cells h a)"

lemma chain_append: "chain h p (us @ vs) q \<longleftrightarrow> (\<exists>m. chain h p us m \<and> chain h m vs q)"
proof (induction us arbitrary: p)
  case (Cons ax us)
  then show ?case by (cases ax) (simp, blast)
qed simp

lemma chain_cong:
  "(\<And>a. a \<in> fst ` set axs \<Longrightarrow> cells h' a = cells h a) \<Longrightarrow> chain h p axs q \<Longrightarrow> chain h' p axs q"
proof (induction axs arbitrary: p)
  case (Cons ax axs)
  then show ?case by (cases ax) fastforce
qed simp

lemma rep_frame:
  "rep h l axs \<Longrightarrow> frame_out h h' A \<Longrightarrow> fst ` set axs \<inter> A = {} \<Longrightarrow> rep h' l axs"
  unfolding rep_def frame_out_def
  by (fastforce elim!: chain_cong [rotated])

lemma rep_length: "rep h l axs \<Longrightarrow> length axs \<le> brk h"
proof -
  assume r: "rep h l axs"
  then have "card (set (map fst axs)) = length axs"
    unfolding rep_def by (metis distinct_card length_map)
  moreover have "set (map fst axs) \<subseteq> {..<brk h}" using r unfolding rep_def by auto
  ultimately show ?thesis using card_mono [of "{..<brk h}" "set (map fst axs)"] by simp
qed

lemma IsInList_loop_eq:
  "chain h p axs None \<Longrightarrow> length axs \<le> fuel \<Longrightarrow>
     IsInList_loop h fuel p x = Inr (x \<in> snd ` set axs)"
proof (induction axs arbitrary: p fuel)
  case Nil
  then show ?case by simp
next
  case (Cons ax axs)
  then show ?case by (cases ax; cases fuel) (auto simp: deref_def)
qed

lemma List_IsInList_eq: "rep h l axs \<Longrightarrow> List_IsInList h l x = Inr (x \<in> snd ` set axs)"
  using rep_length [of h l axs] by (simp add: List_IsInList_def rep_def IsInList_loop_eq)

lemma rep_IsEmpty: "rep h l axs \<Longrightarrow> List_IsEmpty l \<longleftrightarrow> axs = []"
  by (simp add: rep_def List_IsEmpty_def)

lemma rep_first: "rep h l ((a, x) # axs) \<Longrightarrow>
   first_ptr l = Some a \<and> (\<exists>n. cells h a = Some \<lparr>next_ptr = n, item_of = x\<rparr> \<and> chain h n axs None)"
  by (simp add: rep_def)

lemma List_new_rep: "rep h List_new []"
  by (simp add: rep_def List_new_def)

section \<open>What each operation does to the sequence\<close>

lemma set_next_eq:
  "cells h a = Some e \<Longrightarrow>
     set_next h (Some a) q = Inr (h\<lparr>cells := (cells h)(a \<mapsto> e\<lparr>next_ptr := q\<rparr>)\<rparr>)"
  by (simp add: set_next_def deref_def)

lemma rep_new:
  assumes "rep h l axs"
  shows "\<exists>h'. new_ListElement h x = (brk h, h') \<and> rep h' l axs \<and> brk h' = Suc (brk h) \<and>
    cells h' = (cells h)(brk h \<mapsto> \<lparr>next_ptr = None, item_of = x\<rparr>) \<and> brk h \<notin> fst ` set axs"
proof -
  define h' where "h' = snd (new_ListElement h x)"
  then have h': "new_ListElement h x = (brk h, h')" "brk h' = Suc (brk h)"
    "cells h' = (cells h)(brk h \<mapsto> \<lparr>next_ptr = None, item_of = x\<rparr>)"
    by (simp_all add: new_ListElement_def)
  have fresh: "brk h \<notin> fst ` set axs" using assms by (auto simp: rep_def)
  have "frame_out h h' {brk h}" using h' by (simp add: frame_out_def)
  then have "rep h' l axs" by (rule rep_frame [OF assms]) (use fresh in simp)
  with h' fresh show ?thesis by blast
qed

text \<open>Linking a fresh cell behind the last one, and in front of the first one.\<close>

lemma rep_link_last:
  assumes r: "rep h l (us @ [(a, y)])" and b: "b \<notin> fst ` set (us @ [(a, y)])" "b < brk h"
    and c: "cells h b = Some \<lparr>next_ptr = None, item_of = x\<rparr>"
  shows "\<exists>h'. set_next h (last_ptr l) (Some b) = Inr h' \<and> brk h' = brk h \<and>
     (\<forall>c. c \<noteq> a \<longrightarrow> cells h' c = cells h c) \<and>
     rep h' (l\<lparr>last_ptr := Some b, numInList := numInList l + 1\<rparr>) (us @ [(a, y), (b, x)])"
proof -
  from r obtain m where ch: "chain h (first_ptr l) us m" "m = Some a"
    "cells h a = Some \<lparr>next_ptr = None, item_of = y\<rparr>"
    by (auto simp: rep_def chain_append)
  define h' where "h' = h\<lparr>cells := (cells h)(a \<mapsto> \<lparr>next_ptr = Some b, item_of = y\<rparr>)\<rparr>"
  have "set_next h (last_ptr l) (Some b) = Inr h'"
    using r ch(3) by (simp add: rep_def set_next_eq h'_def)
  moreover have "chain h' (first_ptr l) us m"
    by (rule chain_cong [OF _ ch(1)]) (use r in \<open>auto simp: h'_def rep_def\<close>)
  ultimately show ?thesis
    using r b c ch by (auto simp: rep_def chain_append h'_def intro!: exI [of _ "Some a"])
qed

lemma rep_link_first:
  assumes r: "rep h l axs" and "axs \<noteq> []" and b: "b \<notin> fst ` set axs" "b < brk h"
    and c: "cells h b = Some \<lparr>next_ptr = None, item_of = x\<rparr>"
  shows "\<exists>h'. set_next h (Some b) (first_ptr l) = Inr h' \<and> brk h' = brk h \<and>
     (\<forall>c. c \<noteq> b \<longrightarrow> cells h' c = cells h c) \<and>
     rep h' (l\<lparr>first_ptr := Some b, numInList := numInList l + 1\<rparr>) ((b, x) # axs)"
proof -
  define h' where "h' = h\<lparr>cells := (cells h)(b \<mapsto> \<lparr>next_ptr = first_ptr l, item_of = x\<rparr>)\<rparr>"
  have "chain h' (first_ptr l) axs None"
    by (rule chain_cong [of _ _ h]) (use r b in \<open>auto simp: h'_def rep_def\<close>)
  then show ?thesis
    using r b c \<open>axs \<noteq> []\<close> by (auto simp: rep_def h'_def set_next_eq)
qed

lemma rep_singleton:
  "rep h l [] \<Longrightarrow> b < brk h \<Longrightarrow> cells h b = Some \<lparr>next_ptr = None, item_of = x\<rparr> \<Longrightarrow>
     rep h (l\<lparr>first_ptr := Some b, last_ptr := Some b, numInList := numInList l + 1\<rparr>) [(b, x)]"
  by (simp add: rep_def)

lemma List_Append_rep:
  assumes r: "rep h l axs" and x: "x \<notin> snd ` set axs"
  shows "\<exists>h' l'. List_Append h l x = Inr (h', l') \<and> rep h' l' (axs @ [(brk h, x)]) \<and>
     brk h' = Suc (brk h) \<and> frame_out h h' (insert (brk h) (fst ` set axs))"
proof -
  obtain h1 where new: "rep h1 l axs" "new_ListElement h x = (brk h, h1)"
    "brk h1 = Suc (brk h)" "cells h1 = (cells h)(brk h \<mapsto> \<lparr>next_ptr = None, item_of = x\<rparr>)"
    "brk h \<notin> fst ` set axs"
    using rep_new [OF r, of x] by blast
  show ?thesis
  proof (cases axs rule: rev_cases)
    case Nil
    with new r have r1: "rep h1 (l\<lparr>first_ptr := Some (brk h), last_ptr := Some (brk h),
        numInList := numInList l + 1\<rparr>) [(brk h, x)]"
      by (intro rep_singleton) auto
    then show ?thesis
      using Nil x new by (simp add: List_Append_def Let_def List_IsInList_eq [OF new(1)]
          rep_IsEmpty [OF r] List_IsInList_eq [OF r1] frame_out_def)
  next
    case (snoc us ay)
    then obtain a y where ay: "axs = us @ [(a, y)]" by (cases ay) auto
    obtain h2 where h2: "set_next h1 (last_ptr l) (Some (brk h)) = Inr h2" "brk h2 = brk h1"
        "\<forall>c. c \<noteq> a \<longrightarrow> cells h2 c = cells h1 c"
        "rep h2 (l\<lparr>last_ptr := Some (brk h), numInList := numInList l + 1\<rparr>)
           (us @ [(a, y), (brk h, x)])"
      using rep_link_last [of h1 l us a y "brk h" x] new ay by auto
    show ?thesis
      using ay x new h2 by (simp add: List_Append_def Let_def List_IsInList_eq [OF new(1)]
          rep_IsEmpty [OF r] List_IsInList_eq [OF h2(4)] frame_out_def)
  qed
qed

lemma List_Prepend_rep:
  assumes r: "rep h l axs" and x: "x \<notin> snd ` set axs"
  shows "\<exists>h' l'. List_Prepend h l x = Inr (h', l') \<and> rep h' l' ((brk h, x) # axs) \<and>
     brk h' = Suc (brk h) \<and> frame_out h h' (insert (brk h) (fst ` set axs))"
proof -
  obtain h1 where new: "rep h1 l axs" "new_ListElement h x = (brk h, h1)"
    "brk h1 = Suc (brk h)" "cells h1 = (cells h)(brk h \<mapsto> \<lparr>next_ptr = None, item_of = x\<rparr>)"
    "brk h \<notin> fst ` set axs"
    using rep_new [OF r, of x] by blast
  show ?thesis
  proof (cases "axs = []")
    case True
    with new r have r1: "rep h1 (l\<lparr>first_ptr := Some (brk h), last_ptr := Some (brk h),
        numInList := numInList l + 1\<rparr>) [(brk h, x)]"
      by (intro rep_singleton) auto
    then show ?thesis
      using True x new by (simp add: List_Prepend_def Let_def List_IsInList_eq [OF new(1)]
          rep_IsEmpty [OF r] List_IsInList_eq [OF r1] frame_out_def)
  next
    case False
    obtain h2 where h2: "set_next h1 (Some (brk h)) (first_ptr l) = Inr h2" "brk h2 = brk h1"
        "\<forall>c. c \<noteq> brk h \<longrightarrow> cells h2 c = cells h1 c"
        "rep h2 (l\<lparr>first_ptr := Some (brk h), numInList := numInList l + 1\<rparr>) ((brk h, x) # axs)"
      using rep_link_first [of h1 l axs "brk h" x] new False by auto
    show ?thesis
      using False x new h2 by (simp add: List_Prepend_def Let_def List_IsInList_eq [OF new(1)]
          rep_IsEmpty [OF r] List_IsInList_eq [OF h2(4)] frame_out_def)
  qed
qed

lemma rep_last_first:
  "rep h l ((a, x) # axs) \<Longrightarrow> first_ptr l = last_ptr l \<longleftrightarrow> axs = []"
  by (auto simp: rep_def)

lemma List_RemoveFront_rep:
  assumes r: "rep h l ((a, x) # axs)"
  shows "\<exists>l'. List_RemoveFront h l = Inr (x, delete_ListElement h a, l') \<and>
     rep (delete_ListElement h a) l' axs"
proof -
  from r obtain n where n: "first_ptr l = Some a"
    "cells h a = Some \<lparr>next_ptr = n, item_of = x\<rparr>" "chain h n axs None"
    by (auto simp: rep_def)
  have "chain (delete_ListElement h a) n axs None"
    by (rule chain_cong [OF _ n(3)]) (use r in \<open>auto simp: rep_def delete_ListElement_def\<close>)
  then show ?thesis
    using r n rep_IsEmpty [OF r] rep_last_first [OF r]
    by (cases "axs = []")
      (auto simp: List_RemoveFront_def deref_def Let_def rep_def delete_ListElement_def)
qed

lemma rep_unlink:
  assumes r: "rep h l (us @ (p, y) # (a, x) # zs)"
  shows "\<exists>n h1. cells h a = Some \<lparr>next_ptr = n, item_of = x\<rparr> \<and>
     set_next h (Some p) n = Inr h1 \<and>
     rep (delete_ListElement h1 a)
       ((if n = None then l\<lparr>last_ptr := Some p\<rparr> else l)\<lparr>numInList := numInList l - 1\<rparr>)
       (us @ (p, y) # zs) \<and>
     frame_out h (delete_ListElement h1 a) {p, a}"
proof -
  from r obtain n where ch: "chain h (first_ptr l) us (Some p)"
    "cells h p = Some \<lparr>next_ptr = Some a, item_of = y\<rparr>"
    "cells h a = Some \<lparr>next_ptr = n, item_of = x\<rparr>" "chain h n zs None"
    by (auto simp: rep_def chain_append)
  define h1 where "h1 = h\<lparr>cells := (cells h)(p \<mapsto> \<lparr>next_ptr = n, item_of = y\<rparr>)\<rparr>"
  define h2 where "h2 = delete_ListElement h1 a"
  have cells2: "\<And>c. c \<noteq> p \<Longrightarrow> c \<noteq> a \<Longrightarrow> cells h2 c = cells h c" "brk h2 = brk h"
    "p \<noteq> a \<Longrightarrow> cells h2 p = Some \<lparr>next_ptr = n, item_of = y\<rparr>"
    by (simp_all add: h1_def h2_def delete_ListElement_def)
  have "chain h2 (first_ptr l) us (Some p)"
    by (rule chain_cong [OF cells2(1) ch(1)]) (use r in \<open>auto simp: rep_def\<close>)
  moreover have "chain h2 n zs None"
    by (rule chain_cong [OF cells2(1) ch(4)]) (use r in \<open>auto simp: rep_def\<close>)
  moreover have "n = None \<longleftrightarrow> zs = []" using ch(4) by (cases zs) auto
  ultimately have "rep h2 ((if n = None then l\<lparr>last_ptr := Some p\<rparr> else l)
      \<lparr>numInList := numInList l - 1\<rparr>) (us @ (p, y) # zs)"
    using r cells2 by (auto simp: rep_def chain_append)
  moreover have "set_next h (Some p) n = Inr h1" using ch(2) by (simp add: set_next_eq h1_def)
  moreover have "frame_out h h2 {p, a}" using cells2 by (auto simp: frame_out_def)
  ultimately show ?thesis using ch(3) unfolding h2_def by blast
qed

lemma Remove_loop_rep:
  "rep h l (us @ (p, y) # vs) \<Longrightarrow> x \<in> snd ` set vs \<Longrightarrow> length vs \<le> fuel \<Longrightarrow>
   \<exists>h' l' ys a zs. Remove_loop h l fuel (Some p) (Some (fst (hd vs))) x = Inr (h', l') \<and>
     vs = ys @ (a, x) # zs \<and> x \<notin> snd ` set ys \<and> rep h' l' (us @ (p, y) # ys @ zs) \<and>
     frame_out h h' (fst ` set (us @ (p, y) # vs))"
proof (induction vs arbitrary: us p y fuel)
  case (Cons v vs)
  obtain a z where v: "v = (a, z)" by (cases v)
  from Cons.prems(3) obtain f where f: "fuel = Suc f" "length vs \<le> f" by (cases fuel) auto
  from Cons.prems(1) v obtain n where n: "cells h a = Some \<lparr>next_ptr = n, item_of = z\<rparr>"
    "chain h n vs None" by (auto simp: rep_def chain_append)
  show ?case
  proof (cases "x = z")
    case True
    define l' where "l' = (if n = None then l\<lparr>last_ptr := Some p\<rparr> else l)\<lparr>numInList := numInList l - 1\<rparr>"
    from rep_unlink [of h l us p y a z vs] Cons.prems(1) v n obtain h1 where
      h1: "set_next h (Some p) n = Inr h1" "rep (delete_ListElement h1 a) l' (us @ (p, y) # [] @ vs)"
      "frame_out h (delete_ListElement h1 a) {p, a}" by (auto simp: l'_def)
    have "Remove_loop h l fuel (Some p) (Some (fst (hd (v # vs)))) x =
        Inr (delete_ListElement h1 a, l')"
      using True v f n h1(1) by (simp add: deref_def Let_def l'_def)
    moreover have "v # vs = [] @ (a, x) # vs \<and> x \<notin> snd ` set []" using True v by simp
    moreover have "frame_out h (delete_ListElement h1 a) (fst ` set (us @ (p, y) # v # vs))"
      using h1(3) v by (simp add: frame_out_def)
    ultimately show ?thesis using h1(2) by blast
  next
    case False
    with Cons.prems(2) v have in_vs: "x \<in> snd ` set vs" by auto
    have ne: "n = Some (fst (hd vs))" using n(2) in_vs by (cases vs) auto
    from Cons.IH [of "us @ [(p, y)]" a z f] Cons.prems(1) v in_vs f obtain h' l' ys b zs where
      IH: "Remove_loop h l f (Some a) (Some (fst (hd vs))) x = Inr (h', l')"
      "vs = ys @ (b, x) # zs" "x \<notin> snd ` set ys" "rep h' l' (us @ (p, y) # (a, z) # ys @ zs)"
      "frame_out h h' (fst ` set (us @ (p, y) # (a, z) # vs))" by auto
    have "Remove_loop h l fuel (Some p) (Some (fst (hd (v # vs)))) x = Inr (h', l')"
      using False v f n ne IH(1) by (simp add: deref_def)
    moreover have "v # vs = ((a, z) # ys) @ (b, x) # zs \<and> x \<notin> snd ` set ((a, z) # ys)"
      using IH(2,3) False v by simp
    moreover have "rep h' l' (us @ (p, y) # ((a, z) # ys) @ zs)" using IH(4) by simp
    ultimately show ?thesis using IH(5) v by blast
  qed
qed simp

lemma List_Remove_rep:
  assumes r: "rep h l axs" and x: "x \<in> snd ` set axs" and d: "distinct (map snd axs)"
  shows "\<exists>h' l' us a zs. List_Remove h l x = Inr (h', l') \<and> axs = us @ (a, x) # zs \<and>
     rep h' l' (us @ zs) \<and> frame_out h h' (fst ` set axs)"
proof -
  obtain p y vs where axs: "axs = (p, y) # vs" using x by (cases axs) auto
  from r axs obtain n where n: "first_ptr l = Some p"
    "cells h p = Some \<lparr>next_ptr = n, item_of = y\<rparr>" "chain h n vs None" by (auto simp: rep_def)
  note steps = List_Remove_def List_IsInList_eq [OF r] deref_def n x
  show ?thesis
  proof (cases "x = y")
    case True
    from List_RemoveFront_rep [of h l p y vs] r axs obtain l' where
      l': "List_RemoveFront h l = Inr (y, delete_ListElement h p, l')"
      "rep (delete_ListElement h p) l' vs" by auto
    have "List_Remove h l x = Inr (delete_ListElement h p, l')"
      using True d axs by (simp add: steps l' List_IsInList_eq [OF l'(2)])
    moreover have "frame_out h (delete_ListElement h p) (fst ` set axs)"
      by (simp add: frame_out_def delete_ListElement_def axs)
    ultimately show ?thesis using axs True l'(2) by (metis append_Nil)
  next
    case False
    with x axs have in_vs: "x \<in> snd ` set vs" by auto
    have ne: "n = Some (fst (hd vs))" using n(3) in_vs by (cases vs) auto
    have "length vs \<le> brk h" using rep_length [OF r] axs by simp
    with Remove_loop_rep [of h l "[]" p y vs x "brk h"] r axs in_vs
    obtain h' l' ys a zs where res: "Remove_loop h l (brk h) (Some p) n x = Inr (h', l')"
      "vs = ys @ (a, x) # zs" "rep h' l' ((p, y) # ys @ zs)"
      "frame_out h h' (fst ` set axs)" by (auto simp: ne)
    have "x \<notin> snd ` set ((p, y) # ys @ zs)" using d axs res(2) by auto
    then have "List_Remove h l x = Inr (h', l')"
      using False res(1) by (simp add: steps List_IsInList_eq [OF res(3)])
    moreover have "axs = ((p, y) # ys) @ (a, x) # zs" using axs res(2) by simp
    moreover have "rep h' l' (((p, y) # ys) @ zs)" using res(3) by simp
    ultimately show ?thesis using res(4) by blast
  qed
qed

lemma Apply_loop_eq:
  "chain h p axs None \<Longrightarrow> length axs \<le> fuel \<Longrightarrow> Apply_loop h fuel p = Inr (map snd axs)"
proof (induction axs arbitrary: p fuel)
  case (Cons ax axs)
  then show ?case by (cases ax; cases fuel) (auto simp: deref_def)
qed simp

lemma List_Apply_eq: "rep h l axs \<Longrightarrow> List_Apply h l = Inr (map snd axs)"
  using rep_length [of h l axs] by (simp add: List_Apply_def rep_def Apply_loop_eq)

lemma SanityCheck_loop_eq:
  "chain h p axs None \<Longrightarrow> axs \<noteq> [] \<Longrightarrow> distinct (map fst axs) \<Longrightarrow>
   last_ptr l = Some (fst (last axs)) \<Longrightarrow> n + int (length axs) - 1 \<le> numInList l \<Longrightarrow>
   SanityCheck_loop h l n p = Inr (n + int (length axs) - 1)"
proof (induction axs arbitrary: p n)
  case (Cons ax axs)
  obtain a x where ax: "ax = (a, x)" by (cases ax)
  show ?case
  proof (cases "axs = []")
    case True
    then show ?thesis using Cons.prems ax by (subst SanityCheck_loop.simps) auto
  next
    case False
    then have "a \<noteq> fst (last axs)" "1 \<le> int (length axs)"
      using Cons.prems(3) ax by (auto simp: Suc_le_eq)
    then show ?thesis
      using False Cons.prems ax Cons.IH [of _ "n + 1"]
      by (subst SanityCheck_loop.simps) (auto simp: deref_def)
  qed
qed simp

lemma rep_last_cell:
  "rep h l axs \<Longrightarrow> axs \<noteq> [] \<Longrightarrow> \<exists>x. deref h (last_ptr l) = Inr \<lparr>next_ptr = None, item_of = x\<rparr>"
  by (cases axs rule: rev_cases) (auto simp: rep_def chain_append deref_def)

lemma List_SanityCheck_ok:
  assumes r: "rep h l axs"
  shows "List_SanityCheck h l = Inr ()"
proof (cases axs)
  case Nil
  then show ?thesis using r by (simp add: rep_def List_SanityCheck_def)
next
  case (Cons ax axs')
  moreover obtain a x where "ax = (a, x)" by (cases ax)
  ultimately have axs: "axs = (a, x) # axs'" by simp
  obtain z where z: "deref h (last_ptr l) = Inr \<lparr>next_ptr = None, item_of = z\<rparr>"
    using rep_last_cell [OF r] axs by auto
  have loop: "SanityCheck_loop h l 1 (first_ptr l) = Inr (numInList l)"
    using SanityCheck_loop_eq [of h "first_ptr l" axs l 1] r axs by (simp add: rep_def)
  have "first_ptr l = last_ptr l \<longleftrightarrow> axs' = []" using rep_last_first [of h l a x axs'] r axs by simp
  moreover have "first_ptr l \<noteq> None" "axs' = [] \<Longrightarrow> numInList l = 1"
    using r axs by (auto simp: rep_def)
  ultimately show ?thesis by (auto simp: List_SanityCheck_def loop z)
qed

section \<open>Sorted insertion\<close>

lemma rep_link_mid:
  assumes r: "rep h l (us @ (p, y) # zs)" and zs: "zs \<noteq> []"
    and b: "b \<notin> fst ` set (us @ (p, y) # zs)" "b < brk h"
    and c: "cells h b = Some \<lparr>next_ptr = None, item_of = x\<rparr>"
  shows "\<exists>h1 h2. set_next h (Some b) (Some (fst (hd zs))) = Inr h1 \<and>
     set_next h1 (Some p) (Some b) = Inr h2 \<and>
     rep h2 (l\<lparr>numInList := numInList l + 1\<rparr>) (us @ (p, y) # (b, x) # zs) \<and>
     frame_out h h2 {p, b} \<and> brk h2 = brk h"
proof -
  from r obtain n where ch: "chain h (first_ptr l) us (Some p)"
    "cells h p = Some \<lparr>next_ptr = n, item_of = y\<rparr>" "chain h n zs None"
    by (auto simp: rep_def chain_append)
  have n: "n = Some (fst (hd zs))" using ch(3) zs by (cases zs) auto
  define h1 where "h1 = h\<lparr>cells := (cells h)(b \<mapsto> \<lparr>next_ptr = n, item_of = x\<rparr>)\<rparr>"
  define h2 where "h2 = h1\<lparr>cells := (cells h1)(p \<mapsto> \<lparr>next_ptr = Some b, item_of = y\<rparr>)\<rparr>"
  have pb: "p \<noteq> b" using b by auto
  have s1: "set_next h (Some b) n = Inr h1" using c by (simp add: set_next_eq h1_def)
  have s2: "set_next h1 (Some p) (Some b) = Inr h2"
    using ch(2) pb by (simp add: set_next_eq h1_def h2_def)
  have cells2: "\<And>c. c \<noteq> p \<Longrightarrow> c \<noteq> b \<Longrightarrow> cells h2 c = cells h c" "brk h2 = brk h"
    "cells h2 p = Some \<lparr>next_ptr = Some b, item_of = y\<rparr>"
    "cells h2 b = Some \<lparr>next_ptr = n, item_of = x\<rparr>"
    using pb by (simp_all add: h1_def h2_def)
  have "chain h2 (first_ptr l) us (Some p)"
    by (rule chain_cong [OF cells2(1) ch(1)]) (use r b in \<open>auto simp: rep_def\<close>)
  moreover have "chain h2 n zs None"
    by (rule chain_cong [OF cells2(1) ch(3)]) (use r b in \<open>auto simp: rep_def\<close>)
  ultimately have "rep h2 (l\<lparr>numInList := numInList l + 1\<rparr>) (us @ (p, y) # (b, x) # zs)"
    using r b zs cells2 by (auto simp: rep_def chain_append)
  moreover have "frame_out h h2 {p, b}" using cells2 by (auto simp: frame_out_def)
  ultimately show ?thesis using s1 s2 cells2(2) unfolding n by blast
qed

text \<open>Where the sorted list puts a new item: in front of the first larger one.\<close>

fun seq_Insert :: "('a \<Rightarrow> 'a \<Rightarrow> int) \<Rightarrow> 'a \<Rightarrow> 'a list \<Rightarrow> 'a list" where
  "seq_Insert compare x [] = [x]"
| "seq_Insert compare x (y # ys) =
     (if compare x y < 0 then x # y # ys else y # seq_Insert compare x ys)"

lemma set_seq_Insert [simp]: "set (seq_Insert cmp x xs) = insert x (set xs)"
  by (induction xs) auto

lemma length_seq_Insert [simp]: "length (seq_Insert cmp x xs) = Suc (length xs)"
  by (induction xs) auto

lemma distinct_seq_Insert [simp]:
  "distinct (seq_Insert cmp x xs) \<longleftrightarrow> x \<notin> set xs \<and> distinct xs"
  by (induction xs) auto

lemma seq_Insert_snoc:
  "(\<And>v. v \<in> set ys \<Longrightarrow> \<not> cmp x v < 0) \<Longrightarrow>
     seq_Insert cmp x (ys @ zs) = ys @ seq_Insert cmp x zs"
  by (induction ys) auto

text \<open>The loop either stops before a larger item and links the cell there, or runs off the end.\<close>

lemma Insert_loop_rep:
  "rep h l (us @ (p, y) # vs) \<Longrightarrow> b \<notin> fst ` set (us @ (p, y) # vs) \<Longrightarrow> b < brk h \<Longrightarrow>
   cells h b = Some \<lparr>next_ptr = None, item_of = x\<rparr> \<Longrightarrow> length vs < fuel \<Longrightarrow>
   (Insert_loop cmp h fuel (Some p) b x = Inr None \<and> (\<forall>v\<in>snd ` set vs. \<not> cmp x v < 0)) \<or>
   (\<exists>h' ys zs. Insert_loop cmp h fuel (Some p) b x = Inr (Some h') \<and> vs = ys @ zs \<and>
      rep h' (l\<lparr>numInList := numInList l + 1\<rparr>) (us @ (p, y) # ys @ (b, x) # zs) \<and>
      seq_Insert cmp x (map snd vs) = map snd ys @ x # map snd zs \<and>
      brk h' = brk h \<and> frame_out h h' (insert b (fst ` set (us @ (p, y) # vs))))"
proof (induction vs arbitrary: us p y fuel)
  case Nil
  then show ?case by (cases fuel) (auto simp: rep_def chain_append deref_def)
next
  case (Cons v vs)
  obtain a z where v: "v = (a, z)" by (cases v)
  from Cons.prems(5) obtain f where f: "fuel = Suc f" "length vs < f" by (cases fuel) auto
  from Cons.prems(1) v obtain n where n: "cells h p = Some \<lparr>next_ptr = Some a, item_of = y\<rparr>"
    "cells h a = Some \<lparr>next_ptr = n, item_of = z\<rparr>" by (auto simp: rep_def chain_append)
  show ?case
  proof (cases "cmp x z < 0")
    case True
    from rep_link_mid [of h l us p y "v # vs" b x] Cons.prems(1-4) v obtain h1 h2 where
      h12: "set_next h (Some b) (Some a) = Inr h1" "set_next h1 (Some p) (Some b) = Inr h2"
      "rep h2 (l\<lparr>numInList := numInList l + 1\<rparr>) (us @ (p, y) # [] @ (b, x) # v # vs)"
      "frame_out h h2 {p, b}" "brk h2 = brk h" by auto
    have "Insert_loop cmp h fuel (Some p) b x = Inr (Some h2)"
      using True f n h12(1,2) by (simp add: deref_def)
    moreover have "v # vs = [] @ (v # vs) \<and>
        seq_Insert cmp x (map snd (v # vs)) = map snd [] @ x # map snd (v # vs)"
      using True v by simp
    moreover have "frame_out h h2 (insert b (fst ` set (us @ (p, y) # v # vs)))"
      using h12(4) by (simp add: frame_out_def)
    ultimately show ?thesis using h12(3,5) by blast
  next
    case False
    then have step: "Insert_loop cmp h fuel (Some p) b x = Insert_loop cmp h f (Some a) b x"
      using f n by (simp add: deref_def)
    have "rep h l ((us @ [(p, y)]) @ (a, z) # vs)" "b \<notin> fst ` set ((us @ [(p, y)]) @ (a, z) # vs)"
      using Cons.prems(1,2) v by auto
    from Cons.IH [OF this Cons.prems(3,4) f(2)] show ?thesis
    proof (elim disjE exE conjE)
      fix h' ys zs
      assume IH: "Insert_loop cmp h f (Some a) b x = Inr (Some h')" "vs = ys @ zs"
        "rep h' (l\<lparr>numInList := numInList l + 1\<rparr>) ((us @ [(p, y)]) @ (a, z) # ys @ (b, x) # zs)"
        "seq_Insert cmp x (map snd vs) = map snd ys @ x # map snd zs" "brk h' = brk h"
        "frame_out h h' (insert b (fst ` set ((us @ [(p, y)]) @ (a, z) # vs)))"
      show ?thesis
        by (rule disjI2, rule exI [of _ h'], rule exI [of _ "v # ys"], rule exI [of _ zs])
          (use IH False v step in \<open>auto simp: insert_commute\<close>)
    qed (use False v step in auto)
  qed
qed

lemma SortedList_Insert_behind:
  assumes r: "rep h l axs" and x: "x \<notin> snd ` set axs"
    and axs: "axs = (p, y) # vs" and False: "\<not> cmp x y < 0"
  shows "\<exists>h' l' axs'. SortedList_Insert cmp h l x = Inr (h', l') \<and> rep h' l' axs' \<and>
     map snd axs' = seq_Insert cmp x (map snd axs) \<and>
     fst ` set axs' = insert (brk h) (fst ` set axs) \<and>
     frame_out h h' (insert (brk h) (fst ` set axs))"
proof -
  obtain h1 where new: "rep h1 l axs" "new_ListElement h x = (brk h, h1)"
    "brk h1 = Suc (brk h)" "cells h1 = (cells h)(brk h \<mapsto> \<lparr>next_ptr = None, item_of = x\<rparr>)"
    "brk h \<notin> fst ` set axs"
    using rep_new [OF r, of x] by blast
  have b: "brk h < brk h1" "cells h1 (brk h) = Some \<lparr>next_ptr = None, item_of = x\<rparr>"
    using new by simp_all
  have frame: "\<And>h2 A. frame_out h1 h2 A \<Longrightarrow> brk h \<in> A \<Longrightarrow> frame_out h h2 A"
    using new(3,4) by (auto simp: frame_out_def)
  note steps = SortedList_Insert_def new(2) Let_def List_IsInList_eq [OF new(1)] rep_IsEmpty [OF r] x
  have first: "first_ptr l = Some p" "deref h1 (Some p) = Inr \<lparr>next_ptr = next_ptr (the (cells h1 p)), item_of = y\<rparr>"
    using new(1) axs by (auto simp: rep_def deref_def)
  have "length vs < brk h1" using rep_length [OF r] axs new(3) by simp
  moreover have "rep h1 l ([] @ (p, y) # vs)" "brk h \<notin> fst ` set ([] @ (p, y) # vs)"
    using new axs by auto
  ultimately have "(Insert_loop cmp h1 (brk h1) (Some p) (brk h) x = Inr None \<and>
        (\<forall>v\<in>snd ` set vs. \<not> cmp x v < 0)) \<or>
      (\<exists>h' ys zs. Insert_loop cmp h1 (brk h1) (Some p) (brk h) x = Inr (Some h') \<and> vs = ys @ zs \<and>
        rep h' (l\<lparr>numInList := numInList l + 1\<rparr>) ([] @ (p, y) # ys @ (brk h, x) # zs) \<and>
        seq_Insert cmp x (map snd vs) = map snd ys @ x # map snd zs \<and>
        brk h' = brk h1 \<and> frame_out h1 h' (insert (brk h) (fst ` set ([] @ (p, y) # vs))))"
    using b by (intro Insert_loop_rep)
  then show ?thesis
  proof (elim disjE exE conjE)
    assume none: "Insert_loop cmp h1 (brk h1) (Some p) (brk h) x = Inr None"
      "\<forall>v\<in>snd ` set vs. \<not> cmp x v < 0"
    obtain us a z where snoc: "axs = us @ [(a, z)]"
          using axs by (metis list.distinct(1) rev_exhaust surj_pair)
    obtain h2 where h2: "set_next h1 (last_ptr l) (Some (brk h)) = Inr h2" "brk h2 = brk h1"
      "\<forall>c. c \<noteq> a \<longrightarrow> cells h2 c = cells h1 c"
      "rep h2 (l\<lparr>last_ptr := Some (brk h), numInList := numInList l + 1\<rparr>) (us @ [(a, z), (brk h, x)])"
      using rep_link_last [of h1 l us a z "brk h" x] new b snoc by auto
    have "SortedList_Insert cmp h l x = Inr (h2, l\<lparr>last_ptr := Some (brk h), numInList := numInList l + 1\<rparr>)"
      using False axs first h2(1) none(1) x by (simp add: steps List_IsInList_eq [OF h2(4)])
    moreover have "seq_Insert cmp x (map snd axs @ []) = map snd axs @ [x]"
      using none(2) False axs by (subst seq_Insert_snoc) auto
    moreover have "frame_out h h2 (insert (brk h) (fst ` set axs))"
      using h2(2,3) snoc by (intro frame) (auto simp: frame_out_def)
    ultimately show ?thesis using h2(4) snoc by (intro exI conjI) auto
  next
    fix h' ys zs
    assume some: "Insert_loop cmp h1 (brk h1) (Some p) (brk h) x = Inr (Some h')" "vs = ys @ zs"
      "rep h' (l\<lparr>numInList := numInList l + 1\<rparr>) ([] @ (p, y) # ys @ (brk h, x) # zs)"
      "seq_Insert cmp x (map snd vs) = map snd ys @ x # map snd zs"
      "frame_out h1 h' (insert (brk h) (fst ` set ([] @ (p, y) # vs)))"
    have "SortedList_Insert cmp h l x = Inr (h', l\<lparr>numInList := numInList l + 1\<rparr>)"
      using False axs first some(1) x by (simp add: steps)
    moreover have "frame_out h h' (insert (brk h) (fst ` set axs))"
      using some(5) axs by (intro frame) auto
    ultimately show ?thesis using some(2-4) False axs by (intro exI conjI) auto
  qed
qed

lemma SortedList_Insert_rep:
  assumes r: "rep h l axs" and x: "x \<notin> snd ` set axs"
  shows "\<exists>h' l' axs'. SortedList_Insert cmp h l x = Inr (h', l') \<and> rep h' l' axs' \<and>
     map snd axs' = seq_Insert cmp x (map snd axs) \<and>
     fst ` set axs' = insert (brk h) (fst ` set axs) \<and>
     frame_out h h' (insert (brk h) (fst ` set axs))"
proof -
  obtain h1 where new: "rep h1 l axs" "new_ListElement h x = (brk h, h1)"
    "brk h1 = Suc (brk h)" "cells h1 = (cells h)(brk h \<mapsto> \<lparr>next_ptr = None, item_of = x\<rparr>)"
    "brk h \<notin> fst ` set axs"
    using rep_new [OF r, of x] by blast
  have b: "brk h < brk h1" "cells h1 (brk h) = Some \<lparr>next_ptr = None, item_of = x\<rparr>"
    using new by simp_all
  have frame: "\<And>h2 A. frame_out h1 h2 A \<Longrightarrow> brk h \<in> A \<Longrightarrow> frame_out h h2 A"
    using new(3,4) by (auto simp: frame_out_def)
  note steps = SortedList_Insert_def new(2) Let_def List_IsInList_eq [OF new(1)] rep_IsEmpty [OF r] x
  show ?thesis
  proof (cases axs)
    case Nil
    have r1: "rep h1 (l\<lparr>first_ptr := Some (brk h), last_ptr := Some (brk h),
        numInList := numInList l + 1\<rparr>) [(brk h, x)]"
      using new(1) b Nil by (intro rep_singleton) auto
    have "frame_out h h1 {brk h}" using new(3,4) by (simp add: frame_out_def)
    moreover have "SortedList_Insert cmp h l x = Inr (h1, l\<lparr>first_ptr := Some (brk h),
        last_ptr := Some (brk h), numInList := numInList l + 1\<rparr>)"
      using Nil by (simp add: steps List_IsInList_eq [OF r1])
    ultimately show ?thesis using r1 Nil by (intro exI conjI) auto
  next
    case (Cons ax vs)
    then obtain p y where axs: "axs = (p, y) # vs" by (cases ax) auto
    then have first: "first_ptr l = Some p" "deref h1 (Some p) = Inr \<lparr>next_ptr = next_ptr (the (cells h1 p)), item_of = y\<rparr>"
      using new(1) by (auto simp: rep_def deref_def)
    show ?thesis
    proof (cases "cmp x y < 0")
      case True
      obtain h2 where h2: "set_next h1 (Some (brk h)) (Some p) = Inr h2" "brk h2 = brk h1"
        "\<forall>c. c \<noteq> brk h \<longrightarrow> cells h2 c = cells h1 c"
        "rep h2 (l\<lparr>first_ptr := Some (brk h), numInList := numInList l + 1\<rparr>) ((brk h, x) # axs)"
        using rep_link_first [OF new(1) _ new(5) b] axs first(1) by auto
      have "SortedList_Insert cmp h l x = Inr (h2, l\<lparr>first_ptr := Some (brk h), numInList := numInList l + 1\<rparr>)"
        using True axs first h2(1) x by (simp add: steps List_IsInList_eq [OF h2(4)])
      moreover have "frame_out h h2 (insert (brk h) (fst ` set axs))"
        using h2(2,3) by (intro frame) (auto simp: frame_out_def)
      ultimately show ?thesis using h2(4) True axs by (intro exI conjI) auto
    next
      case False
      then show ?thesis by (rule SortedList_Insert_behind [OF r x axs])
    qed
  qed
qed

section \<open>The contract of the lists\<close>

text \<open>The operations on the represented sequence; the items of a list are distinct.\<close>

definition seq_Append :: "'a list \<Rightarrow> 'a \<Rightarrow> 'a list res" where
  "seq_Append xs x = (if x \<in> set xs then Inl AssertFailed else Inr (xs @ [x]))"

definition seq_Prepend :: "'a list \<Rightarrow> 'a \<Rightarrow> 'a list res" where
  "seq_Prepend xs x = (if x \<in> set xs then Inl AssertFailed else Inr (x # xs))"

definition seq_RemoveFront :: "'a list \<Rightarrow> ('a \<times> 'a list) res" where
  "seq_RemoveFront xs = (case xs of [] \<Rightarrow> Inl AssertFailed | x # xs \<Rightarrow> Inr (x, xs))"

definition seq_Remove :: "'a list \<Rightarrow> 'a \<Rightarrow> 'a list res" where
  "seq_Remove xs x = (if x \<in> set xs then Inr (remove1 x xs) else Inl AssertFailed)"

definition seq_SortedInsert :: "('a \<Rightarrow> 'a \<Rightarrow> int) \<Rightarrow> 'a list \<Rightarrow> 'a \<Rightarrow> 'a list res" where
  "seq_SortedInsert cmp xs x = (if x \<in> set xs then Inl AssertFailed else Inr (seq_Insert cmp x xs))"

lemmas seq_op_defs = seq_Append_def seq_Prepend_def seq_RemoveFront_def seq_Remove_def
  seq_SortedInsert_def

text \<open>
  A list object with the cells \<open>A\<close> holds the distinct items \<open>xs\<close>; an operation
  implements its sequence-level counterpart when it fails in the same way and
  otherwise leaves a list object for the new sequence, built from the old cells and
  at most one new one, and touches no other cell.
\<close>

definition holds :: "'a Heap \<Rightarrow> CList \<Rightarrow> addr set \<Rightarrow> 'a list \<Rightarrow> bool" where
  "holds h l A xs \<longleftrightarrow> distinct xs \<and> (\<exists>axs. rep h l axs \<and> map snd axs = xs \<and> fst ` set axs = A)"

definition implements :: "'a Heap \<Rightarrow> addr set \<Rightarrow> ('a Heap \<times> CList) res \<Rightarrow> 'a list res \<Rightarrow> bool" where
  "implements h A m sq = (case sq of
     Inl f \<Rightarrow> m = Inl f
   | Inr xs' \<Rightarrow> (\<exists>h' l' A'. m = Inr (h', l') \<and> holds h' l' A' xs' \<and> A' \<subseteq> insert (brk h) A \<and>
       frame_out h h' (insert (brk h) A)))"

lemma holds_new: "holds h List_new {} []"
  using List_new_rep [of h] by (simp add: holds_def)

lemma holds_frame: "holds h l A xs \<Longrightarrow> frame_out h h' B \<Longrightarrow> A \<inter> B = {} \<Longrightarrow> holds h' l A xs"
  unfolding holds_def using rep_frame by blast

lemma holds_IsInList: "holds h l A xs \<Longrightarrow> List_IsInList h l x = Inr (x \<in> set xs)"
  unfolding holds_def by (auto simp: List_IsInList_eq)

lemma holds_IsEmpty: "holds h l A xs \<Longrightarrow> List_IsEmpty l \<longleftrightarrow> xs = []"
  unfolding holds_def by (auto simp: rep_IsEmpty)

lemma holds_SanityCheck: "holds h l A xs \<Longrightarrow> List_SanityCheck h l = Inr ()"
  unfolding holds_def by (auto simp: List_SanityCheck_ok)

lemma holds_Apply: "holds h l A xs \<Longrightarrow> List_Apply h l = Inr xs"
  unfolding holds_def by (auto simp: List_Apply_eq)

lemma implements_present:
  "rep h l axs \<Longrightarrow> x \<in> snd ` set axs \<Longrightarrow>
     List_Append h l x = Inl AssertFailed \<and> List_Prepend h l x = Inl AssertFailed \<and>
     SortedList_Insert cmp h l x = Inl AssertFailed"
proof -
  assume "rep h l axs" and x: "x \<in> snd ` set axs"
  then obtain h1 where h1: "new_ListElement h x = (brk h, h1)" "rep h1 l axs"
    using rep_new [of h l axs x] by blast
  then show ?thesis using x
    by (simp add: List_Append_def List_Prepend_def SortedList_Insert_def Let_def
        List_IsInList_eq [OF h1(2)])
qed

lemma holdsE:
  assumes "holds h l A xs"
  obtains axs where "rep h l axs" "xs = map snd axs" "A = fst ` set axs" "distinct (map snd axs)"
  using assms unfolding holds_def by auto

lemma implementsI:
  "m = Inr (h', l') \<Longrightarrow> rep h' l' axs' \<Longrightarrow> xs' = map snd axs' \<Longrightarrow> distinct xs' \<Longrightarrow>
   fst ` set axs' \<subseteq> insert (brk h) A \<Longrightarrow> frame_out h h' (insert (brk h) A) \<Longrightarrow>
   implements h A m (Inr xs')"
  by (auto simp: implements_def holds_def)

lemma Append_implements: "holds h l A xs \<Longrightarrow> implements h A (List_Append h l x) (seq_Append xs x)"
proof (erule holdsE)
  fix axs
  assume a: "rep h l axs" "xs = map snd axs" "A = fst ` set axs" "distinct (map snd axs)"
  show ?thesis
  proof (cases "x \<in> snd ` set axs")
    case True
    then show ?thesis using a implements_present [OF a(1) True] by (simp add: implements_def seq_Append_def)
  next
    case False
    from List_Append_rep [OF a(1) False] obtain h' l' where
      "List_Append h l x = Inr (h', l')" "rep h' l' (axs @ [(brk h, x)])"
      "frame_out h h' (insert (brk h) A)" unfolding a(3) by blast
    then have "implements h A (List_Append h l x) (Inr (xs @ [x]))"
      by (intro implementsI) (use a False in auto)
    then show ?thesis using a False by (simp add: seq_Append_def)
  qed
qed

lemma Prepend_implements: "holds h l A xs \<Longrightarrow> implements h A (List_Prepend h l x) (seq_Prepend xs x)"
proof (erule holdsE)
  fix axs
  assume a: "rep h l axs" "xs = map snd axs" "A = fst ` set axs" "distinct (map snd axs)"
  show ?thesis
  proof (cases "x \<in> snd ` set axs")
    case True
    then show ?thesis using a implements_present [OF a(1) True] by (simp add: implements_def seq_Prepend_def)
  next
    case False
    from List_Prepend_rep [OF a(1) False] obtain h' l' where
      "List_Prepend h l x = Inr (h', l')" "rep h' l' ((brk h, x) # axs)"
      "frame_out h h' (insert (brk h) A)" unfolding a(3) by blast
    then have "implements h A (List_Prepend h l x) (Inr (x # xs))"
      by (intro implementsI) (use a False in auto)
    then show ?thesis using a False by (simp add: seq_Prepend_def)
  qed
qed

lemma Insert_implements:
  "holds h l A xs \<Longrightarrow> implements h A (SortedList_Insert cmp h l x) (seq_SortedInsert cmp xs x)"
proof (erule holdsE)
  fix axs
  assume a: "rep h l axs" "xs = map snd axs" "A = fst ` set axs" "distinct (map snd axs)"
  show ?thesis
  proof (cases "x \<in> snd ` set axs")
    case True
    then show ?thesis using a implements_present [OF a(1) True]
      by (simp add: implements_def seq_SortedInsert_def)
  next
    case False
    from SortedList_Insert_rep [OF a(1) False, of cmp] obtain h' l' axs' where
      "SortedList_Insert cmp h l x = Inr (h', l')" "rep h' l' axs'"
      "map snd axs' = seq_Insert cmp x xs" "fst ` set axs' = insert (brk h) A"
      "frame_out h h' (insert (brk h) A)" unfolding a(2,3) by blast
    then have "implements h A (SortedList_Insert cmp h l x) (Inr (seq_Insert cmp x xs))"
      by (intro implementsI) (use a False in auto)
    then show ?thesis using a False by (simp add: seq_SortedInsert_def)
  qed
qed

lemma Remove_implements: "holds h l A xs \<Longrightarrow> implements h A (List_Remove h l x) (seq_Remove xs x)"
proof (erule holdsE)
  fix axs
  assume a: "rep h l axs" "xs = map snd axs" "A = fst ` set axs" "distinct (map snd axs)"
  show ?thesis
  proof (cases "x \<in> snd ` set axs")
    case True
    from List_Remove_rep [OF a(1) True a(4)] obtain h' l' us b zs where
      rm: "List_Remove h l x = Inr (h', l')" "axs = us @ (b, x) # zs" "rep h' l' (us @ zs)"
      "frame_out h h' A" unfolding a(3) by blast
    have "remove1 x xs = map snd (us @ zs)" using a(2,4) rm(2) by (auto simp: remove1_append)
    moreover have "distinct (remove1 x xs)" using a(2,4) by simp
    moreover have "frame_out h h' (insert (brk h) A)" using rm(4) by (simp add: frame_out_def)
    ultimately have "implements h A (List_Remove h l x) (Inr (remove1 x xs))"
      by (intro implementsI [OF rm(1,3)]) (use a rm(2) in auto)
    then show ?thesis using a True by (simp add: seq_Remove_def)
  next
    case False
    then show ?thesis using a
      by (auto simp: implements_def seq_Remove_def List_Remove_def List_IsInList_eq)
  qed
qed

lemma RemoveFront_implements:
  assumes "holds h l A xs"
  shows "List_RemoveFront h l = Inl AssertFailed \<and> xs = [] \<or>
    (\<exists>x xs' h' l' A'. List_RemoveFront h l = Inr (x, h', l') \<and> seq_RemoveFront xs = Inr (x, xs') \<and>
       holds h' l' A' xs' \<and> A' \<subseteq> A \<and> frame_out h h' A)"
proof (rule holdsE [OF assms])
  fix axs
  assume a: "rep h l axs" "xs = map snd axs" "A = fst ` set axs" "distinct (map snd axs)"
  show ?thesis
  proof (cases axs)
    case Nil
    then show ?thesis using a by (simp add: List_RemoveFront_def rep_IsEmpty)
  next
    case (Cons bx axs')
    then obtain b x where axs: "axs = (b, x) # axs'" by (cases bx) auto
    from List_RemoveFront_rep [of h l b x axs'] a(1) axs obtain l' where
      l': "List_RemoveFront h l = Inr (x, delete_ListElement h b, l')"
      "rep (delete_ListElement h b) l' axs'" by blast
    have "holds (delete_ListElement h b) l' (fst ` set axs') (map snd axs')"
      using l'(2) a(4) axs by (auto simp: holds_def)
    moreover have "frame_out h (delete_ListElement h b) A" "fst ` set axs' \<subseteq> A"
      "seq_RemoveFront xs = Inr (x, map snd axs')"
      using a axs by (auto simp: frame_out_def delete_ListElement_def seq_RemoveFront_def)
    ultimately show ?thesis using l'(1) by blast
  qed
qed

section \<open>The self tests, for any list with a membership-preserving insertion\<close>

locale checked_list =
  fixes add :: "'a Heap \<Rightarrow> CList \<Rightarrow> 'a \<Rightarrow> ('a Heap \<times> CList) res"
    and sanity :: "'a Heap \<Rightarrow> CList \<Rightarrow> unit res"
    and inv :: "'a list \<Rightarrow> bool"
  assumes inv_Nil: "inv []"
    and add_law: "holds h l A xs \<Longrightarrow> inv xs \<Longrightarrow> x \<notin> set xs \<Longrightarrow>
      \<exists>h' l' A' xs'. add h l x = Inr (h', l') \<and> holds h' l' A' xs' \<and> inv xs' \<and>
        set xs' = insert x (set xs)"
    and inv_remove: "inv xs \<Longrightarrow> inv (remove1 x xs)"
    and sanity_law: "holds h l A xs \<Longrightarrow> inv xs \<Longrightarrow> sanity h l = Inr ()"
begin

definition good :: "'a set \<Rightarrow> 'a Heap \<times> CList \<Rightarrow> bool" where
  "good X s \<longleftrightarrow> (\<exists>A xs. holds (fst s) (snd s) A xs \<and> inv xs \<and> set xs = X)"

lemma put_good: "good X s \<Longrightarrow> x \<notin> X \<Longrightarrow> \<exists>s'. SelfTest_put add x s = Inr s' \<and> good (insert x X) s'"
proof -
  assume "good X s" and x: "x \<notin> X"
  then obtain A xs where s: "holds (fst s) (snd s) A xs" "inv xs" "set xs = X"
    by (auto simp: good_def)
  with x add_law [OF s(1,2), of x] obtain h' l' A' xs' where
    a: "add (fst s) (snd s) x = Inr (h', l')" "holds h' l' A' xs'" "inv xs'" "set xs' = insert x X"
    by auto
  then have "SelfTest_put add x s = Inr (h', l')"
    by (cases s) (auto simp: SelfTest_put_def holds_IsInList [OF a(2)] holds_IsEmpty [OF a(2)])
  moreover have "good (insert x X) (h', l')" using a by (auto simp: good_def)
  ultimately show ?thesis by blast
qed

lemma get_good: "good X s \<Longrightarrow> x \<in> X \<Longrightarrow> \<exists>s'. SelfTest_get x s = Inr s' \<and> good (X - {x}) s'"
proof -
  assume "good X s" and x: "x \<in> X"
  then obtain A xs where s: "holds (fst s) (snd s) A xs" "inv xs" "set xs = X"
    by (auto simp: good_def)
  have "seq_Remove xs x = Inr (remove1 x xs)" using s(3) x by (simp add: seq_Remove_def)
  with Remove_implements [OF s(1), of x] obtain h' l' A' where
    r: "List_Remove (fst s) (snd s) x = Inr (h', l')" "holds h' l' A' (remove1 x xs)"
    unfolding implements_def by auto
  have set: "set (remove1 x xs) = X - {x}" using s by (simp add: holds_def)
  then have "SelfTest_get x s = Inr (h', l')"
    using r by (cases s) (auto simp: SelfTest_get_def holds_IsInList [OF r(2)])
  moreover have "good (X - {x}) (h', l')" using r(2) set inv_remove [OF s(2)] by (auto simp: good_def)
  ultimately show ?thesis by blast
qed

lemma put_all: "good {} s \<Longrightarrow> distinct p \<Longrightarrow> \<exists>s'. foldR (SelfTest_put add) p s = Inr s' \<and> good (set p) s'"
proof (rule foldR_invariant [of "\<lambda>done. good (set done)"])
  fix d x rest t
  assume "distinct p" "p = d @ x # rest" "good (set d) t"
  then show "\<exists>t'. SelfTest_put add x t = Inr t' \<and> good (set (d @ [x])) t'"
    using put_good [of "set d" t x] by simp
qed simp

lemma get_all: "good (set p) s \<Longrightarrow> distinct p \<Longrightarrow> \<exists>s'. foldR SelfTest_get p s = Inr s' \<and> good {} s'"
proof -
  assume "good (set p) s" "distinct p"
  then have "\<exists>s'. foldR SelfTest_get p s = Inr s' \<and> good (set p - set p) s'"
  proof (intro foldR_invariant [of "\<lambda>done. good (set p - set done)"])
    fix d x rest t
    assume p: "p = d @ x # rest" and t: "good (set p - set d) t"
    have "x \<in> set p - set d" using p \<open>distinct p\<close> by auto
    moreover have "set p - set (d @ [x]) = set p - set d - {x}" by auto
    ultimately show "\<exists>t'. SelfTest_get x t = Inr t' \<and> good (set p - set (d @ [x])) t'"
      using get_good [OF t] by metis
  qed simp
  then show ?thesis by simp
qed

lemma good_sanity: "good X s \<Longrightarrow> sanity (fst s) (snd s) = Inr () \<and> (List_IsEmpty (snd s) \<longleftrightarrow> X = {})"
  by (auto simp: good_def sanity_law holds_IsEmpty)

lemma SelfTest_passes:
  assumes "good {} (h, l)" and "first_ptr l = None" and "distinct p"
  shows "\<exists>s'. List_SelfTest_with add sanity h l p = Inr s' \<and> good {} s'"
proof -
  obtain s1 where 1: "foldR (SelfTest_put add) p (h, l) = Inr s1" "good (set p) s1"
    using put_all [OF assms(1,3)] by blast
  obtain s2 where 2: "foldR SelfTest_get p s1 = Inr s2" "good {} s2"
    using get_all [OF 1(2) assms(3)] by blast
  have "List_SelfTest_with add sanity h l p = Inr s2"
    using good_sanity [OF assms(1)] good_sanity [OF 1(2)] good_sanity [OF 2(2)] assms(2) 1(1) 2(1)
    by (cases s1; cases s2) (simp add: List_SelfTest_with_def cong: bindR_weak_cong)
  with 2(2) show ?thesis by blast
qed

end

interpretation ul: checked_list List_Append List_SanityCheck "\<lambda>_. True"
proof unfold_locales
  fix h :: "'a Heap" and l A xs x
  assume "holds h l A xs" "x \<notin> set xs"
  with Append_implements [of h l A xs x] obtain h' l' A' where
    "List_Append h l x = Inr (h', l')" "holds h' l' A' (xs @ [x])"
    unfolding implements_def seq_Append_def by (simp only: if_False sum.case) blast
  then show "\<exists>h' l' A' xs'. List_Append h l x = Inr (h', l') \<and> holds h' l' A' xs' \<and> True \<and>
      set xs' = insert x (set xs)" by (intro exI conjI) auto
qed (use holds_SanityCheck in blast)+

section \<open>Comparison functions and sorted lists\<close>

text \<open>What a sorted list needs of the function pointer \<open>compare\<close> it is constructed with.\<close>

locale comparator =
  fixes cmp :: "'a \<Rightarrow> 'a \<Rightarrow> int"
  assumes cmp_total: "\<not> cmp x y < 0 \<Longrightarrow> cmp y x \<le> 0"
    and cmp_trans: "cmp x y \<le> 0 \<Longrightarrow> cmp y z \<le> 0 \<Longrightarrow> cmp x z \<le> 0"
begin

abbreviation in_order :: "'a list \<Rightarrow> bool" where
  "in_order \<equiv> sorted_wrt (\<lambda>x y. cmp x y \<le> 0)"

lemma in_order_Insert: "in_order xs \<Longrightarrow> in_order (seq_Insert cmp x xs)"
proof (induction xs)
  case (Cons y ys)
  then show ?case
    using cmp_trans [of x y] cmp_total [of x y] by (auto simp: less_imp_le)
qed simp

lemma in_order_remove1: "in_order xs \<Longrightarrow> in_order (remove1 x xs)"
  by (induction xs) (auto dest!: set_remove1_subset [THEN subsetD])

lemma in_order_adjacent: "in_order xs \<Longrightarrow> adjacent_sorted cmp xs"
  by (induction cmp xs rule: adjacent_sorted.induct) auto

lemma SortedCheck_loop_ok:
  "chain h p axs None \<Longrightarrow> in_order (y # map snd axs) \<Longrightarrow> length axs \<le> fuel \<Longrightarrow>
     SortedCheck_loop cmp h fuel y p = Inr ()"
proof (induction axs arbitrary: p y fuel)
  case (Cons ax axs)
  then show ?case by (cases ax; cases fuel) (auto simp: deref_def)
qed simp

lemma SortedList_SanityCheck_ok:
  assumes "holds h l A xs" and "in_order xs"
  shows "SortedList_SanityCheck cmp h l = Inr ()"
proof (rule holdsE [OF assms(1)])
  fix axs
  assume a: "rep h l axs" "xs = map snd axs"
  show ?thesis
  proof (cases axs)
    case Nil
    then have "first_ptr l = last_ptr l" using a by (simp add: rep_def)
    then show ?thesis by (simp add: SortedList_SanityCheck_def List_SanityCheck_ok [OF a(1)])
  next
    case (Cons ax vs)
    then obtain b x where axs: "axs = (b, x) # vs" by (cases ax) auto
    then obtain n where n: "deref h (first_ptr l) = Inr \<lparr>next_ptr = n, item_of = x\<rparr>"
      "chain h n vs None" using a by (auto simp: rep_def deref_def)
    have "length vs \<le> brk h" using rep_length [OF a(1)] axs by simp
    then have "SortedCheck_loop cmp h (brk h) x n = Inr ()"
      using SortedCheck_loop_ok [OF n(2)] assms(2) a(2) axs by simp
    then show ?thesis
      by (simp add: SortedList_SanityCheck_def List_SanityCheck_ok [OF a(1)] n(1))
  qed
qed

end

sublocale comparator \<subseteq> sl: checked_list "SortedList_Insert cmp" "SortedList_SanityCheck cmp" in_order
proof unfold_locales
  fix h :: "'a Heap" and l A xs x
  assume h: "holds h l A xs" "in_order xs" "x \<notin> set xs"
  then have "seq_SortedInsert cmp xs x = Inr (seq_Insert cmp x xs)" by (simp add: seq_SortedInsert_def)
  with Insert_implements [OF h(1), of cmp x] obtain h' l' A' where
    "SortedList_Insert cmp h l x = Inr (h', l')" "holds h' l' A' (seq_Insert cmp x xs)"
    unfolding implements_def by auto
  with in_order_Insert [OF h(2)]
  show "\<exists>h' l' A' xs'. SortedList_Insert cmp h l x = Inr (h', l') \<and> holds h' l' A' xs' \<and>
      in_order xs' \<and> set xs' = insert x (set xs)" by (intro exI conjI) auto
qed (use in_order_remove1 SortedList_SanityCheck_ok in auto)

context comparator
begin

lemma SortedTest_put_eq:
  "SelfTest_put (SortedList_Insert cmp) x s = Inr s' \<Longrightarrow> SortedTest_put cmp x s = Inr s'"
  unfolding SelfTest_put_def SortedTest_put_def
  by (cases s) (simp only: split_beta bindR_eq_Inr ASSERT_eq_Inr prod.case, blast)

lemma SortedTest_put_all:
  assumes "sl.good {} s" "distinct p"
  shows "\<exists>s'. foldR (SortedTest_put cmp) p s = Inr s' \<and> sl.good (set p) s'"
proof (rule foldR_invariant [of "\<lambda>done. sl.good (set done)"])
  fix d x rest t
  assume "p = d @ x # rest" and t: "sl.good (set d) t"
  then have "x \<notin> set d" using assms(2) by simp
  with sl.put_good [OF t] obtain t' where
    "SelfTest_put (SortedList_Insert cmp) x t = Inr t'" "sl.good (insert x (set d)) t'" by blast
  then show "\<exists>t'. SortedTest_put cmp x t = Inr t' \<and> sl.good (set (d @ [x])) t'"
    by (intro exI [of _ t']) (simp add: SortedTest_put_eq)
qed (use assms in simp)

definition drained :: "nat \<Rightarrow> nat \<Rightarrow> 'a list \<times> 'a Heap \<times> CList \<Rightarrow> bool" where
  "drained n k = (\<lambda>(q, h, l). \<exists>A ys. holds h l A ys \<and> in_order (q @ ys) \<and> distinct (q @ ys) \<and>
     length q = k \<and> length (q @ ys) = n)"

lemma SortedTest_get_step:
  assumes "drained n k s" "k < n"
  shows "\<exists>s'. SortedTest_get x s = Inr s' \<and> drained n (Suc k) s'"
proof -
  obtain q h l A ys where s: "s = (q, h, l)" "holds h l A ys" "in_order (q @ ys)" "distinct (q @ ys)"
    "length q = k" "length (q @ ys) = n" using assms(1) by (auto simp: drained_def)
  with assms(2) RemoveFront_implements [OF s(2)] obtain y ys' h' l' A' where
    r: "List_RemoveFront h l = Inr (y, h', l')" "seq_RemoveFront ys = Inr (y, ys')" "holds h' l' A' ys'"
    by auto
  then have ys: "ys = y # ys'" by (auto simp: seq_RemoveFront_def split: list.splits)
  have "SortedTest_get x s = Inr (q @ [y], h', l')"
    using s(1,4) ys r(1) by (simp add: SortedTest_get_def holds_IsInList [OF r(3)])
  moreover have "drained n (Suc k) (q @ [y], h', l')"
    unfolding drained_def using r(3) s ys by auto
  ultimately show ?thesis by blast
qed

lemma SortedTest_get_all:
  assumes "sl.good (set p) s" "distinct p"
  shows "\<exists>s'. foldR SortedTest_get p ([], s) = Inr s' \<and> drained (length p) (length p) s'"
proof (rule foldR_invariant [of "\<lambda>done. drained (length p) (length done)"])
  obtain A xs where xs: "holds (fst s) (snd s) A xs" "in_order xs" "set xs = set p"
    using assms(1) by (auto simp: sl.good_def)
  have "distinct xs" using xs(1) by (simp add: holds_def)
  moreover from this have "length xs = length p" using xs(3) assms(2) by (metis distinct_card)
  ultimately show "drained (length p) (length []) ([], s)"
    using xs unfolding drained_def by (cases s) auto
next
  fix d x rest t
  assume "p = d @ x # rest" "drained (length p) (length d) t"
  then show "\<exists>t'. SortedTest_get x t = Inr t' \<and> drained (length p) (length (d @ [x])) t'"
    using SortedTest_get_step [of "length p" "length d" t x] by simp
qed

lemma SortedList_SelfTest_ok:
  assumes "sl.good {} (h, l)" "first_ptr l = None" "distinct p"
  shows "\<exists>h' l' A'. SortedList_SelfTest cmp h l p = Inr (h', l') \<and> holds h' l' A' []"
proof -
  obtain s1 where s1: "List_SelfTest_with (SortedList_Insert cmp) (SortedList_SanityCheck cmp) h l p = Inr s1"
    "sl.good {} s1" using sl.SelfTest_passes [OF assms] by blast
  obtain s2 where s2: "foldR (SortedTest_put cmp) p s1 = Inr s2" "sl.good (set p) s2"
    using SortedTest_put_all [OF s1(2) assms(3)] by blast
  obtain s3 where s3: "foldR SortedTest_get p ([], s2) = Inr s3" "drained (length p) (length p) s3"
    using SortedTest_get_all [OF s2(2) assms(3)] by blast
  obtain q h3 l3 A3 where q: "s3 = (q, h3, l3)" "holds h3 l3 A3 []" "in_order q"
    using s3(2) by (auto simp: drained_def)
  have "SortedList_SelfTest cmp h l p = Inr (h3, l3)"
    using s1(1) s2(1) s3(1) sl.good_sanity [OF s2(2)] in_order_adjacent [OF q(3)]
      holds_IsEmpty [OF q(2)] SortedList_SanityCheck_ok [OF q(2)]
    by (cases s1; cases s2) (simp add: SortedList_SelfTest_def q(1) cong: bindR_weak_cong)
  with q(2) show ?thesis by blast
qed

end

subsection \<open>The list tests of lib/libtest.cc\<close>

definition IntCompare :: "int \<Rightarrow> int \<Rightarrow> int" where
  "IntCompare x y = (if x < y then -1 else if x = y then 0 else 1)"

definition listTestVector :: "int list" where
  "listTestVector = [9, 5, 7]"

interpretation ic: comparator IntCompare
  by unfold_locales (auto simp: IntCompare_def split: if_splits)

section \<open>Properties\<close>

text \<open>
  C13. The pointer code of the lists implements sequences: on a list object that holds
  distinct items, \<open>Append\<close>, \<open>Prepend\<close>, \<open>Remove\<close> and the sorted \<open>Insert\<close> fail the assertion
  exactly when the sequence-level operation does, and otherwise leave a list object
  (\<open>first\<close>, \<open>last\<close>, \<open>numInList\<close> and the chain of cells consistent) for the new
  sequence; \<open>RemoveFront\<close> takes the first item or fails on the empty list. No cell
  outside the list, other than the freshly allocated one, is touched.
\<close>

theorem list_code_refines_sequences:
  assumes "holds h l A xs"
  shows "implements h A (List_Append h l x) (seq_Append xs x) \<and>
    implements h A (List_Prepend h l x) (seq_Prepend xs x) \<and>
    implements h A (List_Remove h l x) (seq_Remove xs x) \<and>
    implements h A (SortedList_Insert cmp h l x) (seq_SortedInsert cmp xs x) \<and>
    (List_RemoveFront h l = Inl AssertFailed \<and> xs = [] \<or>
      (\<exists>x xs' h' l' A'. List_RemoveFront h l = Inr (x, h', l') \<and> xs = x # xs' \<and>
         holds h' l' A' xs' \<and> A' \<subseteq> A \<and> frame_out h h' A)) \<and>
    List_IsInList h l x = Inr (x \<in> set xs) \<and> List_SanityCheck h l = Inr ()"
proof -
  have "List_RemoveFront h l = Inl AssertFailed \<and> xs = [] \<or>
      (\<exists>x xs' h' l' A'. List_RemoveFront h l = Inr (x, h', l') \<and> xs = x # xs' \<and>
         holds h' l' A' xs' \<and> A' \<subseteq> A \<and> frame_out h h' A)"
    using RemoveFront_implements [OF assms]
    by (auto simp: seq_RemoveFront_def split: list.splits)
  then show ?thesis
    using assms by (simp add: Append_implements Prepend_implements Remove_implements
      Insert_implements holds_IsInList holds_SanityCheck)
qed

theorem list_code_refines_sequences_witness:
  "\<exists>h l A. List_Append \<lparr>cells = Map.empty, brk = 0\<rparr> List_new (5 :: int) = Inr (h, l) \<and>
     holds h l A [5] \<and> List_IsInList h l 5 = Inr True"
proof -
  have "implements \<lparr>cells = Map.empty, brk = 0\<rparr> {}
      (List_Append \<lparr>cells = Map.empty, brk = 0\<rparr> List_new 5) (seq_Append [] (5 :: int))"
    by (rule list_code_refines_sequences [OF holds_new, THEN conjunct1])
  then obtain h l A where hl: "List_Append \<lparr>cells = Map.empty, brk = 0\<rparr> List_new (5 :: int) = Inr (h, l)"
    "holds h l A [5]" by (auto simp: implements_def seq_Append_def)
  have "List_IsInList h l 5 = Inr (5 \<in> set [5])" 
    using list_code_refines_sequences [OF hl(2), of 5 "\<lambda>_ _. 0"] by simp
  with hl show ?thesis by auto
qed

text \<open>
  C31. The \<open>SelfTest\<close> of lists and the \<open>SelfTest\<close> of sorted lists (with the comparison function of
  the library test) run to the end without a failed assertion or a bad pointer on a
  newly constructed list, for every vector of distinct integers and in particular for
  \<open>listTestVector\<close>, and leave the list empty.
\<close>

theorem list_SelfTests_pass:
  assumes "distinct p"
  shows "(\<exists>h' l' A'. List_SelfTest h List_new p = Inr (h', l') \<and> holds h' l' A' []) \<and>
    (\<exists>h' l' A'. SortedList_SelfTest IntCompare h List_new p = Inr (h', l') \<and> holds h' l' A' [])"
proof
  have fresh: "first_ptr List_new = None" by (simp add: List_new_def)
  have "ul.good {} (h, List_new)"
    using holds_new unfolding ul.good_def by auto
  from ul.SelfTest_passes [OF this fresh assms]
  show "\<exists>h' l' A'. List_SelfTest h List_new p = Inr (h', l') \<and> holds h' l' A' []"
    unfolding List_SelfTest_def ul.good_def by auto
  have "ic.sl.good {} (h, List_new)"
    using holds_new unfolding ic.sl.good_def by auto
  from ic.SortedList_SelfTest_ok [OF this fresh assms]
  show "\<exists>h' l' A'. SortedList_SelfTest IntCompare h List_new p = Inr (h', l') \<and> holds h' l' A' []" .
qed

theorem list_SelfTests_pass_witness:
  "\<exists>h' l' A'. SortedList_SelfTest IntCompare \<lparr>cells = Map.empty, brk = 0\<rparr> List_new listTestVector =
     Inr (h', l') \<and> holds h' l' A' []"
  using list_SelfTests_pass [of listTestVector] by (simp add: listTestVector_def)

end
