(* ===== verification/Nachos_Machine.thy ===== *)
theory Nachos_Machine
  imports Nachos_Prelude
begin

text \<open>
  The simulated hardware of \<open>machine/machine.h\<close>, \<open>machine/machine.cc\<close> and
  \<open>machine/translate.cc\<close>: registers, physical memory, page table or TLB, address
  translation, and the reads and writes of virtual memory.

  An exception transfers control to the kernel: \<open>RaiseException\<close> records the bad address,
  finishes the pending delayed load and calls \<open>ExceptionHandler\<close>. The handler is kernel
  code of another component, so a routine that raises an exception returns \<open>Inl\<close> of
  the exception together with the machine as the handler finds it; every caller of the
  simulator returns right after that.

  The host is little-endian (the build's default), so \<open>WordToHost\<close> and its companions are the
  identity; \<open>char\<close> is signed, so a one-byte read is sign-extended.
\<close>

section \<open>Data of machine/machine.h and machine/translate.h\<close>

definition PageSize :: nat where "PageSize = 128"
definition NumPhysPages :: nat where "NumPhysPages = 128"
definition MemorySize :: nat where "MemorySize = NumPhysPages * PageSize"
definition TLBSize :: nat where "TLBSize = 4"

datatype ExceptionType =
    NoException
  | SyscallException
  | PageFaultException
  | ReadOnlyException
  | BusErrorException
  | AddressErrorException
  | OverflowException
  | IllegalInstrException

abbreviation (input) StackReg :: nat where "StackReg \<equiv> 29"
abbreviation (input) RetAddrReg :: nat where "RetAddrReg \<equiv> 31"
abbreviation (input) NumGPRegs :: nat where "NumGPRegs \<equiv> 32"
abbreviation (input) HiReg :: nat where "HiReg \<equiv> 32"
abbreviation (input) LoReg :: nat where "LoReg \<equiv> 33"
abbreviation (input) PCReg :: nat where "PCReg \<equiv> 34"
abbreviation (input) NextPCReg :: nat where "NextPCReg \<equiv> 35"
abbreviation (input) PrevPCReg :: nat where "PrevPCReg \<equiv> 36"
abbreviation (input) LoadReg :: nat where "LoadReg \<equiv> 37"
abbreviation (input) LoadValueReg :: nat where "LoadValueReg \<equiv> 38"
abbreviation (input) BadVAddrReg :: nat where "BadVAddrReg \<equiv> 39"
abbreviation (input) NumTotalRegs :: nat where "NumTotalRegs \<equiv> 40"

record TranslationEntry =
  virtualPage :: i32
  physicalPage :: i32
  valid :: bool
  readOnly :: bool
  use_bit :: bool
  dirty :: bool

record Machine =
  registers :: "nat \<Rightarrow> i32"
  mainMemory :: "nat \<Rightarrow> byte"
  tlb :: "TranslationEntry list option"
  pageTable :: "TranslationEntry list option"
  pageTableSize :: u32
  singleStep :: bool
  runUntilTime :: int

text \<open>The constructor, in the build without \<open>USE_TLB\<close>; \<open>pageTableSize\<close> and \<open>runUntilTime\<close> are not
  initialised there and are parameters.\<close>

definition Machine_new :: "u32 \<Rightarrow> int \<Rightarrow> bool \<Rightarrow> Machine" where
  "Machine_new size0 time0 debug =
     \<lparr>registers = (\<lambda>_. 0), mainMemory = (\<lambda>_. 0), tlb = None, pageTable = None,
      pageTableSize = size0, singleStep = debug, runUntilTime = time0\<rparr>"

section \<open>Registers\<close>

definition setReg :: "Machine \<Rightarrow> nat \<Rightarrow> i32 \<Rightarrow> Machine" where
  "setReg m n v = m\<lparr>registers := (registers m)(n := v)\<rparr>"

definition ReadRegister :: "Machine \<Rightarrow> int \<Rightarrow> i32 res" where
  "ReadRegister m num =
     bindR (ASSERT (num \<ge> 0 \<and> num < int NumTotalRegs)) (\<lambda>_. Inr (registers m (nat num)))"

definition WriteRegister :: "Machine \<Rightarrow> int \<Rightarrow> i32 \<Rightarrow> Machine res" where
  "WriteRegister m num v =
     bindR (ASSERT (num \<ge> 0 \<and> num < int NumTotalRegs)) (\<lambda>_. Inr (setReg m (nat num) v))"

text \<open>
  \<open>registers[registers[LoadReg]]\<close> is the only register access whose index the program does not
  fix to a range by construction.
\<close>

definition DelayedLoad :: "Machine \<Rightarrow> i32 \<Rightarrow> i32 \<Rightarrow> Machine res" where
  "DelayedLoad m nextReg nextValue =
     bindR (if 0 \<le> sint (registers m LoadReg) \<and> sint (registers m LoadReg) < int NumTotalRegs
            then Inr (setReg m (nat (sint (registers m LoadReg))) (registers m LoadValueReg))
            else Inl OutOfBounds) (\<lambda>m.
     Inr (setReg (setReg (setReg m LoadReg nextReg) LoadValueReg nextValue) 0 0))"

text \<open>The state in which \<open>RaiseException\<close> calls the handler.\<close>

definition RaiseException :: "Machine \<Rightarrow> i32 \<Rightarrow> Machine res" where
  "RaiseException m badVAddr = DelayedLoad (setReg m BadVAddrReg badVAddr) 0 0"

section \<open>Address translation\<close>

definition WordToHost :: "u32 \<Rightarrow> u32" where "WordToHost w = w"
definition ShortToHost :: "u16 \<Rightarrow> u16" where "ShortToHost w = w"
definition WordToMachine :: "u32 \<Rightarrow> u32" where "WordToMachine w = WordToHost w"
definition ShortToMachine :: "u16 \<Rightarrow> u16" where "ShortToMachine w = ShortToHost w"

fun find_tlb :: "TranslationEntry list \<Rightarrow> u32 \<Rightarrow> nat \<Rightarrow> nat option" where
  "find_tlb [] vpn i = None"
| "find_tlb (e # es) vpn i = (if valid e \<and> virtualPage e = vpn then Some i else find_tlb es vpn (Suc i))"

text \<open>The entry to use and a function that stores it back, or the exception.\<close>

definition lookup_entry ::
    "Machine \<Rightarrow> u32 \<Rightarrow> (ExceptionType + TranslationEntry \<times> (TranslationEntry \<Rightarrow> Machine)) res" where
  "lookup_entry m vpn = (case tlb m of
     None \<Rightarrow>
       if vpn \<ge> pageTableSize m then Inr (Inl AddressErrorException)
       else bindR (case pageTable m of None \<Rightarrow> Inl NullDeref | Some pt \<Rightarrow> Inr pt) (\<lambda>pt.
            bindR (aget pt (uint vpn)) (\<lambda>e.
            if \<not> valid e then Inr (Inl PageFaultException)
            else Inr (Inr (e, \<lambda>e'. m\<lparr>pageTable := Some (pt[unat vpn := e'])\<rparr>))))
   | Some es \<Rightarrow>
       (case find_tlb (take TLBSize es) vpn 0 of
          None \<Rightarrow> Inr (Inl PageFaultException)
        | Some i \<Rightarrow> Inr (Inr (es ! i, \<lambda>e'. m\<lparr>tlb := Some (es[i := e'])\<rparr>))))"

definition Translate ::
    "Machine \<Rightarrow> i32 \<Rightarrow> nat \<Rightarrow> bool \<Rightarrow> (ExceptionType + i32 \<times> Machine) res" where
  "Translate m virtAddr sz writing =
     (if (sz = 4 \<and> virtAddr AND 3 \<noteq> 0) \<or> (sz = 2 \<and> virtAddr AND 1 \<noteq> 0)
      then Inr (Inl AddressErrorException)
      else
      bindR (ASSERT (tlb m = None \<or> pageTable m = None)) (\<lambda>_.
      bindR (ASSERT (tlb m \<noteq> None \<or> pageTable m \<noteq> None)) (\<lambda>_.
      let vpn = virtAddr div of_nat PageSize;
          offset = virtAddr mod of_nat PageSize
      in bindR (lookup_entry m vpn) (\<lambda>r. case r of
           Inl ex \<Rightarrow> Inr (Inl ex)
         | Inr (entry, put) \<Rightarrow>
             if readOnly entry \<and> writing then Inr (Inl ReadOnlyException)
             else if physicalPage entry \<ge> of_nat NumPhysPages then Inr (Inl BusErrorException)
             else let m' = put (entry\<lparr>use_bit := True, dirty := dirty entry \<or> writing\<rparr>);
                      physAddr = physicalPage entry * of_nat PageSize + offset
                  in bindR (ASSERT (sint physAddr \<ge> 0 \<and> sint physAddr + int sz \<le> int MemorySize))
                       (\<lambda>_. Inr (Inr (physAddr, m')))))))"

section \<open>Virtual memory access\<close>

definition mem8 :: "Machine \<Rightarrow> nat \<Rightarrow> byte res" where
  "mem8 m a = (if a < MemorySize then Inr (mainMemory m a) else Inl OutOfBounds)"

definition mem8_put :: "Machine \<Rightarrow> nat \<Rightarrow> byte \<Rightarrow> Machine res" where
  "mem8_put m a b = (if a < MemorySize then Inr (m\<lparr>mainMemory := (mainMemory m)(a := b)\<rparr>)
     else Inl OutOfBounds)"

definition ReadMem :: "Machine \<Rightarrow> i32 \<Rightarrow> nat \<Rightarrow> (ExceptionType \<times> Machine + i32 \<times> Machine) res" where
  "ReadMem m addr sz =
     bindR (Translate m addr sz False) (\<lambda>r. case r of
       Inl ex \<Rightarrow> bindR (RaiseException m addr) (\<lambda>m. Inr (Inl (ex, m)))
     | Inr (pa, m) \<Rightarrow>
         let p = unat pa in
         if sz = 1 then
           bindR (mem8 m p) (\<lambda>b. Inr (Inr (scast b, m)))
         else if sz = 2 then
           bindR (mem8 m p) (\<lambda>b0. bindR (mem8 m (p + 1)) (\<lambda>b1.
             Inr (Inr (ucast (ShortToHost (u16_of_bytes b0 b1)), m))))
         else if sz = 4 then
           bindR (mem8 m p) (\<lambda>b0. bindR (mem8 m (p + 1)) (\<lambda>b1.
           bindR (mem8 m (p + 2)) (\<lambda>b2. bindR (mem8 m (p + 3)) (\<lambda>b3.
             Inr (Inr (WordToHost (u32_of_bytes b0 b1 b2 b3), m))))))
         else Inl AssertFailed)"

definition WriteMem :: "Machine \<Rightarrow> i32 \<Rightarrow> nat \<Rightarrow> i32 \<Rightarrow> (ExceptionType \<times> Machine + Machine) res" where
  "WriteMem m addr sz v =
     bindR (Translate m addr sz True) (\<lambda>r. case r of
       Inl ex \<Rightarrow> bindR (RaiseException m addr) (\<lambda>m. Inr (Inl (ex, m)))
     | Inr (pa, m) \<Rightarrow>
         let p = unat pa in
         if sz = 1 then
           bindR (mem8_put m p (ucast (v AND 0xff))) (\<lambda>m. Inr (Inr m))
         else if sz = 2 then
           let w = ShortToMachine (ucast (v AND 0xffff)) in
           bindR (mem8_put m p (ucast w)) (\<lambda>m.
           bindR (mem8_put m (p + 1) (ucast (drop_bit 8 w))) (\<lambda>m. Inr (Inr m)))
         else if sz = 4 then
           let w = WordToMachine v in
           bindR (mem8_put m p (ucast w)) (\<lambda>m.
           bindR (mem8_put m (p + 1) (ucast (drop_bit 8 w))) (\<lambda>m.
           bindR (mem8_put m (p + 2) (ucast (drop_bit 16 w))) (\<lambda>m.
           bindR (mem8_put m (p + 3) (ucast (drop_bit 24 w))) (\<lambda>m. Inr (Inr m)))))
         else Inl AssertFailed)"

section \<open>Well-formed machines\<close>

text \<open>
  What the kernel keeps true of the hardware state: exactly one of page table and TLB is
  there, a page table has as many entries as \<open>pageTableSize\<close> says, and the pending
  delayed load names a general register.
\<close>

definition mmu_ok :: "Machine \<Rightarrow> bool" where
  "mmu_ok m \<longleftrightarrow> (case tlb m of
     None \<Rightarrow> (\<exists>pt. pageTable m = Some pt \<and> uint (pageTableSize m) \<le> int (length pt))
   | Some _ \<Rightarrow> pageTable m = None)"

definition load_ok :: "Machine \<Rightarrow> bool" where
  "load_ok m \<longleftrightarrow> unat (registers m LoadReg) < NumGPRegs"

definition Machine_ok :: "Machine \<Rightarrow> bool" where
  "Machine_ok m \<longleftrightarrow> mmu_ok m \<and> load_ok m"

lemma registers_setReg [simp]: "registers (setReg m n v) = (registers m)(n := v)"
  by (simp add: setReg_def)

lemma setReg_other [simp]:
  "mainMemory (setReg m n v) = mainMemory m" "tlb (setReg m n v) = tlb m"
  "pageTable (setReg m n v) = pageTable m" "pageTableSize (setReg m n v) = pageTableSize m"
  by (simp_all add: setReg_def)

lemma mmu_ok_setReg [simp]: "mmu_ok (setReg m n v) = mmu_ok m"
  by (simp add: mmu_ok_def split: option.splits)

lemma mmu_ok_mem [simp]: "mmu_ok (m\<lparr>mainMemory := f\<rparr>) = mmu_ok m"
  by (simp add: mmu_ok_def split: option.splits)

lemma DelayedLoad_eq:
  assumes "load_ok m"
  shows "DelayedLoad m r v = Inr (setReg (setReg (setReg
     (setReg m (unat (registers m LoadReg)) (registers m LoadValueReg)) LoadReg r) LoadValueReg v) 0 0)"
proof -
  have "sint (registers m LoadReg) = int (unat (registers m LoadReg))"
    using assms by (intro sint_small) (simp add: load_ok_def)
  then show ?thesis using assms by (simp add: DelayedLoad_def load_ok_def del: of_nat_unat)
qed

text \<open>After a trap or a completed instruction, register 0 is zero and the machine is well formed.\<close>

lemma DelayedLoad_ok:
  assumes "Machine_ok m" "unat r < NumGPRegs"
  shows "\<exists>m'. DelayedLoad m r v = Inr m' \<and> Machine_ok m' \<and> registers m' 0 = 0 \<and>
    mainMemory m' = mainMemory m"
  using assms by (auto simp: DelayedLoad_eq Machine_ok_def load_ok_def)

lemma RaiseException_ok:
  assumes "Machine_ok m"
  shows "\<exists>m'. RaiseException m a = Inr m' \<and> Machine_ok m' \<and> registers m' 0 = 0 \<and>
    mainMemory m' = mainMemory m"
proof -
  have "Machine_ok (setReg m BadVAddrReg a)" using assms by (simp add: Machine_ok_def load_ok_def)
  from DelayedLoad_ok [OF this, of 0 0] show ?thesis by (simp add: RaiseException_def)
qed

section \<open>Translation\<close>

lemma physAddr_value:
  assumes "(p :: i32) < 128"
  shows "unat (p * 128 + va mod 128) = unat p * 128 + unat (va :: i32) mod 128"
proof -
  have p: "unat p < 128" using assms by (simp add: word_less_nat_alt)
  then have "unat (p * 128) = unat p * 128" by (subst unat_mult_lem [THEN iffD1]) auto
  then show ?thesis using p
    by (subst unat_plus_simple [THEN iffD1]) (auto simp: unat_mod_128 no_olen_add_nat)
qed

text \<open>What the lookup returns: a valid entry of the table, and storing it back changes only the table.\<close>

lemma find_tlb_Some:
  "find_tlb es vpn i = Some j \<Longrightarrow>
     i \<le> j \<and> j < i + length es \<and> valid (es ! (j - i)) \<and> virtualPage (es ! (j - i)) = vpn \<and>
     (\<forall>k < j - i. \<not> (valid (es ! k) \<and> virtualPage (es ! k) = vpn))"
proof (induction es arbitrary: i)
  case (Cons e es)
  show ?case
  proof (cases "valid e \<and> virtualPage e = vpn")
    case False
    with Cons have j: "find_tlb es vpn (Suc i) = Some j" by auto
    note IH = Cons.IH [OF j]
    then have "j - i = Suc (j - Suc i)" by auto
    then show ?thesis using IH False by (auto simp: less_Suc_eq_0_disj)
  qed (use Cons in auto)
qed simp

lemma find_tlb_update:
  "find_tlb es vpn i = Some j \<Longrightarrow> valid e' \<Longrightarrow> virtualPage e' = vpn \<Longrightarrow>
     find_tlb (es[j - i := e']) vpn i = Some j"
proof (induction es arbitrary: i)
  case (Cons e es)
  show ?case
  proof (cases "valid e \<and> virtualPage e = vpn")
    case False
    with Cons have j: "find_tlb es vpn (Suc i) = Some j" by auto
    have "j - i = Suc (j - Suc i)" using find_tlb_Some [OF j] by auto
    then show ?thesis using Cons.IH [OF j] Cons.prems False by auto
  qed (use Cons in auto)
qed simp

definition same_but_table :: "Machine \<Rightarrow> Machine \<Rightarrow> bool" where
  "same_but_table m m' \<longleftrightarrow> registers m' = registers m \<and> mainMemory m' = mainMemory m \<and>
     pageTableSize m' = pageTableSize m \<and> (mmu_ok m \<longrightarrow> mmu_ok m')"

lemma lookup_entry_Some:
  assumes "lookup_entry m vpn = Inr (Inr (e, put))"
  shows "valid e \<and> same_but_table m (put e')"
  using assms unfolding lookup_entry_def same_but_table_def mmu_ok_def
  by (auto simp: bindR_eq_Inr aget_def dest: find_tlb_Some split: option.splits if_splits)

lemma lookup_entry_put:
  assumes "lookup_entry m vpn = Inr (Inr (e, put))" "valid e'" "virtualPage e' = virtualPage e"
    "tlb m' = tlb (put e')" "pageTable m' = pageTable (put e')" "pageTableSize m' = pageTableSize (put e')"
  shows "\<exists>put'. lookup_entry m' vpn = Inr (Inr (e', put'))"
proof (cases "tlb m")
  case None
  with assms(1) obtain pt where pt: "pageTable m = Some pt" "nat (uint vpn) < length pt"
    "e = pt ! nat (uint vpn)" "valid e" "\<not> vpn \<ge> pageTableSize m"
    "put = (\<lambda>e'. m\<lparr>pageTable := Some (pt[unat vpn := e'])\<rparr>)"
    by (auto simp: lookup_entry_def bindR_eq_Inr aget_def split: option.splits if_splits)
  then show ?thesis using assms(2,4,5,6) None
    by (auto simp: lookup_entry_def aget_def simp flip: nat_uint_eq)
next
  case (Some es)
  with assms(1) obtain i where i: "find_tlb (take TLBSize es) vpn 0 = Some i" "e = es ! i"
    "put = (\<lambda>e'. m\<lparr>tlb := Some (es[i := e'])\<rparr>)"
    by (auto simp: lookup_entry_def split: option.splits)
  note f = find_tlb_Some [OF i(1)]
  have "virtualPage e' = vpn" using f i(2) assms(3) by auto
  with find_tlb_update [OF i(1) assms(2)]
  have "find_tlb (take TLBSize (es[i := e'])) vpn 0 = Some i" by (simp add: take_update_swap)
  then show ?thesis using assms(4) i(3) f by (simp add: lookup_entry_def)
qed

lemma lookup_entry_total:
  assumes "mmu_ok m"
  shows "\<exists>r. lookup_entry m vpn = Inr r \<and> (\<forall>ex. r = Inl ex \<longrightarrow>
    ex = AddressErrorException \<or> ex = PageFaultException)"
proof (cases "tlb m")
  case None
  with assms obtain pt where pt: "pageTable m = Some pt" "uint (pageTableSize m) \<le> int (length pt)"
    by (auto simp: mmu_ok_def)
  show ?thesis
  proof (cases "vpn \<ge> pageTableSize m")
    case False
    then have "uint vpn < int (length pt)" using pt(2) by (simp add: word_le_def)
    then have "aget pt (uint vpn) = Inr (pt ! nat (uint vpn))" 
      by (simp add: aget_def uint_less_int_iff)
    then show ?thesis using False pt(1) None by (simp add: lookup_entry_def)
  qed (use None in \<open>simp add: lookup_entry_def\<close>)
next
  case (Some es)
  then show ?thesis by (simp add: lookup_entry_def split: option.splits)
qed

lemma Translate_unfold:
  assumes al: "\<not> ((sz = 4 \<and> va AND 3 \<noteq> 0) \<or> (sz = 2 \<and> va AND 1 \<noteq> 0))"
    and one: "tlb m = None \<or> pageTable m = None" "tlb m \<noteq> None \<or> pageTable m \<noteq> None"
  shows "Translate m va sz w = bindR (lookup_entry m (va div 128)) (\<lambda>r. case r of Inl ex \<Rightarrow> Inr (Inl ex)
     | Inr (entry, put) \<Rightarrow>
         if readOnly entry \<and> w then Inr (Inl ReadOnlyException)
         else if physicalPage entry \<ge> 128 then Inr (Inl BusErrorException)
         else let m' = put (entry\<lparr>use_bit := True, dirty := dirty entry \<or> w\<rparr>);
                  physAddr = physicalPage entry * 128 + va mod 128
              in bindR (ASSERT (sint physAddr \<ge> 0 \<and> sint physAddr + int sz \<le> int MemorySize))
                   (\<lambda>_. Inr (Inr (physAddr, m'))))"
  unfolding Translate_def PageSize_def NumPhysPages_def of_nat_numeral Let_def [of "_ div _"]
    Let_def [of "_ mod _"] if_not_P [OF al]
  using one by simp

lemma Translate_Inr:
  assumes "Translate m va sz w = Inr (Inr (pa, m'))"
  shows "\<exists>e put. lookup_entry m (va div 128) = Inr (Inr (e, put)) \<and> \<not> (readOnly e \<and> w) \<and>
    physicalPage e < 128 \<and> pa = physicalPage e * 128 + va mod 128 \<and>
    m' = put (e\<lparr>use_bit := True, dirty := dirty e \<or> w\<rparr>) \<and>
    \<not> ((sz = 4 \<and> va AND 3 \<noteq> 0) \<or> (sz = 2 \<and> va AND 1 \<noteq> 0)) \<and>
    (tlb m = None \<or> pageTable m = None) \<and> (tlb m \<noteq> None \<or> pageTable m \<noteq> None) \<and>
    sint pa \<ge> 0 \<and> sint pa + int sz \<le> int MemorySize"
proof -
  have al: "\<not> ((sz = 4 \<and> va AND 3 \<noteq> 0) \<or> (sz = 2 \<and> va AND 1 \<noteq> 0))"
    and one: "tlb m = None \<or> pageTable m = None" "tlb m \<noteq> None \<or> pageTable m \<noteq> None"
    using assms by (auto simp: Translate_def split: if_splits)
  from assms obtain e put where e: "lookup_entry m (va div 128) = Inr (Inr (e, put))"
    unfolding Translate_unfold [OF al one]
    by (cases "lookup_entry m (va div 128)") (auto split: sum.splits)
  then show ?thesis
    using assms al one unfolding Translate_unfold [OF al one] e
    by (auto simp: Let_def not_le split: if_splits)
qed

text \<open>A translated address: the page's frame and the same offset, wholly inside physical memory.\<close>

lemma physAddr_bounds:
  assumes "(p :: i32) < 128" "sz \<in> {1, 2, 4}" "\<not> (sz = 4 \<and> va AND 3 \<noteq> 0)" "\<not> (sz = 2 \<and> va AND 1 \<noteq> 0)"
  shows "unat (p * 128 + va mod 128) + sz \<le> MemorySize"
    and "sint (p * 128 + va mod 128) = int (unat (p * 128 + va mod 128))"
proof -
  have p: "unat p < 128" using assms(1) by (simp add: word_less_nat_alt)
  have al4: "sz = 4 \<Longrightarrow> unat va mod 4 = 0" using assms(3) unat_and_3 [of va] by simp
  have al2: "sz = 2 \<Longrightarrow> unat va mod 2 = 0" using assms(4) unat_and_1 [of va] by simp
  have "sz = 4 \<Longrightarrow> unat va mod 128 mod 4 = 0" "sz = 2 \<Longrightarrow> unat va mod 128 mod 2 = 0"
    using al4 al2 by (simp_all add: mod_mod_cancel)
  moreover have "x < 128 \<Longrightarrow> x mod 4 = 0 \<Longrightarrow> x + 4 \<le> 128" "x < 128 \<Longrightarrow> x mod 2 = 0 \<Longrightarrow> x + 2 \<le> 128" for x :: nat
    by presburger+
  ultimately have "unat va mod 128 + sz \<le> 128"
    using assms(2) mod_less_divisor [of 128 "unat va"] by (elim insertE) simp_all
  then show 1: "unat (p * 128 + va mod 128) + sz \<le> MemorySize"
    using p physAddr_value [OF assms(1), of va] by (simp add: MemorySize_def NumPhysPages_def PageSize_def)
  show "sint (p * 128 + va mod 128) = int (unat (p * 128 + va mod 128))"
    by (rule sint_small) (use 1 in \<open>simp add: MemorySize_def NumPhysPages_def PageSize_def\<close>)
qed

lemma Translate_ok:
  assumes ok: "mmu_ok m" and sz: "sz \<in> {1, 2, 4}"
  shows "(\<exists>ex. Translate m va sz w = Inr (Inl ex) \<and> ex \<noteq> NoException \<and> ex \<noteq> SyscallException) \<or>
    (\<exists>pa m'. Translate m va sz w = Inr (Inr (pa, m')) \<and> unat pa + sz \<le> MemorySize \<and>
       unat pa mod 128 = unat va mod 128 \<and> same_but_table m m')"
proof (cases "(sz = 4 \<and> va AND 3 \<noteq> 0) \<or> (sz = 2 \<and> va AND 1 \<noteq> 0)")
  case True
  then show ?thesis by (auto simp: Translate_def)
next
  case al: False
  have one: "tlb m = None \<or> pageTable m = None" "tlb m \<noteq> None \<or> pageTable m \<noteq> None"
    using ok by (auto simp: mmu_ok_def split: option.splits)
  obtain r where r: "lookup_entry m (va div 128) = Inr r"
    "\<And>ex. r = Inl ex \<Longrightarrow> ex = AddressErrorException \<or> ex = PageFaultException"
    using lookup_entry_total [OF ok] by blast
  note unf = Translate_unfold [OF al one, of w, unfolded r(1) bindR_simps]
  show ?thesis
  proof (cases r)
    case (Inl ex)
    then show ?thesis using unf r(2) by auto
  next
    case (Inr ep)
    obtain e put where ep: "ep = (e, put)" by (cases ep)
    show ?thesis
    proof (cases "physicalPage e < 128 \<and> \<not> (readOnly e \<and> w)")
      case False
      then show ?thesis using unf Inr ep by (auto simp: not_less)
    next
      case True
      note b = physAddr_bounds [of "physicalPage e" sz va]
      let ?pa = "physicalPage e * 128 + va mod 128"
      have "unat ?pa + sz \<le> MemorySize" "sint ?pa = int (unat ?pa)" using b True al sz by auto
      then have "sint ?pa \<ge> 0 \<and> sint ?pa + int sz \<le> int MemorySize" by linarith
      then have "Translate m va sz w = Inr (Inr (physicalPage e * 128 + va mod 128,
          put (e\<lparr>use_bit := True, dirty := dirty e \<or> w\<rparr>)))"
        using True unf Inr ep by (auto simp: Let_def not_le)
      moreover have "same_but_table m (put (e\<lparr>use_bit := True, dirty := dirty e \<or> w\<rparr>))"
        using lookup_entry_Some r(1) Inr ep by blast
      ultimately show ?thesis using b al sz True physAddr_value [of "physicalPage e" va] by auto
    qed
  qed
qed

section \<open>Reading and writing virtual memory\<close>

text \<open>The bytes a successful write puts at the physical address, and the value a read returns.\<close>

definition store_bytes :: "nat \<Rightarrow> i32 \<Rightarrow> byte list" where
  "store_bytes sz v = take sz (bytes_of_u32 v)"

definition load_value :: "nat \<Rightarrow> (nat \<Rightarrow> byte) \<Rightarrow> nat \<Rightarrow> i32" where
  "load_value sz mem p =
     (if sz = 1 then scast (mem p)
      else if sz = 2 then ucast (u16_of_bytes (mem p) (mem (p + 1)))
      else u32_of_bytes (mem p) (mem (p + 1)) (mem (p + 2)) (mem (p + 3)))"

fun put_bytes :: "(nat \<Rightarrow> byte) \<Rightarrow> nat \<Rightarrow> byte list \<Rightarrow> nat \<Rightarrow> byte" where
  "put_bytes mem p [] = mem"
| "put_bytes mem p (b # bs) = put_bytes (mem(p := b)) (Suc p) bs"

lemma put_bytes_outside: "a < p \<or> p + length bs \<le> a \<Longrightarrow> put_bytes mem p bs a = mem a"
  by (induction mem p bs rule: put_bytes.induct) auto

lemma ReadMem_eq:
  assumes "Translate m va sz False = Inr (Inr (pa, m'))" "sz \<in> {1, 2, 4}" "unat pa + sz \<le> MemorySize"
  shows "ReadMem m va sz = Inr (Inr (load_value sz (mainMemory m') (unat pa), m'))"
  using assms
  by (auto simp: ReadMem_def load_value_def mem8_def Let_def WordToHost_def ShortToHost_def)

lemma ucast_mask:
  "ucast ((v :: i32) AND 0xff) = (ucast v :: byte)"
  "ucast (ucast (v AND 0xffff) :: u16) = (ucast v :: byte)"
  "ucast (drop_bit 8 (ucast (v AND 0xffff) :: u16)) = (ucast (drop_bit 8 v) :: byte)"
proof -
  have 8: "(0xff :: i32) = mask 8" and 16: "(0xffff :: i32) = mask 16" by (simp_all add: mask_eq_exp_minus_1)
  show "ucast ((v :: i32) AND 0xff) = (ucast v :: byte)"
    unfolding 8 by (rule bit_word_eqI) (simp add: bit_simps)
  show "ucast (ucast (v AND 0xffff) :: u16) = (ucast v :: byte)"
    unfolding 16 by (rule bit_word_eqI) (simp add: bit_simps)
  show "ucast (drop_bit 8 (ucast (v AND 0xffff) :: u16)) = (ucast (drop_bit 8 v) :: byte)"
    unfolding 16 by (rule bit_word_eqI) (auto simp: bit_simps)
qed

lemma WriteMem_eq:
  assumes "Translate m va sz True = Inr (Inr (pa, m'))" "sz \<in> {1, 2, 4}" "unat pa + sz \<le> MemorySize"
  shows "WriteMem m va sz v =
    Inr (Inr (m'\<lparr>mainMemory := put_bytes (mainMemory m') (unat pa) (store_bytes sz v)\<rparr>))"
  using assms
  by (auto simp: WriteMem_def store_bytes_def bytes_of_u32_def mem8_put_def Let_def WordToMachine_def
      WordToHost_def ShortToMachine_def ShortToHost_def ucast_mask numeral_3_eq_3)

text \<open>What a well-sized read gives back of the value that was written.\<close>

definition narrowed :: "nat \<Rightarrow> i32 \<Rightarrow> i32" where
  "narrowed sz v = (if sz = 1 then scast (ucast v :: byte) else if sz = 2 then ucast (ucast v :: u16) else v)"

lemma load_store:
  assumes "sz \<in> {1, 2, 4}"
  shows "load_value sz (put_bytes mem p (store_bytes sz v)) p = narrowed sz v"
proof -
  have "u16_of_bytes (ucast v) (ucast (drop_bit 8 v)) = ucast v"
    by (rule bit_word_eqI) (auto simp: bit_u16_of_bytes bit_simps)
  then show ?thesis using assms
    by (auto simp: load_value_def store_bytes_def bytes_of_u32_def narrowed_def)
qed

text \<open>Every access either succeeds or raises an exception other than a system call.\<close>

lemma ReadMem_ok:
  assumes "Machine_ok m" "sz \<in> {1, 2, 4}"
  shows "(\<exists>ex m'. ReadMem m va sz = Inr (Inl (ex, m')) \<and> ex \<noteq> NoException \<and> ex \<noteq> SyscallException \<and>
      Machine_ok m' \<and> mainMemory m' = mainMemory m \<and> registers m' 0 = 0) \<or>
    (\<exists>v m'. ReadMem m va sz = Inr (Inr (v, m')) \<and> same_but_table m m')"
proof -
  have ok: "mmu_ok m" using assms(1) by (simp add: Machine_ok_def)
  from RaiseException_ok [OF assms(1), of va] obtain m1 where
    m1: "RaiseException m va = Inr m1" "Machine_ok m1" "mainMemory m1 = mainMemory m" "registers m1 0 = 0" by blast
  from Translate_ok [OF ok assms(2), of va False] show ?thesis
  proof (elim disjE exE conjE)
    fix ex
    assume "Translate m va sz False = Inr (Inl ex)" "ex \<noteq> NoException" "ex \<noteq> SyscallException"
    then show ?thesis using m1 by (simp add: ReadMem_def)
  next
    fix pa m'
    assume "Translate m va sz False = Inr (Inr (pa, m'))" "unat pa + sz \<le> MemorySize" "same_but_table m m'"
    then show ?thesis using ReadMem_eq assms(2) by blast
  qed
qed

lemma WriteMem_ok:
  assumes "Machine_ok m" "sz \<in> {1, 2, 4}"
  shows "(\<exists>ex m'. WriteMem m va sz v = Inr (Inl (ex, m')) \<and> ex \<noteq> NoException \<and> ex \<noteq> SyscallException \<and>
      Machine_ok m' \<and> mainMemory m' = mainMemory m \<and> registers m' 0 = 0) \<or>
    (\<exists>m'. WriteMem m va sz v = Inr (Inr m') \<and> Machine_ok m' \<and> registers m' = registers m)"
proof -
  have ok: "mmu_ok m" using assms(1) by (simp add: Machine_ok_def)
  from RaiseException_ok [OF assms(1), of va] obtain m1 where
    m1: "RaiseException m va = Inr m1" "Machine_ok m1" "mainMemory m1 = mainMemory m" "registers m1 0 = 0" by blast
  from Translate_ok [OF ok assms(2), of va True] show ?thesis
  proof (elim disjE exE conjE)
    fix ex
    assume "Translate m va sz True = Inr (Inl ex)" "ex \<noteq> NoException" "ex \<noteq> SyscallException"
    then show ?thesis using m1 by (simp add: WriteMem_def)
  next
    fix pa m'
    assume t: "Translate m va sz True = Inr (Inr (pa, m'))" "unat pa + sz \<le> MemorySize" "same_but_table m m'"
    then have "Machine_ok (m'\<lparr>mainMemory := f\<rparr>)" "registers (m'\<lparr>mainMemory := f\<rparr>) = registers m" for f
      using assms(1) by (auto simp: same_but_table_def Machine_ok_def load_ok_def)
    then show ?thesis using WriteMem_eq [OF t(1) assms(2) t(2), of v] by blast
  qed
qed

lemma WriteMem_Inr:
  assumes "WriteMem m va sz v = Inr (Inr m1)" "sz \<in> {1, 2, 4}"
  shows "\<exists>pa m'. Translate m va sz True = Inr (Inr (pa, m')) \<and> unat pa + sz \<le> MemorySize \<and>
    m1 = m'\<lparr>mainMemory := put_bytes (mainMemory m') (unat pa) (store_bytes sz v)\<rparr>"
proof -
  from assms obtain r where "Translate m va sz True = Inr r" by (auto simp: WriteMem_def bindR_eq_Inr)
  with assms(1) obtain pa m' where t: "Translate m va sz True = Inr (Inr (pa, m'))"
    by (cases r) (auto simp: WriteMem_def bindR_eq_Inr)
  from Translate_Inr [OF t] have b: "unat pa + sz \<le> MemorySize"
    using physAddr_bounds(1) [OF _ assms(2)] by auto
  with WriteMem_eq [OF t assms(2) b, of v] assms(1) t show ?thesis by auto
qed

text \<open>After a successful write translation, reading the same address finds the same frame.\<close>

lemma Translate_again:
  assumes t: "Translate m va sz True = Inr (Inr (pa, m'))"
  shows "\<exists>m2. Translate (m'\<lparr>mainMemory := f\<rparr>) va sz False = Inr (Inr (pa, m2)) \<and> mainMemory m2 = f"
proof -
  from Translate_Inr [OF t] obtain e put where e: "lookup_entry m (va div 128) = Inr (Inr (e, put))"
    "physicalPage e < 128" "pa = physicalPage e * 128 + va mod 128"
    "m' = put (e\<lparr>use_bit := True, dirty := True\<rparr>)"
    and al: "\<not> ((sz = 4 \<and> va AND 3 \<noteq> 0) \<or> (sz = 2 \<and> va AND 1 \<noteq> 0))"
    and one: "tlb m = None \<or> pageTable m = None" "tlb m \<noteq> None \<or> pageTable m \<noteq> None"
    and rng: "sint pa \<ge> 0" "sint pa + int sz \<le> int MemorySize" by auto
  let ?m = "m'\<lparr>mainMemory := f\<rparr>" and ?e = "e\<lparr>use_bit := True, dirty := True\<rparr>"
  have v: "valid e" using lookup_entry_Some [OF e(1)] by blast
  obtain put' where p: "lookup_entry ?m (va div 128) = Inr (Inr (?e, put'))"
    using lookup_entry_put [OF e(1), of ?e ?m] v e(4) by auto
  have one': "tlb ?m = None \<or> pageTable ?m = None" "tlb ?m \<noteq> None \<or> pageTable ?m \<noteq> None"
    using e(1,4) one by (auto simp: lookup_entry_def bindR_eq_Inr split: option.splits if_splits)
  have "Translate ?m va sz False = Inr (Inr (pa, put' (?e\<lparr>use_bit := True, dirty := dirty ?e \<or> False\<rparr>)))"
    unfolding Translate_unfold [OF al one'] p using e(2,3) rng by (simp add: Let_def not_le)
  moreover have "mainMemory (put' x) = f" for x
    using lookup_entry_Some [OF p, of x] by (simp add: same_but_table_def)
  ultimately show ?thesis by blast
qed

section \<open>Properties\<close>

text \<open>
  C15. Address translation is memory safe and keeps the page offset: on a well-formed
  machine, \<open>Machine::Translate\<close> of an access of 1, 2 or 4 bytes never fails one of its assertions
  and never reads outside the page table; it either reports an exception (never
  \<open>NoException\<close> or \<open>SyscallException\<close>) or yields a physical address such that the whole
  access lies inside main memory and has the offset of the virtual address; apart from the
  use and dirty bits of the page table or TLB nothing changes.
\<close>

theorem Translate_safe:
  assumes "mmu_ok m" "sz \<in> {1, 2, 4}"
  shows "(\<exists>ex. Translate m va sz writing = Inr (Inl ex) \<and> ex \<noteq> NoException \<and> ex \<noteq> SyscallException) \<or>
    (\<exists>pa m'. Translate m va sz writing = Inr (Inr (pa, m')) \<and> unat pa + sz \<le> MemorySize \<and>
       unat pa mod PageSize = unat va mod PageSize \<and> mmu_ok m' \<and>
       registers m' = registers m \<and> mainMemory m' = mainMemory m)"
  using Translate_ok [OF assms] assms(1) unfolding same_but_table_def PageSize_def by blast

definition one_page_machine :: Machine where
  "one_page_machine =
     \<lparr>registers = (\<lambda>_. 0), mainMemory = (\<lambda>_. 0), tlb = None,
      pageTable = Some [\<lparr>virtualPage = 0, physicalPage = 3, valid = True, readOnly = False,
                         use_bit = False, dirty = False\<rparr>],
      pageTableSize = 1, singleStep = False, runUntilTime = 0\<rparr>"

lemma one_page_ok: "Machine_ok one_page_machine"
  by (simp add: one_page_machine_def Machine_ok_def mmu_ok_def load_ok_def)

theorem Translate_safe_witness:
  "(\<exists>ex. Translate one_page_machine 8 4 True = Inr (Inl ex) \<and> ex \<noteq> NoException \<and> ex \<noteq> SyscallException) \<or>
   (\<exists>pa m'. Translate one_page_machine 8 4 True = Inr (Inr (pa, m')) \<and> unat pa + 4 \<le> MemorySize \<and>
      unat pa mod PageSize = unat (8 :: i32) mod PageSize \<and> mmu_ok m' \<and>
      registers m' = registers one_page_machine \<and> mainMemory m' = mainMemory one_page_machine)"
  by (rule Translate_safe) (use one_page_ok in \<open>auto simp: Machine_ok_def\<close>)

text \<open>
  C16. Memory behaves like memory: after a successful \<open>WriteMem\<close>, \<open>ReadMem\<close> at the same virtual
  address and size succeeds and returns the value written (its low byte sign-extended
  for one byte, its low half zero-extended for two), and no physical byte outside
  the accessed ones has changed.
\<close>

theorem WriteMem_ReadMem:
  assumes "WriteMem m va sz v = Inr (Inr m1)" "sz \<in> {1, 2, 4}"
  shows "(\<exists>m2. ReadMem m1 va sz = Inr (Inr (narrowed sz v, m2)) \<and> mainMemory m2 = mainMemory m1) \<and>
    (\<exists>pa. pa + sz \<le> MemorySize \<and>
       (\<forall>a. \<not> (pa \<le> a \<and> a < pa + sz) \<longrightarrow> mainMemory m1 a = mainMemory m a))"
proof -
  from WriteMem_Inr [OF assms] obtain pa m' where t: "Translate m va sz True = Inr (Inr (pa, m'))"
    "unat pa + sz \<le> MemorySize"
    and m1: "m1 = m'\<lparr>mainMemory := put_bytes (mainMemory m') (unat pa) (store_bytes sz v)\<rparr>" by blast
  obtain m2 where m2: "Translate m1 va sz False = Inr (Inr (pa, m2))"
    "mainMemory m2 = put_bytes (mainMemory m') (unat pa) (store_bytes sz v)"
    using Translate_again [OF t(1)] unfolding m1 by blast
  have "length (store_bytes sz v) = sz" using assms(2) by (auto simp: store_bytes_def)
  moreover have "mainMemory m' = mainMemory m"
    using Translate_Inr [OF t(1)] lookup_entry_Some by (fastforce simp: same_but_table_def)
  ultimately have "\<forall>a. \<not> (unat pa \<le> a \<and> a < unat pa + sz) \<longrightarrow> mainMemory m1 a = mainMemory m a"
    unfolding m1 by (auto simp: put_bytes_outside not_le not_less)
  moreover have "ReadMem m1 va sz = Inr (Inr (narrowed sz v, m2))"
    using ReadMem_eq [OF m2(1) assms(2) t(2)] load_store [OF assms(2)] m2(2) by simp
  ultimately show ?thesis using m2(2) m1 t(2) by auto
qed

theorem WriteMem_ReadMem_witness:
  "\<exists>m1 m2. WriteMem one_page_machine 8 4 0x12345678 = Inr (Inr m1) \<and>
     ReadMem m1 8 4 = Inr (Inr (0x12345678, m2))"
proof -
  obtain m1 where m1: "WriteMem one_page_machine 8 4 0x12345678 = Inr (Inr m1)"
    by (simp add: WriteMem_def Translate_def lookup_entry_def one_page_machine_def PageSize_def
        NumPhysPages_def MemorySize_def mem8_put_def aget_def Let_def)
  from WriteMem_ReadMem [OF m1] obtain m2 where
    "ReadMem m1 8 4 = Inr (Inr (narrowed 4 0x12345678, m2))" by auto
  with m1 show ?thesis by (auto simp: narrowed_def)
qed

end
