(* ===== verification/Nachos_Mips.thy ===== *)
theory Nachos_Mips
  imports Nachos_Machine
begin

text \<open>
  The MIPS simulator of \<open>machine/mipssim.h\<close> and \<open>machine/mipssim.cc\<close>: the opcode tables,
  \<open>Instruction::Decode\<close>, the double-word multiplication \<open>Mult\<close> and one instruction step,
  \<open>Machine::OneInstruction\<close>.

  The cases of the big \<open>switch\<close> are grouped into one definition per kind of instruction
  (arithmetic, branches and jumps, loads, logic and shifts, stores); each is written case by
  case in the order of the source. The simulator is built with \<open>SIM_FIX\<close>. Additions of
  signed registers wrap around, as the overflow tests of the source expect.

  The debugging output and the calls of the interactive debugger have no effect on the
  machine and are left out.
\<close>

section \<open>Opcodes and tables of machine/mipssim.h\<close>

datatype (plugins only:) opcode =
    OP_ADD | OP_ADDI | OP_ADDIU | OP_ADDU | OP_AND | OP_ANDI | OP_BEQ | OP_BGEZ | OP_BGEZAL
  | OP_BGTZ | OP_BLEZ | OP_BLTZ | OP_BLTZAL | OP_BNE | OP_DIV | OP_DIVU | OP_J | OP_JAL | OP_JALR
  | OP_JR | OP_LB | OP_LBU | OP_LH | OP_LHU | OP_LUI | OP_LW | OP_LWL | OP_LWR | OP_MFHI | OP_MFLO
  | OP_MTHI | OP_MTLO | OP_MULT | OP_MULTU | OP_NOR | OP_OR | OP_ORI | OP_RFE | OP_SB | OP_SH
  | OP_SLL | OP_SLLV | OP_SLT | OP_SLTI | OP_SLTIU | OP_SLTU | OP_SRA | OP_SRAV | OP_SRL | OP_SRLV
  | OP_SUB | OP_SUBU | OP_SW | OP_SWL | OP_SWR | OP_XOR | OP_XORI | OP_SYSCALL | OP_UNIMP | OP_RES
  | SPECIAL | BCOND

datatype op_format = IFMT | JFMT | RFMT

definition IndexToAddr :: "i32 \<Rightarrow> i32" where "IndexToAddr x = push_bit 2 x"

definition SIGN_BIT :: i32 where "SIGN_BIT = 0x80000000"

definition opTable :: "(opcode \<times> op_format) list" where
  "opTable = [
    (SPECIAL, RFMT), (BCOND, IFMT), (OP_J, JFMT), (OP_JAL, JFMT),
    (OP_BEQ, IFMT), (OP_BNE, IFMT), (OP_BLEZ, IFMT), (OP_BGTZ, IFMT),
    (OP_ADDI, IFMT), (OP_ADDIU, IFMT), (OP_SLTI, IFMT), (OP_SLTIU, IFMT),
    (OP_ANDI, IFMT), (OP_ORI, IFMT), (OP_XORI, IFMT), (OP_LUI, IFMT),
    (OP_UNIMP, IFMT), (OP_UNIMP, IFMT), (OP_UNIMP, IFMT), (OP_UNIMP, IFMT),
    (OP_RES, IFMT), (OP_RES, IFMT), (OP_RES, IFMT), (OP_RES, IFMT),
    (OP_RES, IFMT), (OP_RES, IFMT), (OP_RES, IFMT), (OP_RES, IFMT),
    (OP_RES, IFMT), (OP_RES, IFMT), (OP_RES, IFMT), (OP_RES, IFMT),
    (OP_LB, IFMT), (OP_LH, IFMT), (OP_LWL, IFMT), (OP_LW, IFMT),
    (OP_LBU, IFMT), (OP_LHU, IFMT), (OP_LWR, IFMT), (OP_RES, IFMT),
    (OP_SB, IFMT), (OP_SH, IFMT), (OP_SWL, IFMT), (OP_SW, IFMT),
    (OP_RES, IFMT), (OP_RES, IFMT), (OP_SWR, IFMT), (OP_RES, IFMT),
    (OP_UNIMP, IFMT), (OP_UNIMP, IFMT), (OP_UNIMP, IFMT), (OP_UNIMP, IFMT),
    (OP_RES, IFMT), (OP_RES, IFMT), (OP_RES, IFMT), (OP_RES, IFMT),
    (OP_UNIMP, IFMT), (OP_UNIMP, IFMT), (OP_UNIMP, IFMT), (OP_UNIMP, IFMT),
    (OP_RES, IFMT), (OP_RES, IFMT), (OP_RES, IFMT), (OP_RES, IFMT)]"

definition specialTable :: "opcode list" where
  "specialTable = [
    OP_SLL, OP_RES, OP_SRL, OP_SRA, OP_SLLV, OP_RES, OP_SRLV, OP_SRAV,
    OP_JR, OP_JALR, OP_RES, OP_RES, OP_SYSCALL, OP_UNIMP, OP_RES, OP_RES,
    OP_MFHI, OP_MTHI, OP_MFLO, OP_MTLO, OP_RES, OP_RES, OP_RES, OP_RES,
    OP_MULT, OP_MULTU, OP_DIV, OP_DIVU, OP_RES, OP_RES, OP_RES, OP_RES,
    OP_ADD, OP_ADDU, OP_SUB, OP_SUBU, OP_AND, OP_OR, OP_XOR, OP_NOR,
    OP_RES, OP_RES, OP_SLT, OP_SLTU, OP_RES, OP_RES, OP_RES, OP_RES,
    OP_RES, OP_RES, OP_RES, OP_RES, OP_RES, OP_RES, OP_RES, OP_RES,
    OP_RES, OP_RES, OP_RES, OP_RES, OP_RES, OP_RES, OP_RES, OP_RES]"

record Instruction =
  value_of :: u32
  opCode :: opcode
  rs_of :: nat
  rt_of :: nat
  rd_of :: nat
  extra :: i32

definition Decode :: "u32 \<Rightarrow> Instruction" where
  "Decode v =
     (let rs = unat (drop_bit 21 v AND 0x1f);
          rt = unat (drop_bit 16 v AND 0x1f);
          rd = unat (drop_bit 11 v AND 0x1f);
          (op, fmt) = opTable ! unat (drop_bit 26 v AND 0x3f);
          ext = (case fmt of
              IFMT \<Rightarrow> (let e = v AND 0xffff in if e AND 0x8000 \<noteq> 0 then e OR 0xffff0000 else e)
            | RFMT \<Rightarrow> drop_bit 6 v AND 0x1f
            | JFMT \<Rightarrow> v AND 0x3ffffff);
          op = (if op = SPECIAL then specialTable ! unat (v AND 0x3f)
                else if op = BCOND
                then (let i = v AND 0x1f0000 in
                      if i = 0 then OP_BLTZ
                      else if i = 0x10000 then OP_BGEZ
                      else if i = 0x100000 then OP_BLTZAL
                      else if i = 0x110000 then OP_BGEZAL
                      else OP_UNIMP)
                else op)
      in \<lparr>value_of = v, opCode = op, rs_of = rs, rt_of = rt, rd_of = rd, extra = ext\<rparr>)"

section \<open>Multiplication\<close>

text \<open>
  The loop of \<open>Mult\<close>, with \<open>n\<close> iterations left: the state is \<open>a\<close>, \<open>bHi\<close>, \<open>bLo\<close>, \<open>hi\<close>, \<open>lo\<close>, and
  the result is the pair of \<open>hi\<close> and \<open>lo\<close>.
\<close>

fun Mult_loop :: "nat \<Rightarrow> i32 \<Rightarrow> u32 \<Rightarrow> u32 \<Rightarrow> u32 \<Rightarrow> u32 \<Rightarrow> u32 \<times> u32" where
  "Mult_loop 0 a bHi bLo hi lo = (hi, lo)"
| "Mult_loop (Suc n) a bHi bLo hi lo =
     (let lo' = (if a AND 1 \<noteq> 0 then lo + bLo else lo);
          hi' = (if a AND 1 \<noteq> 0 then (if lo' < bLo then hi + 1 else hi) + bHi else hi)
      in if a AND 1 \<noteq> 0 \<and> a AND 0xfffffffe = 0 then (hi', lo')
         else let bHi' = push_bit 1 bHi;
                  bHi' = (if bLo AND 0x80000000 \<noteq> 0 then bHi' OR 1 else bHi')
              in Mult_loop n (signed_drop_bit 1 a) bHi' (push_bit 1 bLo) hi' lo')"

definition Mult :: "i32 \<Rightarrow> i32 \<Rightarrow> bool \<Rightarrow> i32 \<times> i32" where
  "Mult a b signedArith =
     (if a = 0 \<or> b = 0 then (0, 0)
      else let negA = signedArith \<and> sint a < 0;
               negB = signedArith \<and> sint b < 0;
               negative = (negA \<noteq> negB);
               a = (if negA then - a else a);
               b = (if negB then - b else b);
               (hi, lo) = Mult_loop 32 a 0 b 0 0
           in if negative
              then let hi = NOT hi; lo = NOT lo; lo = lo + 1
                   in (if lo = 0 then hi + 1 else hi, lo)
              else (hi, lo))"

section \<open>One instruction\<close>

text \<open>
  The effect of a case of the \<open>switch\<close>: the machine after it with the local variables
  \<open>pcAfter\<close>, \<open>nextLoadReg\<close> and \<open>nextLoadValue\<close>, or a trap to the kernel. A group returns
  \<open>None\<close> for an opcode it has no case for.
\<close>

datatype outcome =
    Done Machine i32 i32 i32
  | Trap ExceptionType Machine

definition raise :: "ExceptionType \<Rightarrow> i32 \<Rightarrow> Machine \<Rightarrow> outcome res" where
  "raise ex bad m = bindR (RaiseException m bad) (\<lambda>m. Inr (Trap ex m))"

definition set_done :: "Machine \<Rightarrow> nat \<Rightarrow> i32 \<Rightarrow> i32 \<Rightarrow> outcome res" where
  "set_done m n v pcAfter = Inr (Done (setReg m n v) pcAfter 0 0)"

definition exec_add_and :: "Instruction \<Rightarrow> Machine \<Rightarrow> i32 \<Rightarrow> outcome res option" where
  "exec_add_and i m pcAfter =
     (let rs = registers m (rs_of i); rt = registers m (rt_of i); ext = extra i in
      if opCode i = OP_ADD then
        Some (let sum = rs + rt in
              if (rs XOR rt) AND SIGN_BIT = 0 \<and> (rs XOR sum) AND SIGN_BIT \<noteq> 0
              then raise OverflowException 0 m
              else set_done m (rd_of i) sum pcAfter)
      else if opCode i = OP_ADDI then
        Some (let sum = rs + ext in
              if (rs XOR ext) AND SIGN_BIT = 0 \<and> (ext XOR sum) AND SIGN_BIT \<noteq> 0
              then raise OverflowException 0 m
              else set_done m (rt_of i) sum pcAfter)
      else if opCode i = OP_ADDIU then Some (set_done m (rt_of i) (rs + ext) pcAfter)
      else if opCode i = OP_ADDU then Some (set_done m (rd_of i) (rs + rt) pcAfter)
      else if opCode i = OP_AND then Some (set_done m (rd_of i) (rs AND rt) pcAfter)
      else if opCode i = OP_ANDI then Some (set_done m (rt_of i) (rs AND (ext AND 0xffff)) pcAfter)
      else None)"

definition exec_branch :: "Instruction \<Rightarrow> Machine \<Rightarrow> i32 \<Rightarrow> outcome res option" where
  "exec_branch i m pcAfter =
     (let rs = registers m (rs_of i); rt = registers m (rt_of i);
          target = registers m NextPCReg + IndexToAddr (extra i);
          link = setReg m 31 (registers m NextPCReg + 4);
          branch = (\<lambda>m c. Some (Inr (Done m (if c then target else pcAfter) 0 0)))
      in
      if opCode i = OP_BEQ then branch m (rs = rt)
      else if opCode i = OP_BGEZAL then branch link (registers link (rs_of i) AND SIGN_BIT = 0)
      else if opCode i = OP_BGEZ then branch m (rs AND SIGN_BIT = 0)
      else if opCode i = OP_BGTZ then branch m (sint rs > 0)
      else if opCode i = OP_BLEZ then branch m (sint rs \<le> 0)
      else if opCode i = OP_BLTZAL then branch link (registers link (rs_of i) AND SIGN_BIT \<noteq> 0)
      else if opCode i = OP_BLTZ then branch m (rs AND SIGN_BIT \<noteq> 0)
      else if opCode i = OP_BNE then branch m (rs \<noteq> rt)
      else None)"

definition exec_div_jump :: "Instruction \<Rightarrow> Machine \<Rightarrow> i32 \<Rightarrow> outcome res option" where
  "exec_div_jump i m pcAfter =
     (let rs = registers m (rs_of i); rt = registers m (rt_of i);
          hilo = (\<lambda>lo hi. Inr (Done (setReg (setReg m LoReg lo) HiReg hi) pcAfter 0 0));
          jump = (pcAfter AND 0xf0000000) OR IndexToAddr (extra i);
          link = registers m NextPCReg + 4
      in
      if opCode i = OP_DIV then
        Some (if rt = 0 then hilo 0 0
              else if sint rs = - (2 ^ 31) \<and> sint rt = - 1 then Inl DivideTrap
              else hilo (word_of_int (sint rs sdiv sint rt)) (word_of_int (sint rs smod sint rt)))
      else if opCode i = OP_DIVU then
        Some (if rt = 0 then hilo 0 0 else hilo (rs div rt) (rs mod rt))
      else if opCode i = OP_JAL then Some (Inr (Done (setReg m 31 link) jump 0 0))
      else if opCode i = OP_J then Some (Inr (Done m jump 0 0))
      else if opCode i = OP_JALR then
        (let m = setReg m (rd_of i) link in Some (Inr (Done m (registers m (rs_of i)) 0 0)))
      else if opCode i = OP_JR then Some (Inr (Done m rs 0 0))
      else None)"

text \<open>\<open>if (!ReadMem(addr, size, &value)) return;\<close> and what follows it, and the same for \<open>WriteMem\<close>.\<close>

definition do_load :: "Machine \<Rightarrow> i32 \<Rightarrow> nat \<Rightarrow> (i32 \<Rightarrow> Machine \<Rightarrow> outcome res) \<Rightarrow> outcome res" where
  "do_load m addr sz k = bindR (ReadMem m addr sz) (\<lambda>r. case r of
     Inl (ex, m) \<Rightarrow> Inr (Trap ex m) | Inr (v, m) \<Rightarrow> k v m)"

definition do_store :: "Machine \<Rightarrow> i32 \<Rightarrow> nat \<Rightarrow> i32 \<Rightarrow> i32 \<Rightarrow> outcome res" where
  "do_store m addr sz v pcAfter = bindR (WriteMem m addr sz v) (\<lambda>r. case r of
     Inl (ex, m) \<Rightarrow> Inr (Trap ex m) | Inr m \<Rightarrow> Inr (Done m pcAfter 0 0))"

definition exec_load :: "Instruction \<Rightarrow> Machine \<Rightarrow> i32 \<Rightarrow> outcome res option" where
  "exec_load i m pcAfter =
     (let tmp = registers m (rs_of i) + extra i;
          load = (\<lambda>v m. Inr (Done m pcAfter (of_nat (rt_of i)) v))
      in
      if opCode i = OP_LB \<or> opCode i = OP_LBU then
        Some (do_load m tmp 1 (\<lambda>v m.
          load (if v AND 0x80 \<noteq> 0 \<and> opCode i = OP_LB then v OR 0xffffff00 else v AND 0xff) m))
      else if opCode i = OP_LH \<or> opCode i = OP_LHU then
        Some (if tmp AND 1 \<noteq> 0 then raise AddressErrorException tmp m
              else do_load m tmp 2 (\<lambda>v m.
                load (if v AND 0x8000 \<noteq> 0 \<and> opCode i = OP_LH then v OR 0xffff0000 else v AND 0xffff) m))
      else if opCode i = OP_LUI then Some (set_done m (rt_of i) (push_bit 16 (extra i)) pcAfter)
      else if opCode i = OP_LW then
        Some (if tmp AND 3 \<noteq> 0 then raise AddressErrorException tmp m
              else do_load m tmp 4 load)
      else None)"

text \<open>The merges of the unaligned loads and stores, by \<open>3 - byte\<close>.\<close>

definition lwl_merge :: "nat \<Rightarrow> i32 \<Rightarrow> i32 \<Rightarrow> i32" where
  "lwl_merge k old v =
     (if k = 0 then v
      else if k = 1 then (old AND 0xff) OR push_bit 8 v
      else if k = 2 then (old AND 0xffff) OR push_bit 16 v
      else (old AND 0xffffff) OR push_bit 24 v)"

definition lwr_merge :: "nat \<Rightarrow> i32 \<Rightarrow> i32 \<Rightarrow> i32" where
  "lwr_merge k old v =
     (if k = 0 then (old AND 0xffffff00) OR (signed_drop_bit 24 v AND 0xff)
      else if k = 1 then (old AND 0xffff0000) OR (signed_drop_bit 16 v AND 0xffff)
      else if k = 2 then (old AND 0xff000000) OR (signed_drop_bit 8 v AND 0xffffff)
      else v)"

definition swl_merge :: "nat \<Rightarrow> i32 \<Rightarrow> i32 \<Rightarrow> i32" where
  "swl_merge k reg v =
     (if k = 0 then reg
      else if k = 1 then (v AND 0xff000000) OR (signed_drop_bit 8 reg AND 0xffffff)
      else if k = 2 then (v AND 0xffff0000) OR (signed_drop_bit 16 reg AND 0xffff)
      else (v AND 0xffffff00) OR (signed_drop_bit 24 reg AND 0xff))"

definition swr_merge :: "nat \<Rightarrow> i32 \<Rightarrow> i32 \<Rightarrow> i32" where
  "swr_merge k reg v =
     (if k = 0 then (v AND 0xffffff) OR push_bit 24 reg
      else if k = 1 then (v AND 0xffff) OR push_bit 16 reg
      else if k = 2 then (v AND 0xff) OR push_bit 8 reg
      else reg)"

definition exec_lwl_lwr :: "Instruction \<Rightarrow> Machine \<Rightarrow> i32 \<Rightarrow> outcome res option" where
  "exec_lwl_lwr i m pcAfter =
     (let tmp = registers m (rs_of i) + extra i; byte = tmp AND 3;
          load = (\<lambda>merge. do_load m (tmp - byte) 4 (\<lambda>v m.
            let old = (if registers m LoadReg = of_nat (rt_of i) then registers m LoadValueReg
                       else registers m (rt_of i))
            in Inr (Done m pcAfter (of_nat (rt_of i)) (merge (unat (3 - byte)) old v))))
      in
      if opCode i = OP_LWL then Some (load lwl_merge)
      else if opCode i = OP_LWR then Some (load lwr_merge)
      else None)"

definition exec_hilo_or :: "Instruction \<Rightarrow> Machine \<Rightarrow> i32 \<Rightarrow> outcome res option" where
  "exec_hilo_or i m pcAfter =
     (let rs = registers m (rs_of i); rt = registers m (rt_of i); ext = extra i;
          mult = (\<lambda>signedArith. let (hi, lo) = Mult rs rt signedArith
                  in Inr (Done (setReg (setReg m HiReg hi) LoReg lo) pcAfter 0 0))
      in
      if opCode i = OP_MFHI then Some (set_done m (rd_of i) (registers m HiReg) pcAfter)
      else if opCode i = OP_MFLO then Some (set_done m (rd_of i) (registers m LoReg) pcAfter)
      else if opCode i = OP_MTHI then Some (set_done m HiReg rs pcAfter)
      else if opCode i = OP_MTLO then Some (set_done m LoReg rs pcAfter)
      else if opCode i = OP_MULT then Some (mult True)
      else if opCode i = OP_MULTU then Some (mult False)
      else if opCode i = OP_NOR then Some (set_done m (rd_of i) (NOT (rs OR rt)) pcAfter)
      else if opCode i = OP_OR then Some (set_done m (rd_of i) (rs OR rt) pcAfter)
      else if opCode i = OP_ORI then Some (set_done m (rt_of i) (rs OR (ext AND 0xffff)) pcAfter)
      else None)"

definition exec_store_shift :: "Instruction \<Rightarrow> Machine \<Rightarrow> i32 \<Rightarrow> outcome res option" where
  "exec_store_shift i m pcAfter =
     (let rs = registers m (rs_of i); rt = registers m (rt_of i); ext = extra i;
          put = (\<lambda>n v. Some (set_done m n v pcAfter));
          sham = unat (rs AND 0x1f)
      in
      if opCode i = OP_SB then Some (do_store m (rs + ext) 1 rt pcAfter)
      else if opCode i = OP_SH then Some (do_store m (rs + ext) 2 rt pcAfter)
      else if opCode i = OP_SLL then put (rd_of i) (push_bit (unat ext) rt)
      else if opCode i = OP_SLLV then put (rd_of i) (push_bit sham rt)
      else if opCode i = OP_SLT then put (rd_of i) (if sint rs < sint rt then 1 else 0)
      else if opCode i = OP_SLTI then put (rt_of i) (if sint rs < sint ext then 1 else 0)
      else if opCode i = OP_SLTIU then put (rt_of i) (if rs < ext then 1 else 0)
      else if opCode i = OP_SLTU then put (rd_of i) (if rs < rt then 1 else 0)
      else if opCode i = OP_SRA then put (rd_of i) (signed_drop_bit (unat ext) rt)
      else if opCode i = OP_SRAV then put (rd_of i) (signed_drop_bit sham rt)
      else if opCode i = OP_SRL then put (rd_of i) (signed_drop_bit (unat ext) rt)
      else if opCode i = OP_SRLV then put (rd_of i) (signed_drop_bit sham rt)
      else if opCode i = OP_SUB then
        Some (let diff = rs - rt in
              if (rs XOR rt) AND SIGN_BIT \<noteq> 0 \<and> (rs XOR diff) AND SIGN_BIT \<noteq> 0
              then raise OverflowException 0 m
              else set_done m (rd_of i) diff pcAfter)
      else if opCode i = OP_SUBU then put (rd_of i) (rs - rt)
      else if opCode i = OP_SW then Some (do_store m (rs + ext) 4 rt pcAfter)
      else None)"

definition exec_swl_swr :: "Instruction \<Rightarrow> Machine \<Rightarrow> i32 \<Rightarrow> outcome res option" where
  "exec_swl_swr i m pcAfter =
     (let tmp = registers m (rs_of i) + extra i; byte = tmp AND 3;
          store = (\<lambda>merge. do_load m (tmp - byte) 4 (\<lambda>v m.
            do_store m (tmp - byte) 4 (merge (unat (3 - byte)) (registers m (rt_of i)) v) pcAfter))
      in
      if opCode i = OP_SWL then Some (store swl_merge)
      else if opCode i = OP_SWR then Some (store swr_merge)
      else None)"

definition exec_rest :: "Instruction \<Rightarrow> Machine \<Rightarrow> i32 \<Rightarrow> outcome res" where
  "exec_rest i m pcAfter =
     (let rs = registers m (rs_of i); rt = registers m (rt_of i) in
      if opCode i = OP_SYSCALL then raise SyscallException 0 m
      else if opCode i = OP_XOR then set_done m (rd_of i) (rs XOR rt) pcAfter
      else if opCode i = OP_XORI then set_done m (rt_of i) (rs XOR (extra i AND 0xffff)) pcAfter
      else if opCode i = OP_RES \<or> opCode i = OP_UNIMP then raise IllegalInstrException 0 m
      else Inl AssertFailed)"

fun first_case :: "('a res) option list \<Rightarrow> 'a res \<Rightarrow> 'a res" where
  "first_case [] d = d"
| "first_case (Some r # cs) d = r"
| "first_case (None # cs) d = first_case cs d"

definition execute :: "Instruction \<Rightarrow> Machine \<Rightarrow> i32 \<Rightarrow> outcome res" where
  "execute i m pcAfter =
     first_case [exec_add_and i m pcAfter, exec_branch i m pcAfter, exec_div_jump i m pcAfter,
       exec_load i m pcAfter, exec_lwl_lwr i m pcAfter, exec_hilo_or i m pcAfter,
       exec_store_shift i m pcAfter, exec_swl_swr i m pcAfter] (exec_rest i m pcAfter)"

text \<open>\<open>Inl\<close>: the instruction trapped; \<open>Inr\<close>: it was executed and the program counters advanced.\<close>

definition OneInstruction :: "Machine \<Rightarrow> (ExceptionType \<times> Machine + Machine) res" where
  "OneInstruction m =
     bindR (ReadMem m (registers m PCReg) 4) (\<lambda>r. case r of
       Inl (ex, m) \<Rightarrow> Inr (Inl (ex, m))
     | Inr (raw, m) \<Rightarrow>
         bindR (execute (Decode raw) m (registers m NextPCReg + 4)) (\<lambda>out. case out of
           Trap ex m \<Rightarrow> Inr (Inl (ex, m))
         | Done m pcAfter nextLoadReg nextLoadValue \<Rightarrow>
             bindR (DelayedLoad m nextLoadReg nextLoadValue) (\<lambda>m.
             let m = setReg m PrevPCReg (registers m PCReg);
                 m = setReg m PCReg (registers m NextPCReg)
             in Inr (Inr (setReg m NextPCReg pcAfter)))))"

section \<open>Multiplication is correct\<close>

text \<open>
  The loop computes in pairs of 32-bit words; \<open>w64\<close> reads a pair as one 64-bit word, in which
  the steps of the loop are ring operations.
\<close>

definition w64 :: "u32 \<Rightarrow> u32 \<Rightarrow> 64 word" where
  "w64 hi lo = word_of_int (uint hi * 2 ^ 32 + uint lo)"

lemma word_of_int_64_mod: "(word_of_int (x + y * 2 ^ 64) :: 64 word) = word_of_int x"
  unfolding word_of_int_eq_iff by (simp add: take_bit_eq_mod)

lemma hi_cong: "(word_of_int (uint (word_of_int h :: u32) * 2 ^ 32 + l) :: 64 word) = word_of_int (h * 2 ^ 32 + l)"
proof -
  have "uint (word_of_int h :: u32) = h - (h div 2 ^ 32) * 2 ^ 32"
    by (simp add: uint_word_of_int minus_div_mult_eq_mod)
  then have "h * 2 ^ 32 + l = (uint (word_of_int h :: u32) * 2 ^ 32 + l) + (h div 2 ^ 32) * 2 ^ 64"
    by (simp add: algebra_simps)
  then show ?thesis by (simp only: word_of_int_64_mod)
qed

lemma w64_add_carry:
  "w64 ((if lo + bLo < bLo then hi + 1 else hi) + bHi) (lo + bLo) = w64 hi lo + w64 bHi bLo"
proof -
  let ?c = "if lo + bLo < bLo then 1 else 0 :: int"
  have lo: "uint (lo + bLo) = uint lo + uint bLo - ?c * 2 ^ 32"
    using add_mod_carry [of "uint lo" "2 ^ 32" "uint bLo"] uint_lt2p [of lo] uint_lt2p [of bLo]
    by (simp add: word_less_def uint_word_ariths)
  have "(if lo + bLo < bLo then hi + 1 else hi) + bHi = word_of_int (uint hi + ?c + uint bHi)"
    by simp
  then have "w64 ((if lo + bLo < bLo then hi + 1 else hi) + bHi) (lo + bLo) =
      word_of_int ((uint hi + ?c + uint bHi) * 2 ^ 32 + uint (lo + bLo))"
    unfolding w64_def by (simp only: hi_cong)
  also have "\<dots> = word_of_int ((uint hi * 2 ^ 32 + uint lo) + (uint bHi * 2 ^ 32 + uint bLo))"
    unfolding lo by (simp add: algebra_simps)
  finally show ?thesis unfolding w64_def by (simp only: wi_hom_add)
qed


lemma uint_double: "uint (push_bit 1 (w :: u32)) = 2 * uint w - (if bit w 31 then 2 ^ 32 else 0)"
proof -
  have "uint (push_bit 1 w) = (uint w + uint w) mod 2 ^ 32"
    by (simp add: push_bit_eq_mult uint_word_ariths mult.commute)
  then show ?thesis
    using add_mod_carry [of "uint w" "2 ^ 32" "uint w"] uint_lt2p [of w] bit31_uint [of w] by simp
qed

lemma w64_double:
  "w64 (if bLo AND 0x80000000 \<noteq> 0 then push_bit 1 bHi OR 1 else push_bit 1 bHi) (push_bit 1 bLo) =
     2 * w64 bHi bLo"
proof -
  let ?c = "if bit bLo 31 then 1 else 0 :: int"
  have "bLo AND 0x80000000 \<noteq> 0 \<longleftrightarrow> bit bLo 31" by (simp add: and_sign_bit bit31_sint not_le)
  then have hi: "(if bLo AND 0x80000000 \<noteq> 0 then push_bit 1 bHi OR 1 else push_bit 1 bHi) =
      word_of_int (2 * uint bHi + ?c)"
    by (simp add: push_bit_eq_mult or_one_eq)
  have "w64 (word_of_int (2 * uint bHi + ?c)) (push_bit 1 bLo) =
      word_of_int ((2 * uint bHi + ?c) * 2 ^ 32 + uint (push_bit 1 bLo))"
    unfolding w64_def by (simp only: hi_cong)
  also have "\<dots> = word_of_int (2 * (uint bHi * 2 ^ 32 + uint bLo))"
    unfolding uint_double by (simp add: algebra_simps)
  finally show ?thesis unfolding hi w64_def by (simp only: wi_hom_mult [symmetric]) simp
qed

lemma take_bit_half:
  "n \<le> 31 \<Longrightarrow> take_bit (Suc n) (uint (a :: i32)) =
     (if a AND 1 \<noteq> 0 then 1 else 0) + 2 * take_bit n (uint (signed_drop_bit 1 a))"
proof -
  assume n: "n \<le> 31"
  have "take_bit n (uint (signed_drop_bit 1 a)) = take_bit n (uint a div 2)"
    using n by (intro bit_eqI) (auto simp: bit_take_bit_iff bit_uint_iff bit_signed_drop_bit_iff
        simp flip: drop_bit_Suc drop_bit_eq_div [of 1, simplified] simp: bit_drop_bit_eq)
  moreover have "odd (uint a) \<longleftrightarrow> a AND 1 \<noteq> 0"
    using bit_uint_iff [of a 0] and_exp_eq_0_iff_not_bit [of a 0] by (simp add: bit_0)
  ultimately show ?thesis by (simp add: take_bit_Suc odd_iff_mod_2_eq_one mod2_eq_if)
qed

lemma take_bit_one:
  assumes "a AND 1 \<noteq> 0" "(a :: i32) AND 0xfffffffe = 0"
  shows "a = 1"
proof (rule bit_word_eqI)
  fix n assume "n < LENGTH(32)"
  then have n: "n < 32" by simp
  have e: "(0xfffffffe :: i32) = NOT 1" by simp
  have "bit (a AND NOT 1) n = False" using assms(2) unfolding e by simp
  moreover have "bit a 0" using assms(1) and_exp_eq_0_iff_not_bit [of a 0] by simp
  ultimately show "bit a n = bit 1 n" using n by (cases n) (auto simp: bit_simps)
qed

lemma Mult_loop_correct:
  "n \<le> 32 \<Longrightarrow> Mult_loop n a bHi bLo hi lo = (h, l) \<Longrightarrow>
     w64 h l = w64 hi lo + w64 bHi bLo * word_of_int (take_bit n (uint a))"
proof (induction n arbitrary: a bHi bLo hi lo)
  case 0
  then show ?case by simp
next
  case (Suc n)
  define lo' where "lo' = (if a AND 1 \<noteq> 0 then lo + bLo else lo)"
  define hi' where "hi' = (if a AND 1 \<noteq> 0 then (if lo' < bLo then hi + 1 else hi) + bHi else hi)"
  define bHi' where "bHi' = (if bLo AND 0x80000000 \<noteq> 0 then push_bit 1 bHi OR 1 else push_bit 1 bHi)"
  define d where "d = (if a AND 1 \<noteq> 0 then 1 else 0 :: int)"
  have acc: "w64 hi' lo' = w64 hi lo + w64 bHi bLo * word_of_int d"
    using w64_add_carry [of lo bLo hi bHi] by (simp add: hi'_def lo'_def d_def)
  have dbl: "w64 bHi' (push_bit 1 bLo) = 2 * w64 bHi bLo"
    unfolding bHi'_def by (rule w64_double)
  have half: "take_bit (Suc n) (uint a) = d + 2 * take_bit n (uint (signed_drop_bit 1 a))"
    unfolding d_def using Suc.prems(1) by (intro take_bit_half) simp
  show ?case
  proof (cases "a AND 1 \<noteq> 0 \<and> a AND 0xfffffffe = 0")
    case True
    then have "a = 1" using take_bit_one by blast
    then have "take_bit (Suc n) (uint a) = 1" "d = 1" by (simp_all add: d_def)
    moreover have "(h, l) = (hi', lo')"
      using True Suc.prems(2) by (auto simp: Let_def hi'_def lo'_def)
    ultimately show ?thesis using acc by simp
  next
    case False
    then have "Mult_loop n (signed_drop_bit 1 a) bHi' (push_bit 1 bLo) hi' lo' = (h, l)"
      using Suc.prems(2) unfolding hi'_def lo'_def bHi'_def by (simp only: Mult_loop.simps Let_def if_False)
    from Suc.IH [OF _ this] Suc.prems(1) show ?thesis
      unfolding acc dbl half by (simp add: algebra_simps)
  qed
qed

lemma Mult_loop_32:
  assumes "Mult_loop 32 a 0 b 0 0 = (h, l)"
  shows "w64 h l = word_of_int (uint a * uint b)"
proof -
  have "take_bit 32 (uint a) = uint a" using uint_lt2p [of a] by (intro take_bit_int_eq_self) auto
  with Mult_loop_correct [OF _ assms] show ?thesis
    by (simp add: w64_def mult.commute)
qed

lemma uint_magnitude: "uint (if sint (a :: i32) < 0 then - a else a) = \<bar>sint a\<bar>"
  using uint_lt2p [of a] by (auto simp: sint_if uint_neg)

lemma w64_negate:
  "w64 (if NOT lo + 1 = 0 then NOT hi + 1 else NOT hi) (NOT lo + 1) = - w64 hi lo"
proof -
  have lo: "NOT lo + 1 = - lo" by (simp add: not_eq_complement)
  have hi: "(if NOT lo + 1 = 0 then NOT hi + 1 else NOT hi) =
      word_of_int (- uint hi - 1 + (if lo = 0 then 1 else 0))"
    by (simp add: lo not_eq_complement)
  have "w64 (if NOT lo + 1 = 0 then NOT hi + 1 else NOT hi) (NOT lo + 1) =
      word_of_int ((- uint hi - 1 + (if lo = 0 then 1 else 0)) * 2 ^ 32 + uint (- lo))"
    unfolding w64_def hi unfolding lo by (simp only: hi_cong)
  also have "\<dots> = word_of_int (- (uint hi * 2 ^ 32 + uint lo))"
    unfolding uint_neg by (simp add: algebra_simps)
  finally show ?thesis unfolding w64_def by simp
qed

lemma Mult_w64:
  assumes "Mult a b s = (h, l)"
  shows "w64 h l = (if s then word_of_int (sint a * sint b) else word_of_int (uint a * uint b))"
proof (cases "a = 0 \<or> b = 0")
  case True
  then show ?thesis using assms by (auto simp: Mult_def w64_def)
next
  case nz: False
  define a' where "a' = (if s \<and> sint a < 0 then - a else a)"
  define b' where "b' = (if s \<and> sint b < 0 then - b else b)"
  obtain hi lo where hl: "Mult_loop 32 a' 0 b' 0 0 = (hi, lo)" by (cases "Mult_loop 32 a' 0 b' 0 0")
  have w: "w64 hi lo = word_of_int (uint a' * uint b')" by (rule Mult_loop_32 [OF hl])
  have res: "(h, l) = (if (s \<and> sint a < 0) \<noteq> (s \<and> sint b < 0)
      then (if NOT lo + 1 = 0 then NOT hi + 1 else NOT hi, NOT lo + 1) else (hi, lo))"
    using assms nz hl by (auto simp: Mult_def Let_def a'_def b'_def split: if_splits)
  show ?thesis
  proof (cases s)
    case False
    then show ?thesis using res w by (simp add: a'_def b'_def)
  next
    case True
    then have u: "uint a' = \<bar>sint a\<bar>" "uint b' = \<bar>sint b\<bar>"
      using uint_magnitude [of a] uint_magnitude [of b] by (simp_all add: a'_def b'_def)
    show ?thesis
    proof (cases "(sint a < 0) = (sint b < 0)")
      case True
      then have "\<bar>sint a\<bar> * \<bar>sint b\<bar> = sint a * sint b" by (auto simp: abs_if)
      then show ?thesis using \<open>s\<close> True res w u by simp
    next
      case False
      then have "\<bar>sint a\<bar> * \<bar>sint b\<bar> = - (sint a * sint b)" by (auto simp: abs_if)
      moreover have "w64 h l = - w64 hi lo"
        using \<open>s\<close> False res w64_negate [of lo hi] by simp
      ultimately show ?thesis using \<open>s\<close> w unfolding u by (simp only: of_int_minus minus_minus if_True)
    qed
  qed
qed

lemma Mult_unsigned:
  assumes "Mult a b False = (h, l)"
  shows "uint h * 2 ^ 32 + uint l = uint a * uint b"
proof -
  have eq: "(word_of_int (uint h * 2 ^ 32 + uint l) :: 64 word) = word_of_int (uint a * uint b)"
    using Mult_w64 [OF assms] by (simp only: w64_def if_False)
  have "uint a * uint b \<le> (2 ^ 32 - 1) * (2 ^ 32 - 1)"
    using uint_lt2p [of a] uint_lt2p [of b] by (intro mult_mono) auto
  then have "uint a * uint b < 2 ^ 64" by simp
  moreover have "uint h * 2 ^ 32 + uint l < 2 ^ 64"
    using uint_lt2p [of h] uint_lt2p [of l] by simp
  ultimately show ?thesis
    using eq unfolding word_of_int_eq_iff by (simp add: take_bit_int_eq_self)
qed

lemma Mult_signed:
  assumes "Mult a b True = (h, l)"
  shows "sint h * 2 ^ 32 + uint l = sint a * sint b"
proof -
  have "(word_of_int (sint h * 2 ^ 32 + uint l) :: 64 word) =
      word_of_int (uint (word_of_int (sint h) :: u32) * 2 ^ 32 + uint l)" by (simp only: hi_cong)
  also have "\<dots> = word_of_int (sint a * sint b)"
    using Mult_w64 [OF assms] by (simp only: w64_def of_int_sint scast_id if_True)
  finally have eq: "signed_take_bit 63 (sint h * 2 ^ 32 + uint l) = signed_take_bit 63 (sint a * sint b)"
    unfolding word_of_int_eq_iff by (simp add: signed_take_bit_eq_iff_take_bit_eq)
  have "\<bar>sint a * sint b\<bar> \<le> 2 ^ 31 * 2 ^ 31"
    unfolding abs_mult using sint_bound [of a] sint_bound [of b] by (intro mult_mono) auto
  then have "signed_take_bit 63 (sint a * sint b) = sint a * sint b"
    by (intro signed_take_bit_int_eq_self) auto
  moreover have "signed_take_bit 63 (sint h * 2 ^ 32 + uint l) = sint h * 2 ^ 32 + uint l"
  proof (intro signed_take_bit_int_eq_self)
    have b: "- 2147483648 \<le> sint h" "sint h < 2147483648" "0 \<le> uint l" "uint l < 4294967296"
      using sint_bound [of h] uint_lt2p [of l] by simp_all
    then have "- 9223372036854775808 \<le> sint h * 4294967296 + uint l"
      "sint h * 4294967296 + uint l < 9223372036854775808" by linarith+
    then show "- (2 ^ 63) \<le> sint h * 2 ^ 32 + uint l" "sint h * 2 ^ 32 + uint l < 2 ^ 63" by simp_all
  qed
  ultimately show ?thesis using eq by simp
qed
section \<open>The overflow tests\<close>

definition fits :: "int \<Rightarrow> bool" where
  "fits x \<longleftrightarrow> - (2 ^ 31) \<le> x \<and> x < 2 ^ 31"

lemma add_overflow_test:
  "((a XOR b) AND SIGN_BIT = 0 \<and> (a XOR (a + b)) AND SIGN_BIT \<noteq> 0) \<longleftrightarrow> \<not> fits (sint a + sint (b :: i32))"
  unfolding SIGN_BIT_def xor_sign fits_def sint_add using sint_bound [of a] sint_bound [of b] by auto

lemma add_overflow_test':
  "((a XOR b) AND SIGN_BIT = 0 \<and> (b XOR (a + b)) AND SIGN_BIT \<noteq> 0) \<longleftrightarrow> \<not> fits (sint a + sint (b :: i32))"
  unfolding SIGN_BIT_def xor_sign fits_def sint_add using sint_bound [of a] sint_bound [of b] by auto

lemma sub_overflow_test:
  "((a XOR b) AND SIGN_BIT \<noteq> 0 \<and> (a XOR (a - b)) AND SIGN_BIT \<noteq> 0) \<longleftrightarrow> \<not> fits (sint a - sint (b :: i32))"
  unfolding SIGN_BIT_def xor_sign fits_def sint_diff using sint_bound [of a] sint_bound [of b] by auto

section \<open>Decoding\<close>

lemma unat_and_less: "unat ((w :: u32) AND mask n) < 2 ^ n"
proof -
  have "w AND mask n = take_bit n w" by (simp add: take_bit_eq_mask)
  then have "unat (w AND mask n) = take_bit n (unat w)" by (simp only: unsigned_take_bit_eq)
  then show ?thesis by simp
qed

lemma Decode_registers: "rs_of (Decode v) < 32" "rt_of (Decode v) < 32" "rd_of (Decode v) < 32"
proof -
  have "(0x1f :: u32) = mask 5" by (simp add: mask_eq_exp_minus_1)
  then have "unat ((w :: u32) AND 0x1f) < 32" for w using unat_and_less [of w 5] by simp
  then show "rs_of (Decode v) < 32" "rt_of (Decode v) < 32" "rd_of (Decode v) < 32"
    by (simp_all add: Decode_def Let_def split_beta)
qed

lemma opTable_entries: "\<forall>e\<in>set opTable. fst e \<noteq> OP_RFE"
  by (simp add: opTable_def)

lemma specialTable_entries: "\<forall>op\<in>set specialTable. op \<noteq> OP_RFE \<and> op \<noteq> SPECIAL \<and> op \<noteq> BCOND"
  by (simp add: specialTable_def)

lemma Decode_opCode:
  "opCode (Decode v) \<noteq> SPECIAL" "opCode (Decode v) \<noteq> BCOND" "opCode (Decode v) \<noteq> OP_RFE"
proof -
  have m: "(0x3f :: u32) = mask 6" by (simp add: mask_eq_exp_minus_1)
  then have "unat ((w :: u32) AND 0x3f) < 64" for w using unat_and_less [of w 6] by simp
  moreover have "length opTable = 64" "length specialTable = 64"
    by (simp_all add: opTable_def specialTable_def)
  ultimately have "opTable ! unat (drop_bit 26 v AND 0x3f) \<in> set opTable"
    "specialTable ! unat (v AND 0x3f) \<in> set specialTable" by (simp_all add: nth_mem)
  then show "opCode (Decode v) \<noteq> SPECIAL" "opCode (Decode v) \<noteq> BCOND" "opCode (Decode v) \<noteq> OP_RFE"
    using opTable_entries specialTable_entries
    by (auto simp: Decode_def Let_def split_beta split: op_format.splits)
qed

section \<open>Every case leaves a well-formed machine\<close>

fun outcome_ok :: "outcome \<Rightarrow> bool" where
  "outcome_ok (Done m pc lr lv) \<longleftrightarrow> Machine_ok m \<and> unat lr < NumGPRegs"
| "outcome_ok (Trap ex m) \<longleftrightarrow> Machine_ok m \<and> ex \<noteq> NoException \<and> registers m 0 = 0"

definition good :: "outcome res \<Rightarrow> bool" where
  "good r \<longleftrightarrow> (\<exists>out. r = Inr out \<and> outcome_ok out)"

definition regs_ok :: "Instruction \<Rightarrow> bool" where
  "regs_ok i \<longleftrightarrow> rs_of i < 32 \<and> rt_of i < 32 \<and> rd_of i < 32"

lemma Machine_ok_setReg [simp]: "n \<noteq> LoadReg \<Longrightarrow> Machine_ok (setReg m n v) = Machine_ok m"
  by (simp add: Machine_ok_def load_ok_def)

lemma good_set_done [simp]: "Machine_ok m \<Longrightarrow> n < 37 \<Longrightarrow> good (set_done m n v pc)"
  by (simp add: good_def set_done_def)

lemma good_Done [simp]: "good (Inr (Done m pc lr lv)) \<longleftrightarrow> Machine_ok m \<and> unat lr < 32"
  by (simp add: good_def)

lemma good_raise [simp]: "Machine_ok m \<Longrightarrow> ex \<noteq> NoException \<Longrightarrow> good (raise ex bad m)"
  using RaiseException_ok [of m bad] by (auto simp: good_def raise_def)

lemma good_do_load:
  assumes "Machine_ok m" "sz \<in> {1, 2, 4}"
    "\<And>v m'. Machine_ok m' \<Longrightarrow> registers m' = registers m \<Longrightarrow> good (k v m')"
  shows "good (do_load m a sz k)"
  using ReadMem_ok [OF assms(1,2), of a]
proof (elim disjE exE conjE)
  fix v m'
  assume r: "ReadMem m a sz = Inr (Inr (v, m'))" "same_but_table m m'"
  then have "Machine_ok m'" "registers m' = registers m"
    using assms(1) by (auto simp: same_but_table_def Machine_ok_def load_ok_def)
  then show ?thesis using assms(3) r(1) by (simp add: do_load_def)
qed (simp add: do_load_def good_def)

lemma good_do_store:
  assumes "Machine_ok m" "sz \<in> {1, 2, 4}"
  shows "good (do_store m a sz v pc)"
  using WriteMem_ok [OF assms, of a v]
  by (elim disjE exE conjE) (auto simp: do_store_def good_def)

lemma unat_of_nat_reg [simp]: "n < 32 \<Longrightarrow> unat (of_nat n :: i32) = n"
  by (simp add: unsigned_of_nat take_bit_nat_eq_self)

lemma exec_add_and_good:
  "Machine_ok m \<Longrightarrow> regs_ok i \<Longrightarrow> exec_add_and i m pc = Some r \<Longrightarrow> good r"
  by (auto simp: exec_add_and_def Let_def regs_ok_def split: if_splits)

lemma exec_branch_good:
  "Machine_ok m \<Longrightarrow> regs_ok i \<Longrightarrow> exec_branch i m pc = Some r \<Longrightarrow> good r"
  by (auto simp: exec_branch_def Let_def regs_ok_def split: if_splits)

lemma exec_div_jump_good:
  "Machine_ok m \<Longrightarrow> regs_ok i \<Longrightarrow> exec_div_jump i m pc = Some r \<Longrightarrow>
     good r \<or> r = Inl DivideTrap \<and> opCode i = OP_DIV \<and>
       sint (registers m (rs_of i)) = - (2 ^ 31) \<and> sint (registers m (rt_of i)) = - 1"
  by (auto simp: exec_div_jump_def Let_def regs_ok_def split: if_splits)

lemma exec_load_good:
  "Machine_ok m \<Longrightarrow> regs_ok i \<Longrightarrow> exec_load i m pc = Some r \<Longrightarrow> good r"
  by (auto simp: exec_load_def Let_def regs_ok_def intro!: good_do_load split: if_splits)

lemma exec_lwl_lwr_good:
  "Machine_ok m \<Longrightarrow> regs_ok i \<Longrightarrow> exec_lwl_lwr i m pc = Some r \<Longrightarrow> good r"
  by (auto simp: exec_lwl_lwr_def Let_def regs_ok_def intro!: good_do_load split: if_splits)

lemma exec_hilo_or_good:
  "Machine_ok m \<Longrightarrow> regs_ok i \<Longrightarrow> exec_hilo_or i m pc = Some r \<Longrightarrow> good r"
  by (auto simp: exec_hilo_or_def Let_def regs_ok_def split_beta split: if_splits)

lemma exec_store_shift_good:
  "Machine_ok m \<Longrightarrow> regs_ok i \<Longrightarrow> exec_store_shift i m pc = Some r \<Longrightarrow> good r"
  by (auto simp: exec_store_shift_def Let_def regs_ok_def intro!: good_do_store split: if_splits)

lemma exec_swl_swr_good:
  "Machine_ok m \<Longrightarrow> regs_ok i \<Longrightarrow> exec_swl_swr i m pc = Some r \<Longrightarrow> good r"
  by (auto simp: exec_swl_swr_def Let_def regs_ok_def intro!: good_do_load good_do_store split: if_splits)

lemma exec_rest_good:
  assumes "Machine_ok m" "regs_ok i" "opCode i \<in> {OP_SYSCALL, OP_XOR, OP_XORI, OP_RES, OP_UNIMP}"
  shows "good (exec_rest i m pc)"
  using assms by (auto simp: exec_rest_def Let_def regs_ok_def)

text \<open>Which opcodes each group handles; together they handle everything \<open>Decode\<close> produces.\<close>

lemmas exec_defs = exec_add_and_def exec_branch_def exec_div_jump_def exec_load_def
  exec_lwl_lwr_def exec_hilo_or_def exec_store_shift_def exec_swl_swr_def

lemma groups_None:
  "exec_add_and i m pc = None \<Longrightarrow>
     opCode i \<notin> {OP_ADD, OP_ADDI, OP_ADDIU, OP_ADDU, OP_AND, OP_ANDI}"
  "exec_branch i m pc = None \<Longrightarrow>
     opCode i \<notin> {OP_BEQ, OP_BGEZAL, OP_BGEZ, OP_BGTZ, OP_BLEZ, OP_BLTZAL, OP_BLTZ, OP_BNE}"
  "exec_div_jump i m pc = None \<Longrightarrow> opCode i \<notin> {OP_DIV, OP_DIVU, OP_JAL, OP_J, OP_JALR, OP_JR}"
  "exec_load i m pc = None \<Longrightarrow> opCode i \<notin> {OP_LB, OP_LBU, OP_LH, OP_LHU, OP_LUI, OP_LW}"
  "exec_lwl_lwr i m pc = None \<Longrightarrow> opCode i \<notin> {OP_LWL, OP_LWR}"
  "exec_hilo_or i m pc = None \<Longrightarrow>
     opCode i \<notin> {OP_MFHI, OP_MFLO, OP_MTHI, OP_MTLO, OP_MULT, OP_MULTU, OP_NOR, OP_OR, OP_ORI}"
  "exec_store_shift i m pc = None \<Longrightarrow>
     opCode i \<notin> {OP_SB, OP_SH, OP_SLL, OP_SLLV, OP_SLT, OP_SLTI, OP_SLTIU, OP_SLTU, OP_SRA, OP_SRAV,
       OP_SRL, OP_SRLV, OP_SUB, OP_SUBU, OP_SW}"
  "exec_swl_swr i m pc = None \<Longrightarrow> opCode i \<notin> {OP_SWL, OP_SWR}"
  by (auto simp: exec_defs Let_def split: if_splits)

lemma opcode_rest:
  assumes "op \<notin> {SPECIAL, BCOND, OP_RFE}"
    "op \<notin> {OP_ADD, OP_ADDI, OP_ADDIU, OP_ADDU, OP_AND, OP_ANDI}"
    "op \<notin> {OP_BEQ, OP_BGEZAL, OP_BGEZ, OP_BGTZ, OP_BLEZ, OP_BLTZAL, OP_BLTZ, OP_BNE}"
    "op \<notin> {OP_DIV, OP_DIVU, OP_JAL, OP_J, OP_JALR, OP_JR}"
    "op \<notin> {OP_LB, OP_LBU, OP_LH, OP_LHU, OP_LUI, OP_LW}" "op \<notin> {OP_LWL, OP_LWR}"
    "op \<notin> {OP_MFHI, OP_MFLO, OP_MTHI, OP_MTLO, OP_MULT, OP_MULTU, OP_NOR, OP_OR, OP_ORI}"
    "op \<notin> {OP_SB, OP_SH, OP_SLL, OP_SLLV, OP_SLT, OP_SLTI, OP_SLTIU, OP_SLTU, OP_SRA, OP_SRAV,
       OP_SRL, OP_SRLV, OP_SUB, OP_SUBU, OP_SW}" "op \<notin> {OP_SWL, OP_SWR}"
  shows "op \<in> {OP_SYSCALL, OP_XOR, OP_XORI, OP_RES, OP_UNIMP}"
  using assms by (cases op) simp_all

lemma first_case_cases:
  assumes "\<And>c r. c \<in> set cs \<Longrightarrow> c = Some r \<Longrightarrow> P r" "(\<And>c. c \<in> set cs \<Longrightarrow> c = None) \<Longrightarrow> P d"
  shows "P (first_case cs d)"
  using assms by (induction cs d rule: first_case.induct) auto

text \<open>The host's division trap: the quotient of the most negative number by -1.\<close>

definition div_traps :: "Instruction \<Rightarrow> Machine \<Rightarrow> bool" where
  "div_traps i m \<longleftrightarrow> opCode i = OP_DIV \<and> sint (registers m (rs_of i)) = - (2 ^ 31) \<and>
     sint (registers m (rt_of i)) = - 1"

lemma execute_good:
  assumes m: "Machine_ok m" and i: "regs_ok i" and op: "opCode i \<notin> {SPECIAL, BCOND, OP_RFE}"
  shows "good (execute i m pc) \<or> execute i m pc = Inl DivideTrap \<and> div_traps i m"
  unfolding execute_def
proof (rule first_case_cases)
  fix c r
  assume "c \<in> set [exec_add_and i m pc, exec_branch i m pc, exec_div_jump i m pc, exec_load i m pc,
      exec_lwl_lwr i m pc, exec_hilo_or i m pc, exec_store_shift i m pc, exec_swl_swr i m pc]"
    and "c = Some r"
  then show "good r \<or> r = Inl DivideTrap \<and> div_traps i m"
    unfolding div_traps_def
    using exec_add_and_good [OF m i, of pc r] exec_branch_good [OF m i, of pc r]
      exec_div_jump_good [OF m i, of pc r] exec_load_good [OF m i, of pc r]
      exec_lwl_lwr_good [OF m i, of pc r] exec_hilo_or_good [OF m i, of pc r]
      exec_store_shift_good [OF m i, of pc r] exec_swl_swr_good [OF m i, of pc r]
    by auto
next
  assume none: "\<And>c. c \<in> set [exec_add_and i m pc, exec_branch i m pc, exec_div_jump i m pc,
      exec_load i m pc, exec_lwl_lwr i m pc, exec_hilo_or i m pc, exec_store_shift i m pc,
      exec_swl_swr i m pc] \<Longrightarrow> c = None"
  have "opCode i \<in> {OP_SYSCALL, OP_XOR, OP_XORI, OP_RES, OP_UNIMP}"
    by (rule opcode_rest [OF op], rule groups_None(1) [of i m pc], (rule none, simp),
        rule groups_None(2) [of i m pc], (rule none, simp), rule groups_None(3) [of i m pc], (rule none, simp),
        rule groups_None(4) [of i m pc], (rule none, simp), rule groups_None(5) [of i m pc], (rule none, simp),
        rule groups_None(6) [of i m pc], (rule none, simp), rule groups_None(7) [of i m pc], (rule none, simp),
        rule groups_None(8) [of i m pc], rule none, simp)
  then show "good (exec_rest i m pc) \<or> exec_rest i m pc = Inl DivideTrap \<and> div_traps i m"
    using exec_rest_good [OF m i] by simp
qed

section \<open>The merges, bit by bit\<close>

lemma byte_masks:
  "(0xff :: i32) = mask 8" "(0xffff :: i32) = mask 16" "(0xffffff :: i32) = mask 24"
  "(0xffffff00 :: i32) = NOT (mask 8)" "(0xffff0000 :: i32) = NOT (mask 16)" "(0xff000000 :: i32) = NOT (mask 24)"
  by (simp_all add: mask_eq_exp_minus_1)

lemma cases4: "k < 4 \<Longrightarrow> k = 0 \<or> k = 1 \<or> k = 2 \<or> k = (3::nat)" by auto

lemma bit_lwl_merge:
  "k < 4 \<Longrightarrow> n < 32 \<Longrightarrow> bit (lwl_merge k old v) n = (if n < 8 * k then bit old n else bit v (n - 8 * k))"
  unfolding lwl_merge_def byte_masks by (drule cases4) (auto simp: bit_simps add.commute)

lemma bit_lwr_merge:
  "k < 4 \<Longrightarrow> n < 32 \<Longrightarrow> bit (lwr_merge k old v) n = (if n < 8 + 8 * k then bit v (24 - 8 * k + n) else bit old n)"
  unfolding lwr_merge_def byte_masks by (drule cases4) (auto simp: bit_simps add.commute)

lemma bit_swl_merge:
  "k < 4 \<Longrightarrow> n < 32 \<Longrightarrow> bit (swl_merge k reg v) n = (if n < 32 - 8 * k then bit reg (8 * k + n) else bit v n)"
  unfolding swl_merge_def byte_masks by (drule cases4) (auto simp: bit_simps add.commute)

lemma bit_swr_merge:
  "k < 4 \<Longrightarrow> n < 32 \<Longrightarrow> bit (swr_merge k reg v) n = (if n < 24 - 8 * k then bit v n else bit reg (n - (24 - 8 * k)))"
  unfolding swr_merge_def byte_masks by (drule cases4) (auto simp: bit_simps add.commute)

lemma bit_byte32: "bit (ucast (drop_bit j (w :: i32)) :: byte) n \<longleftrightarrow> n < 8 \<and> bit w (j + n)"
  by (auto simp: bit_simps add.commute)


lemma eq_by_bytes:
  assumes "\<And>j. j < 8 \<Longrightarrow> bit (x :: i32) j = bit y j" "\<And>j. j < 8 \<Longrightarrow> bit x (8 + j) = bit y (8 + j)"
    "\<And>j. j < 8 \<Longrightarrow> bit x (16 + j) = bit y (16 + j)" "\<And>j. j < 8 \<Longrightarrow> bit x (24 + j) = bit y (24 + j)"
  shows "x = y"
proof (rule bit_word_eqI)
  fix n assume "n < LENGTH(32)"
  then consider "n < 8" | "8 \<le> n" "n < 16" | "16 \<le> n" "n < 24" | "24 \<le> n" "n < 32" by fastforce
  then show "bit x n = bit y n"
    using assms(1) [of n] assms(2) [of "n - 8"] assms(3) [of "n - 16"] assms(4) [of "n - 24"]
    by cases simp_all
qed

lemma bytes_eqI:
  assumes "\<And>j. j < 8 \<Longrightarrow> bit w j = bit a j" "\<And>j. j < 8 \<Longrightarrow> bit w (8 + j) = bit b j"
    "\<And>j. j < 8 \<Longrightarrow> bit w (16 + j) = bit c j" "\<And>j. j < 8 \<Longrightarrow> bit w (24 + j) = bit d j"
  shows "bytes_of_u32 w = [a, b, c, d]"
proof -
  have "w = u32_of_bytes a b c d"
    by (rule eq_by_bytes) (simp_all add: assms bit_u32_of_bytes)
  then show ?thesis by simp
qed

lemma load_pairs:
  assumes "k < 4"
  shows "let bs = [b0, b1, b2, b3, b4, b5, b6, b7];
      w0 = u32_of_bytes b0 b1 b2 b3; w1 = u32_of_bytes b4 b5 b6 b7;
      kl = (if k = 0 then 0 else 4 - k); wl = (if k = 0 then w0 else w1);
      unaligned = u32_of_bytes (bs ! k) (bs ! (k + 1)) (bs ! (k + 2)) (bs ! (k + 3))
    in lwl_merge kl (lwr_merge (3 - k) old w0) wl = unaligned \<and>
       lwr_merge (3 - k) (lwl_merge kl old wl) w0 = unaligned"
  using cases4 [OF assms]
  by (elim disjE)
    (auto intro!: eq_by_bytes simp: Let_def numeral_2_eq_2 numeral_3_eq_3 bit_lwl_merge bit_lwr_merge bit_u32_of_bytes)

lemma store_pairs:
  assumes "k < 4"
  shows "let bs = [b0, b1, b2, b3, b4, b5, b6, b7];
      w0 = u32_of_bytes b0 b1 b2 b3; w1 = u32_of_bytes b4 b5 b6 b7;
      kl = (if k = 0 then 0 else 4 - k);
      stored = take k bs @ [r0, r1, r2, r3] @ drop (k + 4) bs
    in 
       (if k = 0 then bytes_of_u32 (swr_merge 3 (u32_of_bytes r0 r1 r2 r3) w0) = take 4 stored \<and>
                      bytes_of_u32 (swl_merge 0 (u32_of_bytes r0 r1 r2 r3) w0) = take 4 stored
        else bytes_of_u32 (swr_merge (3 - k) (u32_of_bytes r0 r1 r2 r3) w0) = take 4 stored \<and>
             bytes_of_u32 (swl_merge kl (u32_of_bytes r0 r1 r2 r3) w1) = drop 4 stored)"
  using cases4 [OF assms]
  by (elim disjE)
    (auto intro!: bytes_eqI simp: Let_def numeral_2_eq_2 numeral_3_eq_3 bit_swl_merge bit_swr_merge bit_u32_of_bytes)

section \<open>Properties\<close>

text \<open>
  C9. \<open>Mult\<close>, the shift-and-add multiplication the simulator uses for \<open>MULT\<close> and \<open>MULTU\<close>, computes
  the exact double-length product: the pair (hi, lo) read as an unsigned 64-bit number is
  the product of the unsigned operands, and with signed arithmetic, hi signed and lo
  unsigned, it is the product of the signed operands, for all operands including the
  most negative number.
\<close>

theorem Mult_exact:
  "(case Mult a b False of (hi, lo) \<Rightarrow> uint hi * 2 ^ 32 + uint lo = uint a * uint b) \<and>
   (case Mult a b True of (hi, lo) \<Rightarrow> sint hi * 2 ^ 32 + uint lo = sint a * sint b)"
  using Mult_unsigned [of a b] Mult_signed [of a b]
  by (cases "Mult a b False"; cases "Mult a b True") auto

text \<open>
  C5. The simulator is total: on a well-formed machine, \<open>Machine::OneInstruction\<close> ends without a
  failed assertion, an access out of an array or an unhandled opcode, whatever word it
  fetches, and leaves a well-formed machine with register 0 zero; it either executes the
  instruction or traps with an exception other than \<open>NoException\<close>. The only way to leave this
  is \<open>DIV\<close> of the most negative number by -1, which the host cannot divide.
\<close>

theorem OneInstruction_total:
  assumes ok: "Machine_ok m"
  shows "(\<exists>m'. OneInstruction m = Inr (Inr m') \<and> Machine_ok m' \<and> registers m' 0 = 0) \<or>
    (\<exists>ex m'. OneInstruction m = Inr (Inl (ex, m')) \<and> Machine_ok m' \<and> registers m' 0 = 0 \<and>
       ex \<noteq> NoException) \<or>
    OneInstruction m = Inl DivideTrap \<and>
      (\<exists>raw m1. ReadMem m (registers m PCReg) 4 = Inr (Inr (raw, m1)) \<and> div_traps (Decode raw) m1)"
proof -
  from ReadMem_ok [OF ok, of 4 "registers m PCReg"]
  consider (trap) ex m' where "ReadMem m (registers m PCReg) 4 = Inr (Inl (ex, m'))"
      "ex \<noteq> NoException" "Machine_ok m'" "registers m' 0 = 0"
    | (read) raw m1 where "ReadMem m (registers m PCReg) 4 = Inr (Inr (raw, m1))" "same_but_table m m1"
    by auto
  then show ?thesis
  proof cases
    case trap
    then show ?thesis by (simp add: OneInstruction_def)
  next
    case read
    then have m1: "Machine_ok m1"
      using ok by (auto simp: same_but_table_def Machine_ok_def load_ok_def)
    have regs: "regs_ok (Decode raw)" using Decode_registers by (simp add: regs_ok_def)
    have op: "opCode (Decode raw) \<notin> {SPECIAL, BCOND, OP_RFE}" using Decode_opCode by simp
    let ?e = "execute (Decode raw) m1 (registers m1 NextPCReg + 4)"
    from execute_good [OF m1 regs op, of "registers m1 NextPCReg + 4"] show ?thesis
    proof
      assume "good ?e"
      then obtain out where out: "?e = Inr out" "outcome_ok out" by (auto simp: good_def)
      show ?thesis
      proof (cases out)
        case (Done m2 pc lr lv)
        then obtain m3 where "DelayedLoad m2 lr lv = Inr m3" "Machine_ok m3" "registers m3 0 = 0"
          using DelayedLoad_ok [of m2 lr lv] out(2) by auto
        then show ?thesis using read out(1) Done by (simp add: OneInstruction_def Let_def)
      next
        case (Trap ex m2)
        then show ?thesis using read out by (simp add: OneInstruction_def)
      qed
    next
      assume "?e = Inl DivideTrap \<and> div_traps (Decode raw) m1"
      then show ?thesis using read by (simp add: OneInstruction_def)
    qed
  qed
qed

theorem OneInstruction_total_witness:
  "(\<exists>m'. OneInstruction one_page_machine = Inr (Inr m') \<and> Machine_ok m' \<and> registers m' 0 = 0) \<or>
   (\<exists>ex m'. OneInstruction one_page_machine = Inr (Inl (ex, m')) \<and> Machine_ok m' \<and>
      registers m' 0 = 0 \<and> ex \<noteq> NoException) \<or>
   OneInstruction one_page_machine = Inl DivideTrap \<and>
     (\<exists>raw m1. ReadMem one_page_machine (registers one_page_machine PCReg) 4 = Inr (Inr (raw, m1)) \<and>
        div_traps (Decode raw) m1)"
  by (rule OneInstruction_total [OF one_page_ok])

text \<open>
  C24. \<open>ADD\<close>, \<open>ADDI\<close> and \<open>SUB\<close> detect overflow exactly: when the exact sum or difference of the signed
  operands fits in 32 bits, the destination register receives it; otherwise the
  instruction traps with \<open>OverflowException\<close> and no register other than the bookkeeping of the
  trap changes.
\<close>

theorem add_sub_overflow:
  assumes "Machine_ok m"
  shows "let rs = sint (registers m (rs_of i)); rt = sint (registers m (rt_of i)); im = sint (extra i);
      overflows = (\<exists>m'. execute i m pc = Inr (Trap OverflowException m') \<and> RaiseException m 0 = Inr m');
      yields = (\<lambda>d x. execute i m pc = Inr (Done (setReg m d (word_of_int x)) pc 0 0))
    in (opCode i = OP_ADD \<longrightarrow> (if fits (rs + rt) then yields (rd_of i) (rs + rt) else overflows)) \<and>
       (opCode i = OP_ADDI \<longrightarrow> (if fits (rs + im) then yields (rt_of i) (rs + im) else overflows)) \<and>
       (opCode i = OP_SUB \<longrightarrow> (if fits (rs - rt) then yields (rd_of i) (rs - rt) else overflows))"
proof -
  obtain m' where r: "RaiseException m 0 = Inr m'" using RaiseException_ok [OF assms] by blast
  show ?thesis
    by (auto simp: execute_def exec_defs Let_def add_overflow_test add_overflow_test' sub_overflow_test
        raise_def r set_done_def)
qed

theorem add_sub_overflow_witness:
  "\<exists>m'. execute \<lparr>value_of = 0, opCode = OP_ADDI, rs_of = 1, rt_of = 2, rd_of = 0, extra = 1\<rparr>
     (setReg one_page_machine 1 0x7fffffff) 8 = Inr (Trap OverflowException m')"
proof -
  have "Machine_ok (setReg one_page_machine 1 0x7fffffff)" using one_page_ok by simp
  from add_sub_overflow [OF this, of "\<lparr>value_of = 0, opCode = OP_ADDI, rs_of = 1, rt_of = 2, rd_of = 0, extra = 1\<rparr>" 8]
  show ?thesis by (auto simp: Let_def fits_def)
qed



text \<open>
  \<open>SRL\<close> and \<open>SRLV\<close>, the logical right shifts of the architecture, are computed on a signed
  variable and therefore replicate the sign bit: on a negative operand the result differs
  from the logical shift (\<open>drop_bit\<close>).
\<close>

lemma SRL_shifts_arithmetically:
  "opCode i = OP_SRL \<Longrightarrow> extra i = 31 \<Longrightarrow> registers m (rt_of i) = 0x80000000 \<Longrightarrow>
     execute i m pc = Inr (Done (setReg m (rd_of i) (- 1)) pc 0 0) \<and>
     drop_bit 31 (0x80000000 :: i32) = 1"
  by (simp add: execute_def exec_defs Let_def set_done_def)

end
