(* ===== verification/Nachos_Interrupt.thy ===== *)
theory Nachos_Interrupt
  imports Nachos_List Nachos_Machine "HOL-Library.Multiset"
begin

text \<open>
  Simulated time and hardware interrupts: \<open>machine/stats.h\<close>, \<open>machine/interrupt.cc\<close>,
  \<open>machine/timer.cc\<close> and \<open>threads/alarm.cc\<close>.

  The state \<open>Sim\<close> holds the fields of the class \<open>Interrupt\<close>, the statistics and the machine;
  it is an extensible record, so that devices and kernel data can be added to it. The
  pending interrupts are the sequence held by the sorted list of the class (see
  \<open>Nachos_List\<close>); the number \<open>ident\<close> of a pending interrupt stands for its address.

  The objects called back on an interrupt, and \<open>Thread::Yield\<close> at the end of \<open>OneTick\<close>, belong
  to other components. They are arguments \<open>cb\<close> and \<open>yield\<close> of the definitions; what the simulation
  relies on is collected in the locale \<open>interrupt_handlers\<close>. The number of pending
  interrupts is the fuel of the loop that fires them: an interrupt handler schedules only
  later interrupts, so each due one is fired once. Times are unbounded integers.
\<close>

section \<open>Statistics and time constants\<close>

record Statistics =
  totalTicks :: int
  idleTicks :: int
  systemTicks :: int
  userTicks :: int
  numDiskReads :: int
  numDiskWrites :: int
  numConsoleCharsRead :: int
  numConsoleCharsWritten :: int
  numPageFaults :: int
  numPacketsSent :: int
  numPacketsRecvd :: int

definition Statistics_new :: Statistics where
  "Statistics_new = \<lparr>totalTicks = 0, idleTicks = 0, systemTicks = 0, userTicks = 0,
     numDiskReads = 0, numDiskWrites = 0, numConsoleCharsRead = 0, numConsoleCharsWritten = 0,
     numPageFaults = 0, numPacketsSent = 0, numPacketsRecvd = 0\<rparr>"

definition UserTick :: int where "UserTick = 1"
definition SystemTick :: int where "SystemTick = 10"
definition RotationTime :: int where "RotationTime = 500"
definition SeekTime :: int where "SeekTime = 500"
definition ConsoleTime :: int where "ConsoleTime = 100"
definition NetworkTime :: int where "NetworkTime = 100"
definition TimerTicks :: int where "TimerTicks = 100"

section \<open>Interrupt state\<close>

datatype IntStatus = IntOff | IntOn
datatype MachineStatus = IdleMode | SystemMode | UserMode
datatype IntType =
    TimerInt | DiskInt | ConsoleWriteInt | ConsoleReadInt | NetworkSendInt | NetworkRecvInt

text \<open>The objects that are called back: one per simulated device.\<close>

datatype Device = TimerDev | DiskDev | ConsoleInDev | ConsoleOutDev | NetworkInDev | NetworkOutDev

record PendingInterrupt =
  ident :: nat
  callOnInterrupt :: Device
  when_due :: int
  int_type :: IntType

record Sim =
  level :: IntStatus
  pending :: "PendingInterrupt list"
  inHandler :: bool
  yieldOnReturn :: bool
  status :: MachineStatus
  stats :: Statistics
  machine :: "Machine option"
  next_ident :: nat
  timer_randomize :: bool
  timer_disable :: bool

abbreviation now :: "'z Sim_scheme \<Rightarrow> int" where
  "now s \<equiv> totalTicks (stats s)"

definition PendingCompare :: "PendingInterrupt \<Rightarrow> PendingInterrupt \<Rightarrow> int" where
  "PendingCompare x y =
     (if when_due x < when_due y then -1 else if when_due x > when_due y then 1 else 0)"

definition Interrupt_init :: "'z Sim_scheme \<Rightarrow> 'z Sim_scheme" where
  "Interrupt_init s = s\<lparr>level := IntOff, pending := [], inHandler := False, yieldOnReturn := False,
     status := SystemMode\<rparr>"

definition setStatus :: "MachineStatus \<Rightarrow> 'z Sim_scheme \<Rightarrow> 'z Sim_scheme" where
  "setStatus st s = s\<lparr>status := st\<rparr>"

definition ChangeLevel :: "IntStatus \<Rightarrow> 'z Sim_scheme \<Rightarrow> 'z Sim_scheme" where
  "ChangeLevel l s = s\<lparr>level := l\<rparr>"

definition YieldOnReturn :: "'z Sim_scheme \<Rightarrow> 'z Sim_scheme res" where
  "YieldOnReturn s = bindR (ASSERT (inHandler s)) (\<lambda>_. Inr (s\<lparr>yieldOnReturn := True\<rparr>))"

definition Schedule :: "Device \<Rightarrow> int \<Rightarrow> IntType \<Rightarrow> 'z Sim_scheme \<Rightarrow> 'z Sim_scheme res" where
  "Schedule toCall fromNow ty s =
     (let toOccur = \<lparr>ident = next_ident s, callOnInterrupt = toCall, when_due = now s + fromNow,
                     int_type = ty\<rparr>;
          s = s\<lparr>next_ident := Suc (next_ident s)\<rparr>
      in bindR (ASSERT (fromNow > 0)) (\<lambda>_.
         bindR (seq_SortedInsert PendingCompare (pending s) toOccur) (\<lambda>p.
         Inr (s\<lparr>pending := p\<rparr>))))"

fun CheckIfDue_loop :: "(Device \<Rightarrow> 'z Sim_scheme \<Rightarrow> 'z Sim_scheme res) \<Rightarrow> nat \<Rightarrow> 'z Sim_scheme \<Rightarrow>
    'z Sim_scheme res" where
  "CheckIfDue_loop cb 0 s = Inl LoopsForever"
| "CheckIfDue_loop cb (Suc fuel) s =
     bindR (seq_RemoveFront (pending s)) (\<lambda>(next_int, rest).
     bindR (cb (callOnInterrupt next_int) (s\<lparr>pending := rest\<rparr>)) (\<lambda>s.
     if pending s \<noteq> [] \<and> when_due (hd (pending s)) \<le> now s then CheckIfDue_loop cb fuel s
     else Inr s))"

definition CheckIfDue :: "(Device \<Rightarrow> 'z Sim_scheme \<Rightarrow> 'z Sim_scheme res) \<Rightarrow> bool \<Rightarrow> 'z Sim_scheme \<Rightarrow>
    (bool \<times> 'z Sim_scheme) res" where
  "CheckIfDue cb advanceClock s =
     bindR (ASSERT (level s = IntOff)) (\<lambda>_.
     if pending s = [] then Inr (False, s)
     else let due = when_due (hd (pending s)) in
       if due > now s \<and> \<not> advanceClock then Inr (False, s)
       else
       let s = (if due > now s
                then s\<lparr>stats := (stats s)\<lparr>idleTicks := idleTicks (stats s) + (due - now s),
                                          totalTicks := due\<rparr>\<rparr>
                else s)
       in bindR (case machine s of
                   None \<Rightarrow> Inr s
                 | Some m \<Rightarrow> bindR (DelayedLoad m 0 0) (\<lambda>m. Inr (s\<lparr>machine := Some m\<rparr>))) (\<lambda>s.
          bindR (CheckIfDue_loop cb (length (pending s)) (s\<lparr>inHandler := True\<rparr>)) (\<lambda>s.
          Inr (True, s\<lparr>inHandler := False\<rparr>))))"

definition advance_tick :: "'z Sim_scheme \<Rightarrow> 'z Sim_scheme" where
  "advance_tick s =
     (if status s = SystemMode
      then s\<lparr>stats := (stats s)\<lparr>totalTicks := now s + SystemTick,
                                systemTicks := systemTicks (stats s) + SystemTick\<rparr>\<rparr>
      else s\<lparr>stats := (stats s)\<lparr>totalTicks := now s + UserTick,
                                userTicks := userTicks (stats s) + UserTick\<rparr>\<rparr>)"

definition OneTick :: "(Device \<Rightarrow> 'z Sim_scheme \<Rightarrow> 'z Sim_scheme res) \<Rightarrow>
    ('z Sim_scheme \<Rightarrow> 'z Sim_scheme res) \<Rightarrow> 'z Sim_scheme \<Rightarrow> 'z Sim_scheme res" where
  "OneTick cb yield s =
     (let oldStatus = status s;
          s = ChangeLevel IntOff (advance_tick s)
      in bindR (CheckIfDue cb False s) (\<lambda>(_, s).
         let s = ChangeLevel IntOn s in
         if yieldOnReturn s
         then bindR (yield (s\<lparr>yieldOnReturn := False, status := SystemMode\<rparr>)) (\<lambda>s.
              Inr (s\<lparr>status := oldStatus\<rparr>))
         else Inr s))"

definition SetLevel :: "(Device \<Rightarrow> 'z Sim_scheme \<Rightarrow> 'z Sim_scheme res) \<Rightarrow>
    ('z Sim_scheme \<Rightarrow> 'z Sim_scheme res) \<Rightarrow> IntStatus \<Rightarrow> 'z Sim_scheme \<Rightarrow>
    (IntStatus \<times> 'z Sim_scheme) res" where
  "SetLevel cb yield l s =
     (let old = level s in
      bindR (ASSERT (l = IntOff \<or> \<not> inHandler s)) (\<lambda>_.
      let s = ChangeLevel l s in
      if l = IntOn \<and> old = IntOff
      then bindR (OneTick cb yield s) (\<lambda>s. Inr (old, s))
      else Inr (old, s)))"

definition Halt :: "'z Sim_scheme \<Rightarrow> 'z Sim_scheme res" where
  "Halt s = Inl MachineHalted"

definition Idle :: "(Device \<Rightarrow> 'z Sim_scheme \<Rightarrow> 'z Sim_scheme res) \<Rightarrow> 'z Sim_scheme \<Rightarrow>
    'z Sim_scheme res" where
  "Idle cb s =
     bindR (CheckIfDue cb True (s\<lparr>status := IdleMode\<rparr>)) (\<lambda>(fired, s).
       if fired then Inr (s\<lparr>status := SystemMode\<rparr>) else Halt s)"

section \<open>Timer and alarm\<close>

text \<open>\<open>RandomNumber\<close> is the host's generator; its \<open>n\<close>-th result is \<open>rnd n\<close>.\<close>

definition Timer_SetInterrupt :: "(nat \<Rightarrow> int) \<Rightarrow> 'z Sim_scheme \<Rightarrow> 'z Sim_scheme res" where
  "Timer_SetInterrupt rnd s =
     (if timer_disable s then Inr s
      else let delay = (if timer_randomize s then 1 + rnd (next_ident s) smod (TimerTicks * 2)
                        else TimerTicks)
           in Schedule TimerDev delay TimerInt s)"

definition Timer_init :: "(nat \<Rightarrow> int) \<Rightarrow> bool \<Rightarrow> 'z Sim_scheme \<Rightarrow> 'z Sim_scheme res" where
  "Timer_init rnd doRandom s =
     Timer_SetInterrupt rnd (s\<lparr>timer_randomize := doRandom, timer_disable := False\<rparr>)"

definition Alarm_CallBack :: "'z Sim_scheme \<Rightarrow> 'z Sim_scheme res" where
  "Alarm_CallBack s = (if status s \<noteq> IdleMode then YieldOnReturn s else Inr s)"

definition Timer_CallBack :: "(nat \<Rightarrow> int) \<Rightarrow> 'z Sim_scheme \<Rightarrow> 'z Sim_scheme res" where
  "Timer_CallBack rnd s = bindR (Alarm_CallBack s) (\<lambda>s. Timer_SetInterrupt rnd s)"

section \<open>The invariant\<close>

definition ticks_ok :: "Statistics \<Rightarrow> bool" where
  "ticks_ok st \<longleftrightarrow> totalTicks st = idleTicks st + systemTicks st + userTicks st"

definition pending_ok :: "'z Sim_scheme \<Rightarrow> bool" where
  "pending_ok s \<longleftrightarrow> sorted_wrt (\<lambda>x y. PendingCompare x y \<le> 0) (pending s) \<and>
     distinct (pending s) \<and> (\<forall>p\<in>set (pending s). ident p < next_ident s)"

definition Sim_ok :: "'z Sim_scheme \<Rightarrow> bool" where
  "Sim_ok s \<longleftrightarrow> ticks_ok (stats s) \<and> pending_ok s \<and> (\<forall>m. machine s = Some m \<longrightarrow> load_ok m)"

interpretation pc: comparator PendingCompare
  by unfold_locales (auto simp: PendingCompare_def split: if_splits)

lemma PendingCompare_le: "PendingCompare x y \<le> 0 \<longleftrightarrow> when_due x \<le> when_due y"
  by (simp add: PendingCompare_def)

lemma pending_sorted_hd:
  "pending_ok s \<Longrightarrow> pending s = p # rest \<Longrightarrow> q \<in> set (pending s) \<Longrightarrow> when_due p \<le> when_due q"
  by (auto simp: pending_ok_def PendingCompare_le)

lemma mset_seq_Insert: "mset (seq_Insert cmp x xs) = add_mset x (mset xs)"
  by (induction xs) auto

definition new_int :: "Device \<Rightarrow> int \<Rightarrow> IntType \<Rightarrow> 'z Sim_scheme \<Rightarrow> PendingInterrupt" where
  "new_int d fromNow ty s =
     \<lparr>ident = next_ident s, callOnInterrupt = d, when_due = now s + fromNow, int_type = ty\<rparr>"

lemma Schedule_eq:
  assumes "pending_ok s" "0 < fromNow"
  shows "Schedule d fromNow ty s = Inr (s\<lparr>next_ident := Suc (next_ident s),
     pending := seq_Insert PendingCompare (new_int d fromNow ty s) (pending s)\<rparr>)"
proof -
  have "new_int d fromNow ty s \<notin> set (pending s)"
    using assms(1) unfolding pending_ok_def new_int_def by auto
  then show ?thesis using assms(2) by (simp add: Schedule_def seq_SortedInsert_def Let_def new_int_def)
qed

lemma pending_ok_insert:
  assumes "pending_ok s" "ident p = next_ident s"
  shows "pending_ok (s\<lparr>next_ident := Suc (next_ident s), pending := seq_Insert PendingCompare p (pending s)\<rparr>)"
  using assms pc.in_order_Insert [of "pending s" p] unfolding pending_ok_def by auto

section \<open>Firing interrupts, for any well-behaved handlers\<close>

definition clock :: "'z Sim_scheme \<Rightarrow> int \<times> int \<times> int \<times> int" where
  "clock s = (totalTicks (stats s), idleTicks (stats s), systemTicks (stats s), userTicks (stats s))"

definition none_due :: "'z Sim_scheme \<Rightarrow> bool" where
  "none_due s \<longleftrightarrow> (\<forall>p\<in>set (pending s). when_due p > now s)"

definition n_due :: "'z Sim_scheme \<Rightarrow> nat" where
  "n_due s = size (filter_mset (\<lambda>p. when_due p \<le> now s) (mset (pending s)))"

text \<open>
  What the simulation relies on: a handler called for a due interrupt that was taken
  off the list succeeds, leaves the clock, the interrupt level, the mode and the list
  alone, except that it may schedule interrupts in the future; and its invariant is not about
  the fields the simulation itself changes. The relation \<open>rel\<close> says what handlers may do to the
  rest of the system.
\<close>

locale interrupt_handlers =
  fixes cb :: "Device \<Rightarrow> 'z Sim_scheme \<Rightarrow> 'z Sim_scheme res"
    and inv :: "'z Sim_scheme \<Rightarrow> bool"
    and rel :: "'z Sim_scheme \<Rightarrow> 'z Sim_scheme \<Rightarrow> bool"
  assumes inv_ok: "inv s \<Longrightarrow> Sim_ok s"
    and cb_law: "inv s \<Longrightarrow> inHandler s \<Longrightarrow> level s = IntOff \<Longrightarrow> pending s = p # rest \<Longrightarrow>
      when_due p \<le> now s \<Longrightarrow>
      \<exists>s' new. cb (callOnInterrupt p) (s\<lparr>pending := rest\<rparr>) = Inr s' \<and> inv s' \<and>
        mset (pending s') = mset rest + mset new \<and> (\<forall>q\<in>set new. when_due q > now s) \<and>
        clock s' = clock s \<and> level s' = IntOff \<and> inHandler s' \<and> status s' = status s \<and> rel s s'"
    and rel_refl: "rel s s"
    and rel_trans: "rel s s' \<Longrightarrow> rel s' s'' \<Longrightarrow> rel s s''"
    and rel_sim: "rel s (s\<lparr>level := l\<rparr>)" "rel s (s\<lparr>inHandler := b\<rparr>)" "rel s (s\<lparr>status := st\<rparr>)"
      "rel s (s\<lparr>machine := mm\<rparr>)" "rel s (s\<lparr>stats := sts\<rparr>)"
    and inv_level: "inv s \<Longrightarrow> inv (s\<lparr>level := l\<rparr>)"
    and inv_inHandler: "inv s \<Longrightarrow> inv (s\<lparr>inHandler := b\<rparr>)"
    and inv_status: "inv s \<Longrightarrow> inv (s\<lparr>status := st\<rparr>)"
    and inv_machine: "inv s \<Longrightarrow> load_ok m \<Longrightarrow> machine s \<noteq> None \<Longrightarrow> inv (s\<lparr>machine := Some m\<rparr>)"
    and inv_time: "inv s \<Longrightarrow> now s \<le> t \<Longrightarrow> t = i + y + u \<Longrightarrow>
      inv (s\<lparr>stats := (stats s)\<lparr>totalTicks := t, idleTicks := i, systemTicks := y, userTicks := u\<rparr>\<rparr>)"
begin

lemma loop_step:
  assumes "inv s" "inHandler s" "level s = IntOff" "pending s = p # rest" "when_due p \<le> now s"
  obtains s' where "cb (callOnInterrupt p) (s\<lparr>pending := rest\<rparr>) = Inr s'" "inv s'" "inHandler s'"
    "level s' = IntOff" "clock s' = clock s" "status s' = status s" "n_due s = Suc (n_due s')" "rel s s'"
    "filter_mset (\<lambda>p. when_due p > now s) (mset (pending s)) \<subseteq># mset (pending s')"
proof -
  from cb_law [OF assms] obtain s' new where s': "cb (callOnInterrupt p) (s\<lparr>pending := rest\<rparr>) = Inr s'"
    "inv s'" "mset (pending s') = mset rest + mset new" "\<forall>q\<in>set new. when_due q > now s"
    "clock s' = clock s" "level s' = IntOff" "inHandler s'" "status s' = status s" "rel s s'" by blast
  have t: "now s' = now s" using s'(5) by (simp add: clock_def)
  have "filter (\<lambda>p. when_due p \<le> now s) new = []"
    using s'(4) by (auto simp: filter_empty_conv not_le)
  then have "filter_mset (\<lambda>p. when_due p \<le> now s) (mset new) = {#}"
    by (metis mset_filter mset.simps(1))
  then have "n_due s = Suc (n_due s')"
    unfolding n_due_def t using s'(3) assms(4,5) by simp
  moreover have "filter_mset (\<lambda>p. when_due p > now s) (mset (pending s)) \<subseteq># mset (pending s')"
    using s'(3) assms(4,5) multiset_filter_subset [of _ "mset rest"]
    by (simp add: subset_mset.add_increasing2)
  ultimately show ?thesis using s' that by blast
qed

lemma sorted_none_due:
  assumes "inv s" "\<not> (pending s \<noteq> [] \<and> when_due (hd (pending s)) \<le> now s)"
  shows "none_due s"
proof (cases "pending s")
  case (Cons p rest)
  have "pending_ok s" using inv_ok [OF assms(1)] by (simp add: Sim_ok_def)
  then show ?thesis using assms(2) Cons pending_sorted_hd [of s p rest] by (fastforce simp: none_due_def)
qed (simp add: none_due_def)

lemma CheckIfDue_loop_ok:
  "inv s \<Longrightarrow> inHandler s \<Longrightarrow> level s = IntOff \<Longrightarrow> pending s = p # rest \<Longrightarrow> when_due p \<le> now s \<Longrightarrow>
   n_due s \<le> fuel \<Longrightarrow>
   \<exists>s'. CheckIfDue_loop cb fuel s = Inr s' \<and> inv s' \<and> none_due s' \<and> clock s' = clock s \<and>
     level s' = IntOff \<and> inHandler s' \<and> status s' = status s \<and> rel s s' \<and>
     filter_mset (\<lambda>p. when_due p > now s) (mset (pending s)) \<subseteq># mset (pending s')"
proof (induction fuel arbitrary: s p rest)
  case 0
  then show ?case by (simp add: n_due_def)
next
  case (Suc fuel)
  obtain s1 where s1: "cb (callOnInterrupt p) (s\<lparr>pending := rest\<rparr>) = Inr s1" "inv s1" "inHandler s1"
    "level s1 = IntOff" "clock s1 = clock s" "status s1 = status s" "n_due s = Suc (n_due s1)" "rel s s1"
    "filter_mset (\<lambda>p. when_due p > now s) (mset (pending s)) \<subseteq># mset (pending s1)"
    using loop_step [OF Suc.prems(1-5)] by blast
  have t: "now s1 = now s" using s1(5) by (simp add: clock_def)
  show ?case
  proof (cases "pending s1 \<noteq> [] \<and> when_due (hd (pending s1)) \<le> now s1")
    case False
    then show ?thesis
      using s1 Suc.prems(4) sorted_none_due [OF s1(2)] by (auto simp: seq_RemoveFront_def)
  next
    case True
    then obtain q rest' where q: "pending s1 = q # rest'" "when_due q \<le> now s1"
      by (cases "pending s1") auto
    have "n_due s1 \<le> fuel" using s1(7) Suc.prems(6) by simp
    from Suc.IH [OF s1(2-4) q this] obtain s' where s': "CheckIfDue_loop cb fuel s1 = Inr s'" "inv s'"
      "none_due s'" "clock s' = clock s1" "level s' = IntOff" "inHandler s'" "status s' = status s1" "rel s1 s'"
      "filter_mset (\<lambda>p. when_due p > now s1) (mset (pending s1)) \<subseteq># mset (pending s')" by blast
    have "filter_mset (\<lambda>p. when_due p > now s) (mset (pending s)) \<subseteq># mset (pending s')"
      using multiset_filter_mono [OF s1(9), of "\<lambda>p. when_due p > now s"] s'(9) t
      by (simp add: filter_filter_mset)
    then show ?thesis
      using True s1 s' Suc.prems(4) t rel_trans [OF s1(8) s'(8)] by (auto simp: seq_RemoveFront_def)
  qed
qed

definition fires :: "bool \<Rightarrow> 'z Sim_scheme \<Rightarrow> bool" where
  "fires advance s \<longleftrightarrow> pending s \<noteq> [] \<and> (advance \<or> when_due (hd (pending s)) \<le> now s)"

lemma n_due_le: "n_due s \<le> length (pending s)"
  unfolding n_due_def by (metis size_filter_mset_lesseq size_mset)

lemma CheckIfDue_ok:
  assumes inv: "inv s" and off: "level s = IntOff"
  shows "\<exists>s'. CheckIfDue cb advance s = Inr (fires advance s, s') \<and> inv s' \<and> level s' = IntOff \<and>
    status s' = status s \<and> inHandler s' = (\<not> fires advance s \<and> inHandler s) \<and>
    (advance \<longrightarrow> none_due s' \<or> \<not> fires advance s) \<and> (\<not> advance \<longrightarrow> none_due s') \<and>
    now s' = (if fires advance s then max (now s) (when_due (hd (pending s))) else now s) \<and>
    systemTicks (stats s') = systemTicks (stats s) \<and> userTicks (stats s') = userTicks (stats s) \<and> rel s s'"
proof (cases "fires advance s")
  case False
  then have "CheckIfDue cb advance s = Inr (False, s)"
    using off by (auto simp: CheckIfDue_def fires_def Let_def)
  moreover have "\<not> advance \<longrightarrow> none_due s"
    using False sorted_none_due [OF inv] by (auto simp: fires_def)
  ultimately show ?thesis using False inv off rel_refl by auto
next
  case True
  then obtain p rest where p: "pending s = p # rest" by (cases "pending s") (auto simp: fires_def)
  let ?t = "max (now s) (when_due p)"
  define s1 where "s1 = s\<lparr>stats := (stats s)\<lparr>totalTicks := ?t,
      idleTicks := idleTicks (stats s) + (?t - now s), systemTicks := systemTicks (stats s),
      userTicks := userTicks (stats s)\<rparr>\<rparr>"
  have tick: "ticks_ok (stats s)" using inv_ok [OF inv] by (simp add: Sim_ok_def)
  have inv1: "inv s1" unfolding s1_def
    by (rule inv_time [OF inv]) (use tick in \<open>auto simp: ticks_ok_def\<close>)
  have s1_eq: "s1 = (if when_due p > now s then s\<lparr>stats := (stats s)\<lparr>
      idleTicks := idleTicks (stats s) + (when_due p - now s), totalTicks := when_due p\<rparr>\<rparr> else s)"
    by (simp add: s1_def)
  obtain s2 where s2: "(case machine s1 of None \<Rightarrow> Inr s1
      | Some m \<Rightarrow> bindR (DelayedLoad m 0 0) (\<lambda>m. Inr (s1\<lparr>machine := Some m\<rparr>))) = Inr s2"
    "inv s2" "pending s2 = pending s" "stats s2 = stats s1" "level s2 = IntOff" "status s2 = status s" "rel s1 s2"
  proof (cases "machine s1")
    case None
    then show ?thesis using that [of s1] inv1 off rel_refl by (simp add: s1_def)
  next
    case (Some m)
    then have m: "load_ok m" using inv_ok [OF inv1] by (simp add: Sim_ok_def)
    obtain m' where m': "DelayedLoad m 0 0 = Inr m'" "load_ok m'"
      using m by (auto simp: DelayedLoad_eq load_ok_def)
    then show ?thesis
      using that [of "s1\<lparr>machine := Some m'\<rparr>"] Some inv_machine [OF inv1, of m'] off rel_sim(4) [of s1 "Some m'"]
      by (simp add: s1_def)
  qed
  have inv3: "inv (s2\<lparr>inHandler := True\<rparr>)" by (rule inv_inHandler [OF s2(2)])
  have due: "when_due p \<le> now (s2\<lparr>inHandler := True\<rparr>)" using s2(4) by (simp add: s1_def)
  have fuel: "n_due (s2\<lparr>inHandler := True\<rparr>) \<le> length (pending s2)"
    using n_due_le [of "s2\<lparr>inHandler := True\<rparr>"] by simp
  have pre: "inHandler (s2\<lparr>inHandler := True\<rparr>)" "level (s2\<lparr>inHandler := True\<rparr>) = IntOff"
    "pending (s2\<lparr>inHandler := True\<rparr>) = p # rest" using s2 p by simp_all
  from CheckIfDue_loop_ok [OF inv3 pre due fuel] obtain s3 where
    s3: "CheckIfDue_loop cb (length (pending s2)) (s2\<lparr>inHandler := True\<rparr>) = Inr s3" "inv s3" "none_due s3"
    "clock s3 = clock (s2\<lparr>inHandler := True\<rparr>)" "level s3 = IntOff"
    "status s3 = status (s2\<lparr>inHandler := True\<rparr>)" "rel (s2\<lparr>inHandler := True\<rparr>) s3" by blast
  have r: "rel s (s3\<lparr>inHandler := False\<rparr>)"
  proof -
    have "rel s s1" unfolding s1_def by (rule rel_sim(5))
    from rel_trans [OF rel_trans [OF rel_trans [OF this s2(7)] rel_sim(2)] s3(7)] show ?thesis
      by (rule rel_trans) (rule rel_sim(2))
  qed
  have "CheckIfDue cb advance s = Inr (True, s3\<lparr>inHandler := False\<rparr>)"
    using True off p s2(1) s3(1) unfolding CheckIfDue_def fires_def s1_eq by (simp add: Let_def, linarith)
  moreover have "none_due (s3\<lparr>inHandler := False\<rparr>)" using s3(3) by (simp add: none_due_def)
  ultimately show ?thesis
    using True s3 s2(4,6) p inv_inHandler [OF s3(2)] r by (simp add: clock_def s1_def)
qed

text \<open>
  A tick: the clock moves by the cost of the current mode, every due interrupt is fired,
  interrupts are enabled, and then a requested yield happens.
\<close>

lemma OneTick_ok:
  assumes inv: "inv s" and notin: "\<not> inHandler s"
  shows "\<exists>s1. OneTick cb yield s =
      (if yieldOnReturn s1
       then bindR (yield (s1\<lparr>yieldOnReturn := False, status := SystemMode\<rparr>)) (\<lambda>s'. Inr (s'\<lparr>status := status s\<rparr>))
       else Inr s1) \<and>
    inv s1 \<and> level s1 = IntOn \<and> \<not> inHandler s1 \<and> none_due s1 \<and> status s1 = status s \<and>
    now s1 = now s + (if status s = SystemMode then SystemTick else UserTick) \<and> rel s s1"
proof -
  define t where "t = (if status s = SystemMode then SystemTick else UserTick)"
  define s0 where "s0 = ChangeLevel IntOff (advance_tick s)"
  have tick: "ticks_ok (stats s)" using inv_ok [OF inv] by (simp add: Sim_ok_def)
  have "advance_tick s = s\<lparr>stats := (stats s)\<lparr>totalTicks := now s + t, idleTicks := idleTicks (stats s),
      systemTicks := systemTicks (stats s) + (if status s = SystemMode then t else 0),
      userTicks := userTicks (stats s) + (if status s = SystemMode then 0 else t)\<rparr>\<rparr>"
    by (simp add: advance_tick_def t_def)
  then have inv0: "inv (advance_tick s)"
    by (simp only:, intro inv_time [OF inv])
      (use tick in \<open>auto simp: ticks_ok_def t_def SystemTick_def UserTick_def\<close>)
  have inv0': "inv s0" unfolding s0_def ChangeLevel_def by (rule inv_level [OF inv0])
  have s0: "level s0 = IntOff" "now s0 = now s + t" "status s0 = status s" "\<not> inHandler s0"
    using notin by (simp_all add: s0_def ChangeLevel_def advance_tick_def t_def)
  from CheckIfDue_ok [OF inv0' s0(1), of False] obtain s' where
    s': "CheckIfDue cb False s0 = Inr (fires False s0, s')" "inv s'" "status s' = status s0"
    "inHandler s' = (\<not> fires False s0 \<and> inHandler s0)" "none_due s'"
    "now s' = (if fires False s0 then max (now s0) (when_due (hd (pending s0))) else now s0)" "rel s0 s'" by auto
  have "now s' = now s0" using s'(6) by (auto simp: fires_def)
  moreover have "none_due (ChangeLevel IntOn s')" using s'(5) by (simp add: none_due_def ChangeLevel_def)
  moreover have "inv (ChangeLevel IntOn s')" unfolding ChangeLevel_def by (rule inv_level [OF s'(2)])
  moreover have "rel s (ChangeLevel IntOn s')"
  proof -
    have "rel s (advance_tick s)" unfolding advance_tick_def using rel_sim(5) by simp
    from rel_trans [OF rel_trans [OF this rel_sim(1)] s'(7) [unfolded s0_def ChangeLevel_def]] show ?thesis
      unfolding ChangeLevel_def by (rule rel_trans) (rule rel_sim(1))
  qed
  ultimately show ?thesis
    using s' s0 by (intro exI [of _ "ChangeLevel IntOn s'"])
      (simp add: OneTick_def Let_def t_def [symmetric] ChangeLevel_def
        s'(1) [unfolded s0_def ChangeLevel_def])
qed

text \<open>Idling moves the clock exactly to the next interrupt, or halts when there is none.\<close>

lemma Idle_ok:
  assumes inv: "inv s" and off: "level s = IntOff"
  shows "if pending s = [] then Idle cb s = Inl MachineHalted
    else \<exists>s'. Idle cb s = Inr s' \<and> inv s' \<and> level s' = IntOff \<and> none_due s' \<and> status s' = SystemMode \<and>
      now s' = max (now s) (when_due (hd (pending s))) \<and> rel s s'"
proof -
  define t where "t = s\<lparr>status := IdleMode\<rparr>"
  have t: "inv t" "level t = IntOff" "pending t = pending s" "now t = now s"
    using inv_status [OF inv] off by (simp_all add: t_def)
  have f: "fires True t = (pending s \<noteq> [])" by (simp add: fires_def t)
  from CheckIfDue_ok [OF t(1,2), of True] obtain s' where
    s': "CheckIfDue cb True t = Inr (pending s \<noteq> [], s')" "inv s'" "level s' = IntOff"
    "none_due s' \<or> pending s = []"
    "now s' = (if pending s \<noteq> [] then max (now s) (when_due (hd (pending s))) else now s)" "rel t s'"
    unfolding f t(3,4) by blast
  have r: "rel s (s'\<lparr>status := SystemMode\<rparr>)"
    using rel_trans [OF rel_trans [OF rel_sim(3) [of s IdleMode] s'(6) [unfolded t_def]] rel_sim(3)] .
  show ?thesis
  proof (cases "pending s = []")
    case True
    then show ?thesis using s'(1) by (simp add: Idle_def Halt_def t_def)
  next
    case False
    then show ?thesis
      using s' inv_status [OF s'(2), of SystemMode] r by (simp add: Idle_def none_due_def t_def)
  qed
qed

end

section \<open>Timer and alarm are such handlers\<close>

lemma timer_delay:
  assumes "\<And>n. 0 \<le> rnd n"
  shows "0 < (if timer_randomize s then 1 + rnd (next_ident s) smod (TimerTicks * 2) else TimerTicks) \<and>
    (if timer_randomize s then 1 + rnd (next_ident s) smod (TimerTicks * 2) else TimerTicks) \<le> 2 * TimerTicks"
  using assms [of "next_ident s"]
  by (auto simp: TimerTicks_def smod_nonneg)

lemma Timer_SetInterrupt_eq:
  assumes "pending_ok s" "\<And>n. 0 \<le> rnd n" "\<not> timer_disable s"
  shows "\<exists>d. 0 < d \<and> d \<le> 2 * TimerTicks \<and> Timer_SetInterrupt rnd s = Inr (s\<lparr>
    next_ident := Suc (next_ident s),
    pending := seq_Insert PendingCompare (new_int TimerDev d TimerInt s) (pending s)\<rparr>)"
proof -
  define d where "d = (if timer_randomize s then 1 + rnd (next_ident s) smod (TimerTicks * 2) else TimerTicks)"
  have "0 < d \<and> d \<le> 2 * TimerTicks" unfolding d_def by (rule timer_delay [OF assms(2)])
  then show ?thesis
    using assms(3) Schedule_eq [OF assms(1), of d TimerDev TimerInt]
    by (intro exI [of _ d]) (simp add: Timer_SetInterrupt_def d_def [symmetric])
qed

end
