(* ===== verification/Nachos_Threads.thy ===== *)
theory Nachos_Threads
  imports Nachos_Interrupt
begin

text \<open>
  Threads, the scheduler and the synchronization primitives of \<open>threads/\<close>:
  \<open>thread.cc\<close>, \<open>scheduler.cc\<close>, \<open>synch.cc\<close> and \<open>synchlist.cc\<close>.

  The state extends the interrupt state by the thread control blocks, the ready list,
  the current thread and the tables of semaphores, locks and conditions; the addresses
  of these objects are numbers. The lists of threads and of semaphores are the sequences of
  \<open>Nachos_List\<close>.

  \<open>SWITCH\<close> saves the registers and the stack of the old thread and continues the new thread where
  it called \<open>SWITCH\<close> (or in \<open>Thread::Begin\<close> the first time). What a thread has still to do is its
  continuation, a list of actions; a step executes the first action of the current
  thread. The code of one action runs with interrupts disabled from beginning to end, or
  touches only data of its own thread; time slices and device interrupts can happen only
  where interrupts are enabled again, that is in the actions \<open>ASetLevel\<close> and \<open>ASleep\<close>
  (when the processor idles). There the step takes an oracle: the semaphores the
  interrupt handlers signal and whether the timer asks for a yield.
\<close>

section \<open>State\<close>

datatype ThreadStatus = JUST_CREATED | RUNNING | READY | BLOCKED

definition STACK_FENCEPOST :: int where "STACK_FENCEPOST = 0xdedbeef"

text \<open>
  \<open>fence\<close> is the word at the bottom of the stack, \<open>None\<close> when the thread has no stack of its own
  (the main thread). \<open>tspace\<close> is the page table of the thread's address space with its size.
\<close>

record Thread =
  tstatus :: ThreadStatus
  fence :: "int option"
  userRegisters :: "nat \<Rightarrow> i32"
  tspace :: "(TranslationEntry list \<times> u32) option"

record Semaphore =
  sem_value :: int
  sem_queue :: "nat list"

record Lock =
  lock_sem :: nat
  lockHolder :: "nat option"

record Condition =
  waitQueue :: "nat list"

record Kern = Sim +
  threads :: "nat \<rightharpoonup> Thread"
  readyList :: "nat list"
  toBeDestroyed :: "nat option"
  currentThread :: nat
  next_thread :: nat
  sems :: "nat \<rightharpoonup> Semaphore"
  next_sem :: nat
  locks :: "nat \<rightharpoonup> Lock"
  conds :: "nat \<rightharpoonup> Condition"

definition obj :: "('k \<rightharpoonup> 'v) \<Rightarrow> 'k \<Rightarrow> 'v res" where
  "obj m k = (case m k of None \<Rightarrow> Inl UseAfterFree | Some v \<Rightarrow> Inr v)"

definition upd_thread :: "nat \<Rightarrow> (Thread \<Rightarrow> Thread) \<Rightarrow> 'z Kern_scheme \<Rightarrow> 'z Kern_scheme res" where
  "upd_thread t f s = bindR (obj (threads s) t) (\<lambda>th. Inr (s\<lparr>threads := (threads s)(t \<mapsto> f th)\<rparr>))"

definition Thread_new :: "(nat \<Rightarrow> i32) \<Rightarrow> Thread" where
  "Thread_new regs0 = \<lparr>tstatus = JUST_CREATED, fence = None, userRegisters = regs0, tspace = None\<rparr>"

section \<open>Scheduler\<close>

definition Scheduler_init :: "'z Kern_scheme \<Rightarrow> 'z Kern_scheme" where
  "Scheduler_init s = s\<lparr>readyList := [], toBeDestroyed := None\<rparr>"

definition ReadyToRun :: "nat \<Rightarrow> 'z Kern_scheme \<Rightarrow> 'z Kern_scheme res" where
  "ReadyToRun t s =
     bindR (ASSERT (level s = IntOff)) (\<lambda>_.
     bindR (upd_thread t (\<lambda>th. th\<lparr>tstatus := READY\<rparr>) s) (\<lambda>s.
     bindR (seq_Append (readyList s) t) (\<lambda>r. Inr (s\<lparr>readyList := r\<rparr>))))"

definition FindNextToRun :: "'z Kern_scheme \<Rightarrow> (nat option \<times> 'z Kern_scheme) res" where
  "FindNextToRun s =
     bindR (ASSERT (level s = IntOff)) (\<lambda>_.
     if readyList s = [] then Inr (None, s)
     else bindR (seq_RemoveFront (readyList s)) (\<lambda>(t, r). Inr (Some t, s\<lparr>readyList := r\<rparr>)))"

definition Thread_delete :: "nat \<Rightarrow> 'z Kern_scheme \<Rightarrow> 'z Kern_scheme res" where
  "Thread_delete t s =
     bindR (ASSERT (t \<noteq> currentThread s)) (\<lambda>_.
     bindR (obj (threads s) t) (\<lambda>_. Inr (s\<lparr>threads := (threads s)(t := None)\<rparr>)))"

definition CheckToBeDestroyed :: "'z Kern_scheme \<Rightarrow> 'z Kern_scheme res" where
  "CheckToBeDestroyed s = (case toBeDestroyed s of
     None \<Rightarrow> Inr s
   | Some t \<Rightarrow> bindR (Thread_delete t s) (\<lambda>s. Inr (s\<lparr>toBeDestroyed := None\<rparr>)))"

definition the_machine :: "'z Sim_scheme \<Rightarrow> Machine res" where
  "the_machine s = (case machine s of None \<Rightarrow> Inl NullDeref | Some m \<Rightarrow> Inr m)"

definition SaveUserState :: "nat \<Rightarrow> 'z Kern_scheme \<Rightarrow> 'z Kern_scheme res" where
  "SaveUserState t s =
     bindR (the_machine s) (\<lambda>m.
     bindR (obj (threads s) t) (\<lambda>th.
     bindR (foldR (\<lambda>i regs. bindR (ReadRegister m (int i)) (\<lambda>v. Inr (regs(i := v))))
              [0..<NumTotalRegs] (userRegisters th)) (\<lambda>regs.
     upd_thread t (\<lambda>th. th\<lparr>userRegisters := regs\<rparr>) s)))"

definition RestoreUserState :: "nat \<Rightarrow> 'z Kern_scheme \<Rightarrow> 'z Kern_scheme res" where
  "RestoreUserState t s =
     bindR (the_machine s) (\<lambda>m.
     bindR (obj (threads s) t) (\<lambda>th.
     bindR (foldR (\<lambda>i m. WriteRegister m (int i) (userRegisters th i)) [0..<NumTotalRegs] m) (\<lambda>m.
     Inr (s\<lparr>machine := Some m\<rparr>))))"

text \<open>
  The machine's \<open>pageTable\<close> points to the table of the running address space; the copy kept
  with the thread is brought up to date (use and dirty bits) when the thread is switched out,
  and \<open>AddrSpace::RestoreState\<close> installs it again. \<open>AddrSpace::SaveState\<close> itself does nothing.
\<close>

definition space_SaveState :: "nat \<Rightarrow> 'z Kern_scheme \<Rightarrow> 'z Kern_scheme res" where
  "space_SaveState t s =
     bindR (the_machine s) (\<lambda>m.
     upd_thread t (\<lambda>th. case (tspace th, pageTable m) of
         (Some (_, n), Some pt) \<Rightarrow> th\<lparr>tspace := Some (pt, n)\<rparr> | _ \<Rightarrow> th) s)"

definition space_RestoreState :: "nat \<Rightarrow> 'z Kern_scheme \<Rightarrow> 'z Kern_scheme res" where
  "space_RestoreState t s =
     bindR (the_machine s) (\<lambda>m.
     bindR (obj (threads s) t) (\<lambda>th. case tspace th of
       None \<Rightarrow> Inl NullDeref
     | Some (pt, n) \<Rightarrow> Inr (s\<lparr>machine := Some (m\<lparr>pageTable := Some pt, pageTableSize := n\<rparr>)\<rparr>)))"

definition CheckOverflow :: "nat \<Rightarrow> 'z Kern_scheme \<Rightarrow> unit res" where
  "CheckOverflow t s =
     bindR (obj (threads s) t) (\<lambda>th. case fence th of
       None \<Rightarrow> Inr () | Some v \<Rightarrow> ASSERT (v = STACK_FENCEPOST))"

text \<open>\<open>Scheduler::Run\<close> up to the call of \<open>SWITCH\<close>, in the old thread.\<close>

definition Run_before :: "nat \<Rightarrow> bool \<Rightarrow> 'z Kern_scheme \<Rightarrow> 'z Kern_scheme res" where
  "Run_before nextThread finishing s =
     (let oldThread = currentThread s in
      bindR (ASSERT (level s = IntOff)) (\<lambda>_.
      bindR (if finishing
             then bindR (ASSERT (toBeDestroyed s = None)) (\<lambda>_. Inr (s\<lparr>toBeDestroyed := Some oldThread\<rparr>))
             else Inr s) (\<lambda>s.
      bindR (obj (threads s) oldThread) (\<lambda>old.
      bindR (if tspace old \<noteq> None
             then bindR (SaveUserState oldThread s) (\<lambda>s. space_SaveState oldThread s)
             else Inr s) (\<lambda>s.
      bindR (CheckOverflow oldThread s) (\<lambda>_.
      upd_thread nextThread (\<lambda>th. th\<lparr>tstatus := RUNNING\<rparr>) (s\<lparr>currentThread := nextThread\<rparr>)))))))"

text \<open>What follows \<open>SWITCH\<close>, in the thread that was switched to.\<close>

definition Run_after :: "'z Kern_scheme \<Rightarrow> 'z Kern_scheme res" where
  "Run_after s =
     (let t = currentThread s in
      bindR (ASSERT (level s = IntOff)) (\<lambda>_.
      bindR (CheckToBeDestroyed s) (\<lambda>s.
      bindR (obj (threads s) t) (\<lambda>th.
      if tspace th \<noteq> None
      then bindR (RestoreUserState t s) (\<lambda>s. space_RestoreState t s)
      else Inr s))))"

section \<open>Semaphore bodies\<close>

text \<open>The part of \<open>Semaphore::V\<close> between the two calls of \<open>SetLevel\<close>.\<close>

definition V_body :: "nat \<Rightarrow> 'z Kern_scheme \<Rightarrow> 'z Kern_scheme res" where
  "V_body k s =
     bindR (obj (sems s) k) (\<lambda>sem.
     bindR (if sem_queue sem \<noteq> []
            then bindR (seq_RemoveFront (sem_queue sem)) (\<lambda>(t, q).
                 bindR (ReadyToRun t s) (\<lambda>s. Inr (s, q)))
            else Inr (s, [])) (\<lambda>(s, q).
     Inr (s\<lparr>sems := (sems s)(k \<mapsto> \<lparr>sem_value = sem_value sem + 1, sem_queue = q\<rparr>)\<rparr>)))"

text \<open>
  One evaluation of the loop condition of \<open>Semaphore::P\<close>: \<open>True\<close> when the value was taken, \<open>False\<close>
  when the thread was put on the queue and goes to sleep (\<open>Thread::Sleep\<close> up to its loop).
\<close>

definition P_body :: "nat \<Rightarrow> 'z Kern_scheme \<Rightarrow> (bool \<times> 'z Kern_scheme) res" where
  "P_body k s =
     bindR (obj (sems s) k) (\<lambda>sem.
     if sem_value sem = 0
     then bindR (seq_Append (sem_queue sem) (currentThread s)) (\<lambda>q.
          bindR (ASSERT (level s = IntOff)) (\<lambda>_.
          bindR (upd_thread (currentThread s) (\<lambda>th. th\<lparr>tstatus := BLOCKED\<rparr>)
                  (s\<lparr>sems := (sems s)(k \<mapsto> sem\<lparr>sem_queue := q\<rparr>)\<rparr>)) (\<lambda>s.
          Inr (False, s))))
     else Inr (True, s\<lparr>sems := (sems s)(k \<mapsto> sem\<lparr>sem_value := sem_value sem - 1\<rparr>)\<rparr>))"

definition Semaphore_new :: "int \<Rightarrow> 'z Kern_scheme \<Rightarrow> nat \<times> 'z Kern_scheme" where
  "Semaphore_new v s = (next_sem s, s\<lparr>sems := (sems s)(next_sem s \<mapsto> \<lparr>sem_value = v, sem_queue = []\<rparr>),
     next_sem := Suc (next_sem s)\<rparr>)"

definition Lock_new :: "nat \<Rightarrow> 'z Kern_scheme \<Rightarrow> 'z Kern_scheme" where
  "Lock_new l s =
     (let (k, s) = Semaphore_new 1 s
      in s\<lparr>locks := (locks s)(l \<mapsto> \<lparr>lock_sem = k, lockHolder = None\<rparr>)\<rparr>)"

definition Condition_new :: "nat \<Rightarrow> 'z Kern_scheme \<Rightarrow> 'z Kern_scheme" where
  "Condition_new c s = s\<lparr>conds := (conds s)(c \<mapsto> \<lparr>waitQueue = []\<rparr>)\<rparr>"

definition IsHeldByCurrentThread :: "nat \<Rightarrow> 'z Kern_scheme \<Rightarrow> bool res" where
  "IsHeldByCurrentThread l s =
     bindR (obj (locks s) l) (\<lambda>lk. Inr (lockHolder lk = Some (currentThread s)))"

section \<open>Continuations and steps\<close>

text \<open>
  \<open>AP k\<close> is a call of \<open>P\<close> on semaphore \<open>k\<close>, \<open>ARetry\<close> the rest of its loop after a wake-up;
  \<open>ASleep\<close> the loop of \<open>Thread::Sleep\<close> up to \<open>SWITCH\<close>, \<open>AAfter\<close> the rest of \<open>Scheduler::Run\<close>,
  \<open>ABegin\<close> is \<open>Thread::Begin\<close>. \<open>AFork\<close> creates a thread and forks it with the given program.
  \<open>AAcquired\<close> is the assignment of the holder in \<open>Lock::Acquire\<close>.
\<close>

datatype action =
    AP nat
  | ARetry nat IntStatus
  | AV nat
  | ASleep bool
  | AAfter
  | ABegin
  | ASetLevel IntStatus
  | AYield
  | AFinish
  | AFork "action list"
  | AAcquired nat
  | ARelease nat
  | AWait nat nat
  | ASignal nat nat
  | ABroadcast nat nat

definition Lock_Acquire :: "nat \<Rightarrow> nat \<Rightarrow> action list" where
  "Lock_Acquire l k = [AP k, AAcquired l]"

definition Lock_Release :: "nat \<Rightarrow> 'z Kern_scheme \<Rightarrow> ('z Kern_scheme \<times> action list) res" where
  "Lock_Release l s =
     bindR (IsHeldByCurrentThread l s) (\<lambda>held.
     bindR (ASSERT held) (\<lambda>_.
     bindR (obj (locks s) l) (\<lambda>lk.
     Inr (s\<lparr>locks := (locks s)(l \<mapsto> lk\<lparr>lockHolder := None\<rparr>)\<rparr>, [AV (lock_sem lk)]))))"

definition Condition_Wait :: "nat \<Rightarrow> nat \<Rightarrow> 'z Kern_scheme \<Rightarrow> ('z Kern_scheme \<times> action list) res" where
  "Condition_Wait c l s =
     bindR (IsHeldByCurrentThread l s) (\<lambda>held.
     bindR (ASSERT held) (\<lambda>_.
     bindR (obj (locks s) l) (\<lambda>lk.
     bindR (obj (conds s) c) (\<lambda>cv.
     let (waiter, s) = Semaphore_new 0 s in
     bindR (seq_Append (waitQueue cv) waiter) (\<lambda>q.
     Inr (s\<lparr>conds := (conds s)(c \<mapsto> \<lparr>waitQueue = q\<rparr>)\<rparr>,
          ARelease l # AP waiter # Lock_Acquire l (lock_sem lk)))))))"

definition Condition_Signal :: "nat \<Rightarrow> nat \<Rightarrow> 'z Kern_scheme \<Rightarrow> ('z Kern_scheme \<times> action list) res" where
  "Condition_Signal c l s =
     bindR (IsHeldByCurrentThread l s) (\<lambda>held.
     bindR (ASSERT held) (\<lambda>_.
     bindR (obj (conds s) c) (\<lambda>cv.
     if waitQueue cv \<noteq> []
     then bindR (seq_RemoveFront (waitQueue cv)) (\<lambda>(waiter, q).
          Inr (s\<lparr>conds := (conds s)(c \<mapsto> \<lparr>waitQueue = q\<rparr>)\<rparr>, [AV waiter]))
     else Inr (s, []))))"

definition Condition_Broadcast :: "nat \<Rightarrow> nat \<Rightarrow> 'z Kern_scheme \<Rightarrow> ('z Kern_scheme \<times> action list) res" where
  "Condition_Broadcast c l s =
     bindR (obj (conds s) c) (\<lambda>cv.
     Inr (s, if waitQueue cv \<noteq> [] then [ASignal c l, ABroadcast c l] else []))"

definition P_retry :: "nat \<Rightarrow> IntStatus \<Rightarrow> 'z Kern_scheme \<Rightarrow> ('z Kern_scheme \<times> action list) res" where
  "P_retry k old s =
     bindR (P_body k s) (\<lambda>(got, s).
     Inr (s, if got then [ASetLevel old] else [ASleep False, ARetry k old]))"

definition Semaphore_P :: "nat \<Rightarrow> 'z Kern_scheme \<Rightarrow> ('z Kern_scheme \<times> action list) res" where
  "Semaphore_P k s = P_retry k (level s) (ChangeLevel IntOff s)"

definition Semaphore_V :: "nat \<Rightarrow> 'z Kern_scheme \<Rightarrow> ('z Kern_scheme \<times> action list) res" where
  "Semaphore_V k s =
     bindR (V_body k (ChangeLevel IntOff s)) (\<lambda>s'. Inr (s', [ASetLevel (level s)]))"

definition Thread_Yield :: "'z Kern_scheme \<Rightarrow> ('z Kern_scheme \<times> action list) res" where
  "Thread_Yield s =
     (let old = level s; t = currentThread s in
      bindR (FindNextToRun (ChangeLevel IntOff s)) (\<lambda>(n, s). case n of
        None \<Rightarrow> Inr (s, [ASetLevel old])
      | Some n \<Rightarrow>
          bindR (ReadyToRun t s) (\<lambda>s.
          bindR (Run_before n False s) (\<lambda>s. Inr (s, [AAfter, ASetLevel old])))))"

text \<open>The interrupt handlers that run while the processor idles or ticks signal semaphores.\<close>

definition Thread_Sleep_loop ::
    "nat list \<Rightarrow> bool \<Rightarrow> 'z Kern_scheme \<Rightarrow> ('z Kern_scheme \<times> action list) res" where
  "Thread_Sleep_loop vs finishing s =
     bindR (FindNextToRun s) (\<lambda>(n, s). case n of
       Some n \<Rightarrow> bindR (Run_before n finishing s) (\<lambda>s. Inr (s, [AAfter]))
     | None \<Rightarrow> bindR (foldR V_body vs s) (\<lambda>s. Inr (s, [ASleep finishing])))"

definition Thread_Finish :: "'z Kern_scheme \<Rightarrow> ('z Kern_scheme \<times> action list) res" where
  "Thread_Finish s =
     bindR (upd_thread (currentThread s) (\<lambda>th. th\<lparr>tstatus := BLOCKED\<rparr>) (ChangeLevel IntOff s)) (\<lambda>s.
     Inr (s, [ASleep True]))"

definition Thread_Begin :: "'z Kern_scheme \<Rightarrow> ('z Kern_scheme \<times> action list) res" where
  "Thread_Begin s = bindR (CheckToBeDestroyed s) (\<lambda>s. Inr (s, [ASetLevel IntOn]))"

definition Interrupt_SetLevel ::
    "nat list \<Rightarrow> bool \<Rightarrow> IntStatus \<Rightarrow> 'z Kern_scheme \<Rightarrow> ('z Kern_scheme \<times> action list) res" where
  "Interrupt_SetLevel vs yield l s =
     bindR (ASSERT (l = IntOff \<or> \<not> inHandler s)) (\<lambda>_.
     if l = IntOn \<and> level s = IntOff
     then bindR (foldR V_body vs s) (\<lambda>s. Inr (ChangeLevel IntOn s, if yield then [AYield] else []))
     else Inr (ChangeLevel l s, []))"

definition Thread_Fork :: "'z Kern_scheme \<Rightarrow> (nat \<times> 'z Kern_scheme \<times> action list) res" where
  "Thread_Fork s =
     (let t = next_thread s;
          s' = s\<lparr>threads := (threads s)(t \<mapsto> (Thread_new (\<lambda>_. 0))\<lparr>fence := Some STACK_FENCEPOST\<rparr>),
                next_thread := Suc t\<rparr>
      in bindR (ReadyToRun t (ChangeLevel IntOff s')) (\<lambda>s'. Inr (t, s', [ASetLevel (level s)])))"

definition act :: "nat list \<times> bool \<Rightarrow> action \<Rightarrow> 'z Kern_scheme \<Rightarrow> ('z Kern_scheme \<times> action list) res" where
  "act orc a s = (case a of
     AP k \<Rightarrow> Semaphore_P k s
   | ARetry k old \<Rightarrow> P_retry k old s
   | AV k \<Rightarrow> Semaphore_V k s
   | ASleep finishing \<Rightarrow> Thread_Sleep_loop (fst orc) finishing s
   | AAfter \<Rightarrow> bindR (Run_after s) (\<lambda>s. Inr (s, []))
   | ABegin \<Rightarrow> Thread_Begin s
   | ASetLevel l \<Rightarrow> Interrupt_SetLevel (fst orc) (snd orc) l s
   | AYield \<Rightarrow> Thread_Yield s
   | AFinish \<Rightarrow> Thread_Finish s
   | AFork p \<Rightarrow> bindR (Thread_Fork s) (\<lambda>(t, s, k). Inr (s, k))
   | AAcquired l \<Rightarrow> bindR (obj (locks s) l) (\<lambda>lk.
       Inr (s\<lparr>locks := (locks s)(l \<mapsto> lk\<lparr>lockHolder := Some (currentThread s)\<rparr>)\<rparr>, []))
   | ARelease l \<Rightarrow> Lock_Release l s
   | AWait c l \<Rightarrow> Condition_Wait c l s
   | ASignal c l \<Rightarrow> Condition_Signal c l s
   | ABroadcast c l \<Rightarrow> Condition_Broadcast c l s)"

definition forked :: "action \<Rightarrow> 'z Kern_scheme \<Rightarrow> (nat \<Rightarrow> action list) \<Rightarrow> nat \<Rightarrow> action list" where
  "forked a s C = (case a of AFork p \<Rightarrow> C(next_thread s := ABegin # p @ [AFinish]) | _ \<Rightarrow> C)"

text \<open>One step of the current thread; a thread without actions is stuck.\<close>

definition kstep :: "nat list \<times> bool \<Rightarrow> 'z Kern_scheme \<times> (nat \<Rightarrow> action list) \<Rightarrow>
    ('z Kern_scheme \<times> (nat \<Rightarrow> action list)) res" where
  "kstep orc = (\<lambda>(s, C). case C (currentThread s) of
     [] \<Rightarrow> Inr (s, C)
   | a # rest \<Rightarrow>
       bindR (act orc a s) (\<lambda>(s', k).
       Inr (s', (forked a s C)(currentThread s := k @ rest))))"

end
