(* ===== verification/Nachos_Sched.thy ===== *)
theory Nachos_Sched
  imports Nachos_Threads
begin

text \<open>
  The invariant of the thread system of \<open>Nachos_Threads\<close>: every thread is in exactly one
  place, its continuation fits the place, and therefore no assertion of the scheduler,
  of the lists or of the semaphores can fail in any step, whatever the interrupt handlers
  do; and locks exclude each other.
\<close>

section \<open>Places and continuations\<close>

definition waits :: "'z Kern_scheme \<Rightarrow> nat \<Rightarrow> nat \<Rightarrow> bool" where
  "waits s t k \<longleftrightarrow> (\<exists>sem. sems s k = Some sem \<and> t \<in> set (sem_queue sem))"

definition lists_ok :: "'z Kern_scheme \<Rightarrow> bool" where
  "lists_ok s \<longleftrightarrow> distinct (readyList s) \<and>
     (\<forall>k sem. sems s k = Some sem \<longrightarrow> distinct (sem_queue sem) \<and> 0 \<le> sem_value sem) \<and>
     (\<forall>t k k'. waits s t k \<longrightarrow> waits s t k' \<longrightarrow> k = k') \<and>
     (\<forall>t k. waits s t k \<longrightarrow> t \<notin> set (readyList s) \<and> threads s t \<noteq> None) \<and>
     (\<forall>t\<in>set (readyList s). threads s t \<noteq> None)"

text \<open>Actions a thread can meet while it runs kernel code outside of the scheduler.\<close>

fun plain :: "action \<Rightarrow> bool" where
  "plain (ASleep _) = False"
| "plain AAfter = False"
| "plain ABegin = False"
| "plain (ARetry _ _) = False"
| "plain (AFork p) = list_all plain p"
| "plain _ = True"

definition tail_ok :: "action list \<Rightarrow> bool" where
  "tail_ok r \<longleftrightarrow> list_all plain r \<or> (\<exists>k old r'. r = ARetry k old # r' \<and> list_all plain r')"

definition running_shape :: "action list \<Rightarrow> bool" where
  "running_shape c \<longleftrightarrow> tail_ok c \<or> (\<exists>r. c = AAfter # r \<and> tail_ok r) \<or>
     (\<exists>r. c = ABegin # r \<and> list_all plain r) \<or> (\<exists>r. c = ASleep True # r)"

text \<open>The objects an action refers to exist.\<close>

fun refs :: "'z Kern_scheme \<Rightarrow> action \<Rightarrow> bool" where
  "refs s (AP k) \<longleftrightarrow> sems s k \<noteq> None"
| "refs s (AV k) \<longleftrightarrow> sems s k \<noteq> None"
| "refs s (ARetry k _) \<longleftrightarrow> sems s k \<noteq> None"
| "refs s (AAcquired l) \<longleftrightarrow> locks s l \<noteq> None"
| "refs s (ARelease l) \<longleftrightarrow> locks s l \<noteq> None"
| "refs s (AWait c l) \<longleftrightarrow> conds s c \<noteq> None \<and> locks s l \<noteq> None"
| "refs s (ASignal c l) \<longleftrightarrow> conds s c \<noteq> None \<and> locks s l \<noteq> None"
| "refs s (ABroadcast c l) \<longleftrightarrow> conds s c \<noteq> None \<and> locks s l \<noteq> None"
| "refs s (AFork p) \<longleftrightarrow> list_all (refs s) p"
| "refs s _ \<longleftrightarrow> True"

definition objs_ok :: "'z Kern_scheme \<Rightarrow> bool" where
  "objs_ok s \<longleftrightarrow> \<not> inHandler s \<and>
     (\<forall>t th. threads s t = Some th \<longrightarrow> t < next_thread s \<and>
        (fence th = None \<or> fence th = Some STACK_FENCEPOST) \<and> (tspace th \<noteq> None \<longrightarrow> machine s \<noteq> None)) \<and>
     (\<forall>k. sems s k \<noteq> None \<longrightarrow> k < next_sem s) \<and>
     (\<forall>l lk. locks s l = Some lk \<longrightarrow> sems s (lock_sem lk) \<noteq> None) \<and>
     (\<forall>c cv. conds s c = Some cv \<longrightarrow> (\<forall>k\<in>set (waitQueue cv). sems s k \<noteq> None))"

definition conts_ok :: "'z Kern_scheme \<Rightarrow> (nat \<Rightarrow> action list) \<Rightarrow> bool" where
  "conts_ok s C \<longleftrightarrow>
     (\<forall>t k. waits s t k \<longrightarrow> (\<exists>old r. list_all plain r \<and>
        C t = (if t = currentThread s then ASleep False else AAfter) # ARetry k old # r)) \<and>
     (\<forall>t\<in>set (readyList s). t \<noteq> currentThread s \<longrightarrow>
        (\<exists>r. C t = AAfter # r \<and> tail_ok r \<or> C t = ABegin # r \<and> list_all plain r)) \<and>
     (currentThread s \<in> set (readyList s) \<longrightarrow>
        (\<exists>k old r. list_all plain r \<and> C (currentThread s) = ASleep False # ARetry k old # r)) \<and>
     (currentThread s \<notin> set (readyList s) \<longrightarrow> (\<forall>k. \<not> waits s (currentThread s) k) \<longrightarrow>
        running_shape (C (currentThread s))) \<and>
     (\<forall>t. threads s t \<noteq> None \<longrightarrow> list_all (refs s) (C t))"

definition switch_ok :: "'z Kern_scheme \<Rightarrow> (nat \<Rightarrow> action list) \<Rightarrow> bool" where
  "switch_ok s C \<longleftrightarrow>
     threads s (currentThread s) \<noteq> None \<and>
     (C (currentThread s) \<noteq> [] \<and> \<not> plain (hd (C (currentThread s))) \<longrightarrow> level s = IntOff) \<and>
     (\<forall>d. toBeDestroyed s = Some d \<longrightarrow> threads s d \<noteq> None \<and> d \<noteq> currentThread s \<and>
        d \<notin> set (readyList s) \<and> (\<forall>k. \<not> waits s d k) \<and>
        (\<exists>r. C (currentThread s) = AAfter # r \<or> C (currentThread s) = ABegin # r))"

definition sched_ok :: "'z Kern_scheme \<Rightarrow> (nat \<Rightarrow> action list) \<Rightarrow> bool" where
  "sched_ok s C \<longleftrightarrow> lists_ok s \<and> objs_ok s \<and> conts_ok s C \<and> switch_ok s C"

text \<open>References stay valid as long as objects only appear.\<close>

lemma refs_mono:
  assumes "\<And>k. sems s k \<noteq> None \<Longrightarrow> sems s' k \<noteq> None" "\<And>l. locks s l \<noteq> None \<Longrightarrow> locks s' l \<noteq> None"
    "\<And>c. conds s c \<noteq> None \<Longrightarrow> conds s' c \<noteq> None"
  shows "refs s a \<Longrightarrow> refs s' a"
  using assms
proof (induction s a rule: refs.induct)
  case (9 s p)
  then show ?case by (simp add: list_all_iff)
qed simp_all

lemma refs_cong:
  assumes "\<And>k. sems s' k = None \<longleftrightarrow> sems s k = None" "\<And>l. locks s' l = None \<longleftrightarrow> locks s l = None"
    "\<And>c. conds s' c = None \<longleftrightarrow> conds s c = None"
  shows "refs s' a \<longleftrightarrow> refs s a"
proof
  assume "refs s' a"
  then show "refs s a" using assms by (intro refs_mono [of s' s a]) simp_all
next
  assume "refs s a"
  then show "refs s' a" using assms by (intro refs_mono [of s s' a]) simp_all
qed

lemma plain_refl [simp]: "plain AYield" "plain AFinish" "plain (ASetLevel l)" "plain (AV k)" "plain (AP k)"
  by simp_all

text \<open>
  The invariant is a property of where the threads are; this lemma moves it between states
  that agree on that.
\<close>

lemma sched_cong:
  assumes "sched_ok s C"
    and "\<And>t k. waits s' t k \<longleftrightarrow> waits s t k" "readyList s' = readyList s"
    and "currentThread s' = currentThread s" "toBeDestroyed s' = toBeDestroyed s"
    and "\<And>t. threads s' t = None \<longleftrightarrow> threads s t = None"
    and "\<And>k. sems s k \<noteq> None \<Longrightarrow> sems s' k \<noteq> None" "\<And>l. locks s l \<noteq> None \<Longrightarrow> locks s' l \<noteq> None"
    and "\<And>c. conds s c \<noteq> None \<Longrightarrow> conds s' c \<noteq> None"
    and "\<And>k sem. sems s' k = Some sem \<Longrightarrow> distinct (sem_queue sem) \<and> 0 \<le> sem_value sem"
    and "objs_ok s'" "level s' = level s \<or> level s' = IntOff"
  shows "sched_ok s' C"
proof -
  have r: "refs s a \<Longrightarrow> refs s' a" for a by (rule refs_mono [OF assms(7-9)])
  have "lists_ok s'" using assms unfolding sched_ok_def lists_ok_def by auto
  moreover have "conts_ok s' C" using assms unfolding sched_ok_def conts_ok_def
    by (simp add: r list.pred_mono_strong [where P = "refs s"])
  moreover have "switch_ok s' C" using assms unfolding sched_ok_def switch_ok_def by auto
  ultimately show ?thesis using assms(11) by (simp add: sched_ok_def)
qed

lemma sched_level_off: "sched_ok s C \<Longrightarrow> sched_ok (ChangeLevel IntOff s) C"
  by (rule sched_cong [where s = s])
     (auto simp: ChangeLevel_def waits_def sched_ok_def lists_ok_def objs_ok_def)

text \<open>The conjuncts of the invariant, as rules.\<close>

lemma waits_cont:
  "sched_ok s C \<Longrightarrow> waits s t k \<Longrightarrow>
   \<exists>old r. list_all plain r \<and> C t = (if t = currentThread s then ASleep False else AAfter) # ARetry k old # r"
  unfolding sched_ok_def conts_ok_def by blast

lemma ready_cont:
  "sched_ok s C \<Longrightarrow> t \<in> set (readyList s) \<Longrightarrow> t \<noteq> currentThread s \<Longrightarrow>
   \<exists>r. C t = AAfter # r \<and> tail_ok r \<or> C t = ABegin # r \<and> list_all plain r"
  unfolding sched_ok_def conts_ok_def by blast

lemma cur_ready_cont:
  "sched_ok s C \<Longrightarrow> currentThread s \<in> set (readyList s) \<Longrightarrow>
   \<exists>k old r. list_all plain r \<and> C (currentThread s) = ASleep False # ARetry k old # r"
  unfolding sched_ok_def conts_ok_def by blast

lemma cur_shape:
  "sched_ok s C \<Longrightarrow> currentThread s \<notin> set (readyList s) \<Longrightarrow> (\<And>k. \<not> waits s (currentThread s) k) \<Longrightarrow>
   running_shape (C (currentThread s))"
  unfolding sched_ok_def conts_ok_def by blast

lemma cont_refs: "sched_ok s C \<Longrightarrow> threads s t \<noteq> None \<Longrightarrow> list_all (refs s) (C t)"
  unfolding sched_ok_def conts_ok_def by blast

lemma waits_unique: "sched_ok s C \<Longrightarrow> waits s t k \<Longrightarrow> waits s t j \<Longrightarrow> k = j"
  unfolding sched_ok_def lists_ok_def by blast

lemma waits_not_ready: "sched_ok s C \<Longrightarrow> waits s t k \<Longrightarrow> t \<notin> set (readyList s)"
  unfolding sched_ok_def lists_ok_def by blast

lemma waits_thread: "sched_ok s C \<Longrightarrow> waits s t k \<Longrightarrow> threads s t \<noteq> None"
  unfolding sched_ok_def lists_ok_def by blast

lemma ready_thread: "sched_ok s C \<Longrightarrow> t \<in> set (readyList s) \<Longrightarrow> threads s t \<noteq> None"
  unfolding sched_ok_def lists_ok_def by blast

lemma ready_distinct: "sched_ok s C \<Longrightarrow> distinct (readyList s)"
  unfolding sched_ok_def lists_ok_def by blast

lemma sem_ok: "sched_ok s C \<Longrightarrow> sems s k = Some sem \<Longrightarrow> distinct (sem_queue sem) \<and> 0 \<le> sem_value sem"
  unfolding sched_ok_def lists_ok_def by blast

lemma sched_objs: "sched_ok s C \<Longrightarrow> objs_ok s"
  unfolding sched_ok_def by blast

lemma not_ready:
  assumes "sched_ok s C" "C (currentThread s) = a # r" "a \<noteq> ASleep False"
  shows "currentThread s \<notin> set (readyList s)"
  using cur_ready_cont [OF assms(1)] assms(2,3) by auto

lemma not_waiting:
  assumes "sched_ok s C" "C (currentThread s) = a # r" "a \<noteq> ASleep False"
  shows "\<not> waits s (currentThread s) k"
  using waits_cont [OF assms(1)] assms(2,3) by fastforce

lemma shape:
  assumes "sched_ok s C" "C (currentThread s) = a # r" "a \<noteq> ASleep False"
  shows "running_shape (a # r)"
  using cur_shape [OF assms(1) not_ready [OF assms] not_waiting [OF assms]] assms(2) by simp

lemma none_destroyed:
  assumes "sched_ok s C" "C (currentThread s) = a # r" "a \<noteq> AAfter" "a \<noteq> ABegin"
  shows "toBeDestroyed s = None"
  using assms unfolding sched_ok_def switch_ok_def by (cases "toBeDestroyed s") auto

lemma head_level:
  assumes "sched_ok s C" "C (currentThread s) = a # r" "\<not> plain a"
  shows "level s = IntOff"
  using assms unfolding sched_ok_def switch_ok_def by auto

lemma cur_thread: "sched_ok s C \<Longrightarrow> \<exists>th. threads s (currentThread s) = Some th"
  unfolding sched_ok_def switch_ok_def by auto

text \<open>A running thread may continue with other plain actions.\<close>

lemma sched_continue:
  assumes ok: "sched_ok s C" and c: "C (currentThread s) = a # r" and a: "a \<noteq> ASleep False" and nd: "toBeDestroyed s = None"
    and c': "tail_ok c'" "list_all (refs s) c'" "list_all plain c' \<or> level s = IntOff"
  shows "sched_ok s (C(currentThread s := c'))"
proof -
  let ?cur = "currentThread s"
  note nr = not_ready [OF ok c a] and nw = not_waiting [OF ok c a]
  have "conts_ok s (C(?cur := c'))" unfolding conts_ok_def
  proof (intro conjI allI impI ballI)
    show "\<exists>old r. list_all plain r \<and>
        (C(?cur := c')) t = (if t = ?cur then ASleep False else AAfter) # ARetry k old # r" if "waits s t k" for t k
      using waits_cont [OF ok that] nw that by (cases "t = ?cur") auto
    show "list_all (refs s) ((C(?cur := c')) t)" if "threads s t \<noteq> None" for t
      using cont_refs [OF ok that] c'(2) by simp
  qed (use ready_cont [OF ok] nr c' in \<open>simp_all add: running_shape_def\<close>)
  moreover have "switch_ok s (C(?cur := c'))"
    using ok nd c'(3) unfolding sched_ok_def switch_ok_def by (cases c') auto
  ultimately show ?thesis using ok by (simp add: sched_ok_def)
qed

lemma sched_plain:
  assumes ok: "sched_ok s C" and c: "C (currentThread s) = a # r" and a: "a \<noteq> ASleep False" "a \<noteq> AAfter" "a \<noteq> ABegin"
    and c': "tail_ok c'" "list_all (refs s) c'" "list_all plain c' \<or> level s = IntOff"
  shows "sched_ok s (C(currentThread s := c'))"
  by (rule sched_continue [OF ok c a(1) none_destroyed [OF ok c a(2,3)] c'])

section \<open>What the operations do to the places\<close>

lemma ReadyToRun_eq:
  assumes "level s = IntOff" "threads s t = Some th" "t \<notin> set (readyList s)"
  shows "ReadyToRun t s = Inr (s\<lparr>threads := (threads s)(t \<mapsto> th\<lparr>tstatus := READY\<rparr>),
           readyList := readyList s @ [t]\<rparr>)"
  using assms by (simp add: ReadyToRun_def upd_thread_def obj_def seq_Append_def)

definition woken :: "nat \<Rightarrow> Semaphore \<Rightarrow> nat \<Rightarrow> Thread \<Rightarrow> nat list \<Rightarrow> 'z Kern_scheme \<Rightarrow> 'z Kern_scheme" where
  "woken k sem t th q s = s\<lparr>threads := (threads s)(t \<mapsto> th\<lparr>tstatus := READY\<rparr>),
     readyList := readyList s @ [t],
     sems := (sems s)(k \<mapsto> \<lparr>sem_value = sem_value sem + 1, sem_queue = q\<rparr>)\<rparr>"

lemma V_body_empty:
  assumes "sems s k = Some sem" "sem_queue sem = []"
  shows "V_body k s = Inr (s\<lparr>sems := (sems s)(k \<mapsto> \<lparr>sem_value = sem_value sem + 1, sem_queue = []\<rparr>)\<rparr>)"
  using assms by (simp add: V_body_def obj_def)

lemma V_body_wake:
  assumes "sems s k = Some sem" "sem_queue sem = t # q" "level s = IntOff" "threads s t = Some th"
    "t \<notin> set (readyList s)"
  shows "V_body k s = Inr (woken k sem t th q s)"
  using assms by (simp add: V_body_def obj_def seq_RemoveFront_def ReadyToRun_eq woken_def)

lemma sched_lists: "sched_ok s C \<Longrightarrow> lists_ok s"
  by (simp add: sched_ok_def)

lemma lists_rules:
  assumes "lists_ok s"
  shows "distinct (readyList s)" "sems s k = Some sem \<Longrightarrow> distinct (sem_queue sem) \<and> 0 \<le> sem_value sem"
    "waits s t k \<Longrightarrow> waits s t j \<Longrightarrow> k = j" "waits s t k \<Longrightarrow> t \<notin> set (readyList s) \<and> threads s t \<noteq> None"
    "t \<in> set (readyList s) \<Longrightarrow> threads s t \<noteq> None"
  using assms unfolding lists_ok_def by blast+

lemma waits_woken:
  assumes ok: "lists_ok s" and k: "sems s k = Some sem" "sem_queue sem = t # q"
  shows "waits (woken k sem t th q s) u j \<longleftrightarrow> waits s u j \<and> u \<noteq> t"
proof -
  have d: "t \<notin> set q" using lists_rules(2) [OF ok k(1)] k(2) by simp
  have t: "waits s t k" using k by (simp add: waits_def)
  show ?thesis
  proof (cases "j = k")
    case True
    then show ?thesis using d k by (auto simp: waits_def woken_def)
  next
    case False
    then have "waits (woken k sem t th q s) u j \<longleftrightarrow> waits s u j" by (simp add: waits_def woken_def)
    with False lists_rules(3) [OF ok t] show ?thesis by blast
  qed
qed

lemma lists_woken:
  assumes ok: "lists_ok s" and k: "sems s k = Some sem" "sem_queue sem = t # q" and th: "threads s t = Some th"
  shows "lists_ok (woken k sem t th q s)"
  unfolding lists_ok_def
proof (intro conjI allI impI ballI)
  let ?s' = "woken k sem t th q s"
  note w = waits_woken [OF ok k, of th]
  have tk: "waits s t k" using k by (simp add: waits_def)
  have dom: "threads ?s' u = None \<longleftrightarrow> threads s u = None" for u using th by (simp add: woken_def)
  have rl: "readyList ?s' = readyList s @ [t]" by (simp add: woken_def)
  show "distinct (readyList ?s')" using lists_rules(1,4) [OF ok] tk by (auto simp: rl)
  show "distinct (sem_queue x)" "0 \<le> sem_value x" if "sems ?s' j = Some x" for j x
    using that lists_rules(2) [OF ok, of j x] lists_rules(2) [OF ok k(1)] k(2) by (auto simp: woken_def split: if_splits)
  show "u \<notin> set (readyList ?s')" "threads ?s' u \<noteq> None" if "waits ?s' u j" for u j
    using that lists_rules(4) [OF ok, of u j] by (simp_all add: w rl dom)
  show "threads ?s' u \<noteq> None" if "u \<in> set (readyList ?s')" for u
    using that lists_rules(5) [OF ok, of u] th by (auto simp: rl dom)
  show "i = j" if "waits ?s' u i" "waits ?s' u j" for u i j
    using that lists_rules(3) [OF ok, of u i j] by (simp add: w)
qed

lemma V_lists:
  assumes ok: "lists_ok s" and lev: "level s = IntOff" and k: "sems s k = Some sem"
  shows "\<exists>s'. V_body k s = Inr s' \<and> lists_ok s'"
proof (cases "sem_queue sem")
  case Nil
  let ?s' = "s\<lparr>sems := (sems s)(k \<mapsto> \<lparr>sem_value = sem_value sem + 1, sem_queue = []\<rparr>)\<rparr>"
  have w: "waits ?s' t j \<longleftrightarrow> waits s t j" for t j using k Nil by (auto simp: waits_def)
  have "0 \<le> sem_value sem" using lists_rules(2) [OF ok k] by simp
  then have "lists_ok ?s'" using ok unfolding lists_ok_def w by simp
  then show ?thesis using V_body_empty [OF k Nil] by blast
next
  case (Cons t q)
  have tk: "waits s t k" using k Cons by (simp add: waits_def)
  then obtain th where th: "threads s t = Some th" and nr: "t \<notin> set (readyList s)" using lists_rules(4) [OF ok] by blast
  show ?thesis using V_body_wake [OF k Cons lev th nr] lists_woken [OF ok k Cons th] by blast
qed

text \<open>Waking a thread moves it from its queue to the ready list and keeps the invariant.\<close>

lemma objs_ok_cong:
  assumes "objs_ok s"
    and "inHandler s' = inHandler s" "machine s' = None \<longleftrightarrow> machine s = None" "next_thread s' = next_thread s"
      "next_sem s' = next_sem s" "\<And>k. sems s' k = None \<longleftrightarrow> sems s k = None"
    and "\<And>t th. threads s' t = Some th \<Longrightarrow>
      \<exists>th0. threads s t = Some th0 \<and> fence th = fence th0 \<and> (tspace th = None \<longleftrightarrow> tspace th0 = None)"
    and "\<And>l lk. locks s' l = Some lk \<Longrightarrow> \<exists>lk0. locks s l = Some lk0 \<and> lock_sem lk = lock_sem lk0"
    and "\<And>c cv. conds s' c = Some cv \<Longrightarrow> \<exists>cv0. conds s c = Some cv0 \<and> set (waitQueue cv) \<subseteq> set (waitQueue cv0)"
  shows "objs_ok s'"
  unfolding objs_ok_def
proof (intro conjI allI impI ballI)
  note o = assms(1) [unfolded objs_ok_def]
  show "\<not> inHandler s'" using o assms(2) by simp
  show "k < next_sem s'" if "sems s' k \<noteq> None" for k
    using o [THEN conjunct2, THEN conjunct2, THEN conjunct1, rule_format, of k] that assms(5,6) by simp
  fix t th
  assume th: "threads s' t = Some th"
  obtain th0 where th0: "threads s t = Some th0" "fence th = fence th0" "tspace th = None \<longleftrightarrow> tspace th0 = None"
    using assms(7) [OF th] by (elim exE conjE)
  note ot = o [THEN conjunct2, THEN conjunct1, rule_format, OF th0(1)]
  show "t < next_thread s'" using ot assms(4) by simp
  show "fence th = None \<or> fence th = Some STACK_FENCEPOST" using ot th0(2) by simp
  show "machine s' \<noteq> None" if "tspace th \<noteq> None" using ot th0(3) that assms(3) by simp
next
  note o = assms(1) [unfolded objs_ok_def, THEN conjunct2, THEN conjunct2, THEN conjunct2]
  fix l lk
  assume lk: "locks s' l = Some lk"
  obtain lk0 where "locks s l = Some lk0" "lock_sem lk = lock_sem lk0" using assms(8) [OF lk] by (elim exE conjE)
  then show "sems s' (lock_sem lk) \<noteq> None"
    using o [THEN conjunct1, rule_format, of l lk0] assms(6) by simp
next
  note o = assms(1) [unfolded objs_ok_def, THEN conjunct2, THEN conjunct2, THEN conjunct2]
  fix c cv k
  assume cv: "conds s' c = Some cv" "k \<in> set (waitQueue cv)"
  obtain cv0 where cv0: "conds s c = Some cv0" "set (waitQueue cv) \<subseteq> set (waitQueue cv0)"
    using assms(9) [OF cv(1)] by (elim exE conjE)
  then show "sems s' k \<noteq> None"
    using o [THEN conjunct2, rule_format, OF cv0(1) subsetD [OF cv0(2) cv(2)]] assms(6) by simp
qed

lemma sched_woken:
  assumes ok: "sched_ok s C" and k: "sems s k = Some sem" "sem_queue sem = t # q" and th: "threads s t = Some th"
  shows "sched_ok (woken k sem t th q s) C"
proof -
  let ?s' = "woken k sem t th q s"
  have tk: "waits s t k" using k by (simp add: waits_def)
  note w = waits_woken [OF sched_lists [OF ok] k, of th]
  have dom: "threads ?s' u = None \<longleftrightarrow> threads s u = None" "sems ?s' j = None \<longleftrightarrow> sems s j = None" for u j
    using th k by (simp_all add: woken_def)
  have same: "currentThread ?s' = currentThread s" "toBeDestroyed ?s' = toBeDestroyed s" "level ?s' = level s"
    "readyList ?s' = readyList s @ [t]" by (simp_all add: woken_def)
  have r: "refs ?s' a \<longleftrightarrow> refs s a" for a using k by (intro refs_cong) (auto simp: woken_def)
  obtain old r0 where tc: "list_all plain r0"
      "C t = (if t = currentThread s then ASleep False else AAfter) # ARetry k old # r0"
    using waits_cont [OF ok tk] by blast
  have "lists_ok ?s'" by (rule lists_woken [OF sched_lists [OF ok] k th])
  moreover have "objs_ok ?s'"
    by (rule objs_ok_cong [OF sched_objs [OF ok]]) (use th k in \<open>auto simp: woken_def split: if_splits\<close>)
  moreover have "conts_ok ?s' C" unfolding conts_ok_def same
  proof (intro conjI allI impI ballI)
    show "\<exists>old r. list_all plain r \<and> C u = (if u = currentThread s then ASleep False else AAfter) # ARetry j old # r"
      if "waits ?s' u j" for u j using that waits_cont [OF ok, of u j] by (simp add: w)
    show "\<exists>r. C u = AAfter # r \<and> tail_ok r \<or> C u = ABegin # r \<and> list_all plain r"
      if "u \<in> set (readyList s @ [t])" "u \<noteq> currentThread s" for u
      using that ready_cont [OF ok, of u] tc by (auto simp: tail_ok_def)
    show "\<exists>k old r. list_all plain r \<and> C (currentThread s) = ASleep False # ARetry k old # r"
      if "currentThread s \<in> set (readyList s @ [t])"
      using that cur_ready_cont [OF ok] tc by auto
    show "running_shape (C (currentThread s))"
      if "currentThread s \<notin> set (readyList s @ [t])" "\<forall>k. \<not> waits ?s' (currentThread s) k"
      using that cur_shape [OF ok] by (simp add: w)
    show "list_all (refs ?s') (C u)" if "threads ?s' u \<noteq> None" for u
      using that cont_refs [OF ok, of u] by (simp add: r dom cong: list.pred_cong)
  qed
  moreover have "switch_ok ?s' C"
    using ok tk unfolding sched_ok_def switch_ok_def same by (auto simp: w dom)
  ultimately show ?thesis by (simp add: sched_ok_def)
qed

text \<open>The body of \<open>V\<close> never fails and keeps the invariant; only the ready list and the semaphore change.\<close>

definition same_rest :: "'z Kern_scheme \<Rightarrow> 'z Kern_scheme \<Rightarrow> bool" where
  "same_rest s s' \<longleftrightarrow> level s' = level s \<and> currentThread s' = currentThread s \<and> locks s' = locks s \<and>
     conds s' = conds s \<and> next_thread s' = next_thread s \<and> next_sem s' = next_sem s \<and>
     toBeDestroyed s' = toBeDestroyed s \<and> machine s' = machine s \<and>
     (\<forall>k. sems s' k = None \<longleftrightarrow> sems s k = None)"

lemma V_body_ok:
  assumes ok: "sched_ok s C" and lev: "level s = IntOff" and k: "sems s k = Some sem"
  shows "\<exists>s'. V_body k s = Inr s' \<and> sched_ok s' C \<and> same_rest s s' \<and>
    (\<exists>sem'. sems s' = (sems s)(k \<mapsto> sem') \<and> sem_value sem' = sem_value sem + 1)"
proof (cases "sem_queue sem")
  case Nil
  let ?s' = "s\<lparr>sems := (sems s)(k \<mapsto> \<lparr>sem_value = sem_value sem + 1, sem_queue = []\<rparr>)\<rparr>"
  have "sched_ok ?s' C"
  proof (rule sched_cong [OF ok])
    show "waits ?s' t j \<longleftrightarrow> waits s t j" for t j using k Nil by (auto simp: waits_def)
    show "distinct (sem_queue x) \<and> 0 \<le> sem_value x" if "sems ?s' j = Some x" for j x
      using that sem_ok [OF ok, of j x] sem_ok [OF ok k] by (auto split: if_splits)
    show "objs_ok ?s'" by (rule objs_ok_cong [OF sched_objs [OF ok]]) (use k in auto)
  qed (use k in auto)
  then show ?thesis using V_body_empty [OF k Nil] k by (auto simp: same_rest_def)
next
  case (Cons t q)
  have tk: "waits s t k" using k Cons by (simp add: waits_def)
  obtain th where th: "threads s t = Some th" using waits_thread [OF ok tk] by auto
  show ?thesis
    using V_body_wake [OF k Cons lev th waits_not_ready [OF ok tk]] sched_woken [OF ok k Cons th] k
    by (auto simp: same_rest_def woken_def)
qed

lemma foldR_V_ok:
  assumes "sched_ok s C" "level s = IntOff" "\<forall>k\<in>set vs. sems s k \<noteq> None"
  shows "\<exists>s'. foldR V_body vs s = Inr s' \<and> sched_ok s' C \<and> same_rest s s'"
  using assms
proof (induction vs arbitrary: s)
  case Nil
  then show ?case by (simp add: same_rest_def)
next
  case (Cons k vs)
  from Cons.prems(3) obtain sem where sem: "sems s k = Some sem" by auto
  obtain s1 where s1: "V_body k s = Inr s1" "sched_ok s1 C" "same_rest s s1"
    using V_body_ok [OF Cons.prems(1,2) sem] by blast
  have "level s1 = IntOff" "\<forall>k\<in>set vs. sems s1 k \<noteq> None"
    using s1(3) Cons.prems(2,3) by (simp_all add: same_rest_def)
  then obtain s2 where s2: "foldR V_body vs s1 = Inr s2" "sched_ok s2 C" "same_rest s1 s2"
    using Cons.IH [OF s1(2)] by blast
  then show ?case using s1 by (simp add: same_rest_def)
qed

subsection \<open>Context switch\<close>

text \<open>The two states have the same threads in the same places; registers, page tables and status may differ.\<close>

definition agree :: "'z Kern_scheme \<Rightarrow> 'z Kern_scheme \<Rightarrow> bool" where
  "agree s s' \<longleftrightarrow> readyList s' = readyList s \<and> sems s' = sems s \<and> locks s' = locks s \<and> conds s' = conds s \<and>
     next_thread s' = next_thread s \<and> next_sem s' = next_sem s \<and> level s' = level s \<and>
     inHandler s' = inHandler s \<and> (machine s' = None \<longleftrightarrow> machine s = None)"

definition same_kind :: "Thread option \<Rightarrow> Thread option \<Rightarrow> bool" where
  "same_kind x y \<longleftrightarrow> (x = None \<longleftrightarrow> y = None) \<and>
     (x \<noteq> None \<longrightarrow> fence (the x) = fence (the y) \<and> (tspace (the x) = None \<longleftrightarrow> tspace (the y) = None))"

lemma same_kind_refl [simp]: "same_kind x x"
  by (simp add: same_kind_def)

lemma foldR_ReadRegister:
  "n \<le> NumTotalRegs \<Longrightarrow>
   foldR (\<lambda>i regs. bindR (ReadRegister m (int i)) (\<lambda>v. Inr (regs(i := v)))) [0..<n] f =
   Inr (\<lambda>i. if i < n then registers m i else f i)"
proof (induction n)
  case (Suc n)
  then show ?case by (auto simp: foldR_append ReadRegister_def fun_eq_iff less_Suc_eq)
qed simp

lemma foldR_WriteRegister:
  "n \<le> NumTotalRegs \<Longrightarrow>
   foldR (\<lambda>i m. WriteRegister m (int i) (f i)) [0..<n] m =
   Inr (m\<lparr>registers := \<lambda>i. if i < n then f i else registers m i\<rparr>)"
proof (induction n)
  case (Suc n)
  then show ?case
    by (auto simp: foldR_append WriteRegister_def setReg_def fun_eq_iff less_Suc_eq intro!: Machine.equality)
qed simp

text \<open>What the switch stores with a thread: its registers and its page table.\<close>

definition saved :: "Machine \<Rightarrow> Thread \<Rightarrow> Thread" where
  "saved m th = th\<lparr>userRegisters := \<lambda>i. if i < NumTotalRegs then registers m i else userRegisters th i,
     tspace := (case (tspace th, pageTable m) of (Some (_, n), Some pt) \<Rightarrow> Some (pt, n) | _ \<Rightarrow> tspace th)\<rparr>"

definition restored :: "Thread \<Rightarrow> Machine \<Rightarrow> Machine" where
  "restored th m = (case tspace th of None \<Rightarrow> m | Some (pt, n) \<Rightarrow>
     m\<lparr>registers := \<lambda>i. if i < NumTotalRegs then userRegisters th i else registers m i,
       pageTable := Some pt, pageTableSize := n\<rparr>)"

lemma save_eq:
  assumes "threads s t = Some th" "machine s = Some m"
  shows "bindR (SaveUserState t s) (space_SaveState t) = Inr (s\<lparr>threads := (threads s)(t \<mapsto> saved m th)\<rparr>)"
  using assms
  by (cases th) (simp add: SaveUserState_def space_SaveState_def the_machine_def obj_def upd_thread_def foldR_ReadRegister saved_def
        split: option.split prod.split)

lemma restore_eq:
  assumes "threads s t = Some th" "machine s = Some m" "tspace th \<noteq> None"
  shows "bindR (RestoreUserState t s) (space_RestoreState t) = Inr (s\<lparr>machine := Some (restored th m)\<rparr>)"
  using assms
  by (auto simp: RestoreUserState_def space_RestoreState_def the_machine_def obj_def foldR_WriteRegister restored_def
        split: option.split prod.split)

definition switched :: "nat \<Rightarrow> bool \<Rightarrow> 'z Kern_scheme \<Rightarrow> 'z Kern_scheme" where
  "switched n finishing s =
     (let cur = currentThread s; th = the (threads s cur);
          ths = (if tspace th \<noteq> None then (threads s)(cur \<mapsto> saved (the (machine s)) th) else threads s)
      in s\<lparr>toBeDestroyed := if finishing then Some cur else toBeDestroyed s, currentThread := n,
           threads := ths(n \<mapsto> (the (ths n))\<lparr>tstatus := RUNNING\<rparr>)\<rparr>)"

lemma fence_saved [simp]: "fence (saved m th) = fence th"
  by (simp add: saved_def)

lemma tspace_saved [simp]: "tspace (saved m th) = None \<longleftrightarrow> tspace th = None"
  by (simp add: saved_def split: option.split prod.split)

lemma thread_ok:
  assumes "objs_ok s" "threads s t = Some th"
  shows "t < next_thread s" "fence th = None \<or> fence th = Some STACK_FENCEPOST" "tspace th \<noteq> None \<Longrightarrow> machine s \<noteq> None"
  using assms unfolding objs_ok_def by blast+

lemma Run_before_eq:
  assumes lev: "level s = IntOff" and o: "objs_ok s" and th: "threads s (currentThread s) = Some th"
    and n: "threads s n \<noteq> None" and f: "finishing \<Longrightarrow> toBeDestroyed s = None"
  shows "Run_before n finishing s = Inr (switched n finishing s)"
proof -
  define s1 where "s1 = s\<lparr>toBeDestroyed := if finishing then Some (currentThread s) else toBeDestroyed s\<rparr>"
  have 1: "(if finishing then bindR (ASSERT (toBeDestroyed s = None)) (\<lambda>_. Inr (s\<lparr>toBeDestroyed := Some (currentThread s)\<rparr>))
       else Inr s) = Inr s1" using f by (cases finishing) (simp_all add: s1_def)
  have th1: "threads s1 (currentThread s) = Some th" using th by (simp add: s1_def)
  define s2 where "s2 = s1\<lparr>threads := if tspace th \<noteq> None then (threads s)(currentThread s \<mapsto> saved (the (machine s)) th)
                         else threads s\<rparr>"
  have 2: "(if tspace th \<noteq> None then bindR (SaveUserState (currentThread s) s1) (\<lambda>s'. space_SaveState (currentThread s) s')
       else Inr s1) = Inr s2"
  proof (cases "tspace th = None")
    case False
    then obtain m where "machine s = Some m" using thread_ok(3) [OF o th] by auto
    then show ?thesis using False save_eq [OF th1, of m] by (simp add: s1_def s2_def)
  qed (simp add: s1_def s2_def)
  obtain th2 where th2: "threads s2 (currentThread s) = Some th2" "fence th2 = fence th"
    using th by (cases "tspace th = None") (simp_all add: s2_def)
  have 3: "CheckOverflow (currentThread s) s2 = Inr ()"
    using th2 thread_ok(2) [OF o th] by (auto simp: CheckOverflow_def obj_def)
  obtain tn where tn: "threads s2 n = Some tn" using n
    by (cases "tspace th = None"; cases "n = currentThread s") (auto simp: s2_def)
  have 4: "upd_thread n (\<lambda>th. th\<lparr>tstatus := RUNNING\<rparr>) (s2\<lparr>currentThread := n\<rparr>) = Inr (switched n finishing s)"
  proof -
    have "switched n finishing s = s2\<lparr>currentThread := n, threads := (threads s2)(n \<mapsto> (the (threads s2 n))\<lparr>tstatus := RUNNING\<rparr>)\<rparr>"
      using th by (simp add: switched_def Let_def s2_def s1_def)
    then show ?thesis by (simp add: upd_thread_def obj_def tn)
  qed
  show ?thesis
    by (simp only: Run_before_def Let_def lev 1 2 3 4 th1 obj_def bindR_simps option.case ASSERT_simps simp_thms)
qed

text \<open>Everything but the current thread, its status and what was saved stays as it was.\<close>

lemma switched_same:
  "agree s (switched n fin s)" "currentThread (switched n fin s) = n" "machine (switched n fin s) = machine s"
  "toBeDestroyed (switched n fin s) = (if fin then Some (currentThread s) else toBeDestroyed s)"
  "waits (switched n fin s) t k \<longleftrightarrow> waits s t k"
  by (simp_all add: switched_def agree_def Let_def waits_def)

lemma refs_agree: "agree s s' \<Longrightarrow> refs s' a \<longleftrightarrow> refs s a"
  by (rule refs_cong) (simp_all add: agree_def)

lemma switched_threads:
  assumes "threads s (currentThread s) = Some th" "threads s n \<noteq> None"
  shows "same_kind (threads s t) (threads (switched n fin s) t)"
  using assms by (cases "tspace th = None") (auto simp: switched_def Let_def same_kind_def)

lemma objs_ok_agree:
  assumes "objs_ok s" "agree s s'" "\<And>t. same_kind (threads s t) (threads s' t)"
  shows "objs_ok s'"
proof (rule objs_ok_cong [OF assms(1)])
  show "\<exists>th0. threads s t = Some th0 \<and> fence th = fence th0 \<and> (tspace th = None \<longleftrightarrow> tspace th0 = None)"
    if "threads s' t = Some th" for t th
    using assms(3) [of t] that by (auto simp: same_kind_def)
qed (use assms(2) in \<open>simp_all add: agree_def\<close>)

text \<open>
  The switch. \<open>s\<close> is the state before the chosen thread was taken off the ready list; \<open>r\<close> is the
  ready list at the switch (the old thread is on it when it yields) and \<open>c\<close> the continuation
  the old thread has left.
\<close>

lemma sched_switch:
  assumes ok: "sched_ok s C" and rl: "readyList s = n # r" and lev: "level s = IntOff"
    and s1: "s1 = s\<lparr>readyList := r'\<rparr>" and r': "set r' = set r \<union> Y" "distinct r'" "Y \<subseteq> {currentThread s}" "n \<notin> Y"
    and cur: "\<And>k. waits s (currentThread s) k \<Longrightarrow> \<exists>old d. c = AAfter # ARetry k old # d \<and> list_all plain d"
      "currentThread s \<in> set (n # r) \<or> Y \<noteq> {} \<Longrightarrow> \<exists>d. c = AAfter # d \<and> tail_ok d"
      "\<And>k. Y \<noteq> {} \<Longrightarrow> \<not> waits s (currentThread s) k"
    and refs: "list_all (refs s) c"
    and fin: "fin \<Longrightarrow> toBeDestroyed s = None \<and> currentThread s \<notin> set (n # r) \<and> Y = {} \<and> (\<forall>k. \<not> waits s (currentThread s) k)"
      "\<not> fin \<Longrightarrow> toBeDestroyed s = None"
  shows "sched_ok (switched n fin s1) (C(currentThread s := c))"
proof -
  let ?s' = "switched n fin s1" and ?old = "currentThread s" and ?C = "C(currentThread s := c)"
  obtain th where th: "threads s ?old = Some th" using cur_thread [OF ok] by blast
  have nt: "threads s n \<noteq> None" using ready_thread [OF ok] rl by simp
  note sw = switched_same [where s = s1 and n = n and fin = fin]
  have kind: "same_kind (threads s t) (threads ?s' t)" for t
    using switched_threads [where s = s1 and th = th and n = n and t = t and fin = fin] th nt by (simp add: s1)
  then have dom: "threads ?s' t = None \<longleftrightarrow> threads s t = None" for t by (simp add: same_kind_def)
  have w: "waits ?s' t k \<longleftrightarrow> waits s t k" for t k using sw(5) [of t k] by (simp add: s1 waits_def)
  have rl': "readyList ?s' = r'" and se: "sems ?s' = sems s" and cu: "currentThread ?s' = n" and lv: "level ?s' = IntOff"
    and td: "toBeDestroyed ?s' = (if fin then Some ?old else None)"
    using sw fin lev by (auto simp: agree_def s1)
  have nr: "n \<notin> set r" "n \<notin> set r'" using ready_distinct [OF ok] rl r' by auto
  have nw: "\<not> waits s n k" for k using waits_not_ready [OF ok, of n k] rl by auto
  have rf: "refs ?s' a \<longleftrightarrow> refs s a" for a
    using refs_agree [OF sw(1), of a] refs_cong [of s1 s a] by (simp add: s1)
  have Cn: "\<exists>d. ?C n = AAfter # d \<and> tail_ok d \<or> ?C n = ABegin # d \<and> list_all plain d"
    using ready_cont [OF ok, of n] cur(2) rl by (cases "n = ?old") auto
  have "lists_ok ?s'" unfolding lists_ok_def
  proof (intro conjI allI impI ballI)
    show "distinct (readyList ?s')" using r' by (simp add: rl')
    show "distinct (sem_queue x)" "0 \<le> sem_value x" if "sems ?s' j = Some x" for j x
      using that sem_ok [OF ok, of j x] by (simp_all add: se)
    show "u \<notin> set (readyList ?s')" if "waits ?s' u j" for u j
      using that waits_not_ready [OF ok, of u j] cur(3) [of j] r' rl by (auto simp: w rl')
    show "threads ?s' u \<noteq> None" if "waits ?s' u j" for u j
      using that waits_thread [OF ok, of u j] by (simp add: w dom)
    show "threads ?s' u \<noteq> None" if "u \<in> set (readyList ?s')" for u
      using that ready_thread [OF ok, of u] th r' rl by (auto simp: rl' dom)
  qed (use w waits_unique [OF ok] in blast)
  moreover have "objs_ok ?s'"
  proof (rule objs_ok_agree [OF _ sw(1)])
    show "objs_ok s1" by (rule objs_ok_cong [OF sched_objs [OF ok]]) (simp_all add: s1)
    show "same_kind (threads s1 t) (threads ?s' t)" for t using kind [of t] by (simp add: s1)
  qed
  moreover have "conts_ok ?s' ?C" unfolding conts_ok_def cu rl' w
  proof (intro conjI allI impI ballI)
    show "\<exists>old d. list_all plain d \<and> ?C u = (if u = n then ASleep False else AAfter) # ARetry j old # d"
      if u: "waits s u j" for u j
    proof -
      have "u \<noteq> n" using nw u by blast
      then show ?thesis using cur(1) [of j] u waits_cont [OF ok u] by (cases "u = ?old") auto
    qed
    show "\<exists>d. ?C u = AAfter # d \<and> tail_ok d \<or> ?C u = ABegin # d \<and> list_all plain d"
      if u: "u \<in> set r'" "u \<noteq> n" for u
    proof (cases "u = ?old")
      case True
      then show ?thesis using cur(2) u r'(1) by auto
    next
      case False
      then show ?thesis using ready_cont [OF ok, of u] u r' rl by auto
    qed
    show "running_shape (?C n)" using Cn by (auto simp: running_shape_def)
    show "list_all (refs ?s') (?C u)" if "threads ?s' u \<noteq> None" for u
      using that cont_refs [OF ok, of u] refs by (simp add: rf dom cong: list.pred_cong)
  qed (use nr in simp)
  moreover have "switch_ok ?s' ?C" unfolding switch_ok_def cu td rl' lv w dom
    using Cn nt th fin(1) rl r' by (cases fin) auto
  ultimately show ?thesis by (simp add: sched_ok_def)
qed

subsection \<open>The actions\<close>

text \<open>
  What is shown of an action: it returns, and the invariant holds again when the returned
  actions are put in front of the rest of the continuation.
\<close>

definition step_ok :: "'z Kern_scheme \<Rightarrow> (nat \<Rightarrow> action list) \<Rightarrow> action list \<Rightarrow> ('z Kern_scheme \<times> action list) res \<Rightarrow> bool" where
  "step_ok s C r x \<longleftrightarrow> (\<exists>s' k. x = Inr (s', k) \<and> sched_ok s' (C(currentThread s := k @ r)))"

lemma step_okI: "x = Inr (s', k) \<Longrightarrow> sched_ok s' (C(currentThread s := k @ r)) \<Longrightarrow> step_ok s C r x"
  by (auto simp: step_ok_def)

lemma tail_plain:
  assumes "sched_ok s C" "C (currentThread s) = a # r" "plain a"
  shows "list_all plain r"
  using shape [OF assms(1,2)] assms(3) by (fastforce simp: running_shape_def tail_ok_def)

lemma tail_refs:
  assumes "sched_ok s C" "C (currentThread s) = a # r"
  shows "list_all (refs s) (a # r)"
  using cont_refs [OF assms(1), of "currentThread s"] cur_thread [OF assms(1)] assms(2) by auto

lemma sched_sem_value:
  assumes ok: "sched_ok s C" and k: "sems s k = Some sem" and v: "0 \<le> v"
  shows "sched_ok (s\<lparr>sems := (sems s)(k \<mapsto> sem\<lparr>sem_value := v\<rparr>)\<rparr>) C" (is "sched_ok ?s' C")
proof (rule sched_cong [OF ok])
  show "waits ?s' t j \<longleftrightarrow> waits s t j" for t j using k by (auto simp: waits_def)
  show "distinct (sem_queue x) \<and> 0 \<le> sem_value x" if "sems ?s' j = Some x" for j x
    using that sem_ok [OF ok, of j x] sem_ok [OF ok k] v by (auto split: if_splits)
  show "objs_ok ?s'" by (rule objs_ok_cong [OF sched_objs [OF ok]]) (use k in auto)
qed (use k in auto)

text \<open>A thread that finds the value zero is put on the queue and will sleep.\<close>

definition blocked :: "nat \<Rightarrow> Semaphore \<Rightarrow> Thread \<Rightarrow> 'z Kern_scheme \<Rightarrow> 'z Kern_scheme" where
  "blocked k sem th s = s\<lparr>sems := (sems s)(k \<mapsto> sem\<lparr>sem_queue := sem_queue sem @ [currentThread s]\<rparr>),
     threads := (threads s)(currentThread s \<mapsto> th\<lparr>tstatus := BLOCKED\<rparr>)\<rparr>"

lemma sched_blocked:
  assumes ok: "sched_ok s C" and c: "C (currentThread s) = a # r" and a: "a \<noteq> ASleep False" "a \<noteq> AAfter" "a \<noteq> ABegin"
    and k: "sems s k = Some sem" and th: "threads s (currentThread s) = Some th"
    and r: "list_all plain r" and lev: "level s = IntOff"
  shows "sched_ok (blocked k sem th s) (C(currentThread s := ASleep False # ARetry k old # r))"
proof -
  let ?s' = "blocked k sem th s" and ?cur = "currentThread s" and ?C = "C(currentThread s := ASleep False # ARetry k old # r)"
  note nr = not_ready [OF ok c a(1)] and nw = not_waiting [OF ok c a(1)]
  have w: "waits ?s' u j \<longleftrightarrow> waits s u j \<or> u = ?cur \<and> j = k" for u j
    using k by (auto simp: waits_def blocked_def)
  have same: "currentThread ?s' = ?cur" "readyList ?s' = readyList s" "level ?s' = IntOff"
    "toBeDestroyed ?s' = None" "threads ?s' u = None \<longleftrightarrow> threads s u = None" for u
    using th none_destroyed [OF ok c a(2,3)] lev by (simp_all add: blocked_def)
  have rf: "refs ?s' x \<longleftrightarrow> refs s x" for x by (rule refs_cong) (use k in \<open>auto simp: blocked_def\<close>)
  have "lists_ok ?s'" unfolding lists_ok_def w same
  proof (intro conjI allI impI ballI)
    show "distinct (sem_queue x)" "0 \<le> sem_value x" if "sems ?s' j = Some x" for j x
      using that sem_ok [OF ok, of j x] sem_ok [OF ok k] nw [of k] k
      by (auto simp: blocked_def waits_def split: if_splits)
    show "u \<notin> set (readyList s)" "threads s u \<noteq> None" if "waits s u j \<or> u = ?cur \<and> j = k" for u j
      using that waits_not_ready [OF ok, of u j] waits_thread [OF ok, of u j] nr th by auto
    show "i = j" if "waits s u i \<or> u = ?cur \<and> i = k" "waits s u j \<or> u = ?cur \<and> j = k" for u i j
      using that waits_unique [OF ok, of u i j] nw by auto
  qed (use ready_distinct [OF ok] ready_thread [OF ok] in auto)
  moreover have "objs_ok ?s'"
    by (rule objs_ok_cong [OF sched_objs [OF ok]]) (use th k in \<open>auto simp: blocked_def split: if_splits\<close>)
  moreover have "conts_ok ?s' ?C" unfolding conts_ok_def w same
  proof (intro conjI allI impI ballI)
    show "\<exists>old d. list_all plain d \<and> ?C u = (if u = ?cur then ASleep False else AAfter) # ARetry j old # d"
      if "waits s u j \<or> u = ?cur \<and> j = k" for u j
      using that waits_cont [OF ok, of u j] nw r by auto
    show "list_all (refs ?s') (?C u)" if "threads s u \<noteq> None" for u
      using that cont_refs [OF ok, of u] tail_refs [OF ok c] k by (auto simp: rf cong: list.pred_cong)
  qed (use ready_cont [OF ok] nr in auto)
  moreover have "switch_ok ?s' ?C" unfolding switch_ok_def same using th by simp
  ultimately show ?thesis by (simp add: sched_ok_def)
qed

lemma P_retry_ok:
  assumes ok: "sched_ok s C" and c: "C (currentThread s) = a # r" and a: "a \<noteq> ASleep False" "a \<noteq> AAfter" "a \<noteq> ABegin"
    and k: "sems s k \<noteq> None" and r: "list_all plain r" and lev: "level s = IntOff"
  shows "step_ok s C r (P_retry k old s)"
proof -
  obtain sem where sem: "sems s k = Some sem" using k by auto
  obtain th where th: "threads s (currentThread s) = Some th" using cur_thread [OF ok] by blast
  have q: "currentThread s \<notin> set (sem_queue sem)"
    using not_waiting [OF ok c a(1), of k] sem by (simp add: waits_def)
  show ?thesis
  proof (cases "sem_value sem = 0")
    case True
    have "P_retry k old s = Inr (blocked k sem th s, [ASleep False, ARetry k old])"
      using True sem th q lev
      by (simp add: P_retry_def P_body_def obj_def seq_Append_def upd_thread_def blocked_def)
    then show ?thesis by (rule step_okI) (use sched_blocked [OF ok c a sem th r lev] in simp)
  next
    case False
    let ?s' = "s\<lparr>sems := (sems s)(k \<mapsto> sem\<lparr>sem_value := sem_value sem - 1\<rparr>)\<rparr>"
    have ok': "sched_ok ?s' C" by (rule sched_sem_value [OF ok sem]) (use False sem_ok [OF ok sem] in simp)
    have rf: "refs ?s' x \<longleftrightarrow> refs s x" for x by (rule refs_cong) (use sem in auto)
    have "P_retry k old s = Inr (?s', [ASetLevel old])"
      using False sem by (simp add: P_retry_def P_body_def obj_def)
    then show ?thesis
    proof (rule step_okI)
      have "sched_ok ?s' (C(currentThread ?s' := ASetLevel old # r))"
        by (rule sched_plain [OF ok']) (use c a r tail_refs [OF ok c] in \<open>simp_all add: tail_ok_def rf cong: list.pred_cong\<close>)
      then show "sched_ok ?s' (C(currentThread s := [ASetLevel old] @ r))" by simp
    qed
  qed
qed

lemma ChangeLevel_same [simp]:
  "currentThread (ChangeLevel l s) = currentThread s" "sems (ChangeLevel l s) = sems s"
  "readyList (ChangeLevel l s) = readyList s" "threads (ChangeLevel l s) = threads s" "level (ChangeLevel l s) = l"
  "locks (ChangeLevel l s) = locks s" "conds (ChangeLevel l s) = conds s" "next_thread (ChangeLevel l s) = next_thread s"
  "next_sem (ChangeLevel l s) = next_sem s" "toBeDestroyed (ChangeLevel l s) = toBeDestroyed s"
  "machine (ChangeLevel l s) = machine s" "inHandler (ChangeLevel l s) = inHandler s"
  "waits (ChangeLevel l s) = waits s" "refs (ChangeLevel l s) = refs s"
proof -
  show "waits (ChangeLevel l s) = waits s" by (simp add: ChangeLevel_def waits_def fun_eq_iff)
  show "refs (ChangeLevel l s) = refs s" by (rule ext, rule refs_cong) (simp_all add: ChangeLevel_def)
qed (simp_all add: ChangeLevel_def)

lemma step_ok_level: "step_ok (ChangeLevel l s) C r x = step_ok s C r x"
  by (simp add: step_ok_def)

lemma Semaphore_P_ok:
  assumes ok: "sched_ok s C" and c: "C (currentThread s) = AP k # r"
  shows "step_ok s C r (Semaphore_P k s)"
  using P_retry_ok [OF sched_level_off [OF ok], of "AP k" r k] c tail_plain [OF ok c] tail_refs [OF ok c]
  by (simp add: Semaphore_P_def step_ok_level)

lemma same_rest_refs: "same_rest s s' \<Longrightarrow> refs s' a \<longleftrightarrow> refs s a"
  by (rule refs_cong) (simp_all add: same_rest_def)

lemma Semaphore_V_ok:
  assumes ok: "sched_ok s C" and c: "C (currentThread s) = AV k # r"
  shows "step_ok s C r (Semaphore_V k s)"
proof -
  obtain sem where sem: "sems s k = Some sem" using tail_refs [OF ok c] by auto
  let ?s1 = "ChangeLevel IntOff s"
  obtain s2 where s2: "V_body k ?s1 = Inr s2" "sched_ok s2 C" "same_rest ?s1 s2"
    using V_body_ok [OF sched_level_off [OF ok], of k sem] sem by auto
  have cu: "currentThread s2 = currentThread s" using s2(3) by (simp add: same_rest_def)
  show ?thesis
  proof (rule step_okI)
    show "Semaphore_V k s = Inr (s2, [ASetLevel (level s)])" by (simp add: Semaphore_V_def s2)
    have "sched_ok s2 (C(currentThread s2 := ASetLevel (level s) # r))"
      by (rule sched_plain [OF s2(2), of "AV k" r])
         (use c cu tail_plain [OF ok c] tail_refs [OF ok c] same_rest_refs [OF s2(3)] in
           \<open>simp_all add: tail_ok_def cong: list.pred_cong\<close>)
    then show "sched_ok s2 (C(currentThread s := [ASetLevel (level s)] @ r))" by (simp add: cu)
  qed
qed

lemma FindNextToRun_eq:
  "level s = IntOff \<Longrightarrow> FindNextToRun s = Inr (case readyList s of [] \<Rightarrow> (None, s) | n # r \<Rightarrow> (Some n, s\<lparr>readyList := r\<rparr>))"
  by (simp add: FindNextToRun_def seq_RemoveFront_def split: list.split)

lemma Sleep_eq:
  assumes ok: "sched_ok s C" and c: "C (currentThread s) = ASleep fin # r" and rl: "readyList s = n # q"
  shows "Thread_Sleep_loop vs fin s = Inr (switched n fin (s\<lparr>readyList := q\<rparr>), [AAfter])"
proof -
  have lev: "level s = IntOff" by (rule head_level [OF ok c]) simp
  have nd: "toBeDestroyed s = None" by (rule none_destroyed [OF ok c]) simp_all
  obtain th where th: "threads s (currentThread s) = Some th" using cur_thread [OF ok] by blast
  have "objs_ok (s\<lparr>readyList := q\<rparr>)" by (rule objs_ok_cong [OF sched_objs [OF ok]]) simp_all
  then have "Run_before n fin (s\<lparr>readyList := q\<rparr>) = Inr (switched n fin (s\<lparr>readyList := q\<rparr>))"
    using lev th nd ready_thread [OF ok, of n] rl by (intro Run_before_eq) simp_all
  then show ?thesis using lev rl by (simp add: Thread_Sleep_loop_def FindNextToRun_eq)
qed

lemma Sleep_loop_ok:
  assumes ok: "sched_ok s C" and c: "C (currentThread s) = ASleep fin # r" and vs: "\<forall>k\<in>set vs. sems s k \<noteq> None"
  shows "step_ok s C r (Thread_Sleep_loop vs fin s)"
proof (cases "readyList s")
  case Nil
  have lev: "level s = IntOff" by (rule head_level [OF ok c]) simp
  obtain s2 where s2: "foldR V_body vs s = Inr s2" "sched_ok s2 C" "same_rest s s2"
    using foldR_V_ok [OF ok lev vs] by blast
  show ?thesis
  proof (rule step_okI)
    show "Thread_Sleep_loop vs fin s = Inr (s2, [ASleep fin])"
      using lev Nil s2(1) by (simp add: Thread_Sleep_loop_def FindNextToRun_eq)
    show "sched_ok s2 (C(currentThread s := [ASleep fin] @ r))" using s2(2) c by (simp add: fun_upd_idem)
  qed
next
  case (Cons n q)
  have lev: "level s = IntOff" by (rule head_level [OF ok c]) simp
  let ?s1 = "s\<lparr>readyList := q\<rparr>"
  have nd: "toBeDestroyed s = None" by (rule none_destroyed [OF ok c]) simp_all
  have f: "currentThread s \<notin> set (n # q)" "\<not> waits s (currentThread s) k" if fin for k
    using not_ready [OF ok c] not_waiting [OF ok c, of k] that Cons by simp_all
  show ?thesis
  proof (rule step_okI)
    show "Thread_Sleep_loop vs fin s = Inr (switched n fin ?s1, [AAfter])" by (rule Sleep_eq [OF ok c Cons])
    have "sched_ok (switched n fin ?s1) (C(currentThread s := AAfter # r))"
    proof (rule sched_switch [OF ok Cons lev refl, where Y = "{}"])
      show "\<exists>old d. AAfter # r = AAfter # ARetry k old # d \<and> list_all plain d" if "waits s (currentThread s) k" for k
        using waits_cont [OF ok that] c by auto
      show "\<exists>d. AAfter # r = AAfter # d \<and> tail_ok d" if "currentThread s \<in> set (n # q) \<or> {} \<noteq> {}"
        using that cur_ready_cont [OF ok] c Cons by (auto simp: tail_ok_def)
    qed (use ready_distinct [OF ok] Cons f nd tail_refs [OF ok c] in auto)
    then show "sched_ok (switched n fin ?s1) (C(currentThread s := [AAfter] @ r))" by simp
  qed
qed

lemma sched_status:
  assumes ok: "sched_ok s C" and th: "threads s t = Some th"
  shows "sched_ok (s\<lparr>threads := (threads s)(t \<mapsto> th\<lparr>tstatus := st\<rparr>)\<rparr>) C" (is "sched_ok ?s' C")
proof (rule sched_cong [OF ok])
  show "objs_ok ?s'" by (rule objs_ok_cong [OF sched_objs [OF ok]]) (use th in \<open>auto split: if_splits\<close>)
qed (use th sem_ok [OF ok] in \<open>simp_all add: waits_def\<close>)

lemma Yield_eq:
  assumes ok: "sched_ok s C" and c: "C (currentThread s) = AYield # r" and rl: "readyList s = n # q"
    and th: "threads s (currentThread s) = Some th"
  shows "Thread_Yield s = Inr (switched n False ((ChangeLevel IntOff s)\<lparr>threads := (threads s)(currentThread s \<mapsto> th\<lparr>tstatus := READY\<rparr>),
           readyList := q @ [currentThread s]\<rparr>), [AAfter, ASetLevel (level s)])"
proof -
  let ?cur = "currentThread s" and ?s0 = "ChangeLevel IntOff s"
  let ?s1 = "?s0\<lparr>threads := (threads s)(?cur \<mapsto> th\<lparr>tstatus := READY\<rparr>)\<rparr>"
  let ?s2 = "?s1\<lparr>readyList := q @ [?cur]\<rparr>"
  have nr: "?cur \<notin> set (n # q)" using not_ready [OF ok c] rl by simp
  have rtr: "ReadyToRun ?cur (?s0\<lparr>readyList := q\<rparr>) = Inr ?s2"
    using ReadyToRun_eq [of "?s0\<lparr>readyList := q\<rparr>" ?cur th] th nr by simp
  have ok1: "sched_ok ?s1 C" using sched_status [OF sched_level_off [OF ok], of ?cur th READY] th by simp
  have "objs_ok ?s2" by (rule objs_ok_cong [OF sched_objs [OF ok1]]) simp_all
  then have "Run_before n False ?s2 = Inr (switched n False ?s2)"
    using ready_thread [OF ok, of n] rl by (intro Run_before_eq) auto
  then show ?thesis using rl rtr by (simp add: Thread_Yield_def FindNextToRun_eq)
qed

lemma Yield_ok:
  assumes ok: "sched_ok s C" and c: "C (currentThread s) = AYield # r"
  shows "step_ok s C r (Thread_Yield s)"
proof -
  let ?s0 = "ChangeLevel IntOff s" and ?cur = "currentThread s"
  note ok0 = sched_level_off [OF ok]
  have r: "list_all plain r" "list_all (refs s) r" using tail_plain [OF ok c] tail_refs [OF ok c] by simp_all
  show ?thesis
  proof (cases "readyList s")
    case Nil
    show ?thesis
    proof (rule step_okI)
      show "Thread_Yield s = Inr (?s0, [ASetLevel (level s)])" using Nil by (simp add: Thread_Yield_def FindNextToRun_eq)
      show "sched_ok ?s0 (C(?cur := [ASetLevel (level s)] @ r))"
        using sched_plain [OF ok0, of AYield r "ASetLevel (level s) # r"] c r by (simp add: tail_ok_def)
    qed
  next
    case (Cons n q)
    obtain th where th: "threads s ?cur = Some th" using cur_thread [OF ok] by blast
    define s1 where "s1 = ?s0\<lparr>threads := (threads s)(?cur \<mapsto> th\<lparr>tstatus := READY\<rparr>)\<rparr>"
    have s1: "currentThread s1 = ?cur" "readyList s1 = n # q" "level s1 = IntOff" "waits s1 = waits s"
      "toBeDestroyed s1 = None" "objs_ok s1"
      using Cons none_destroyed [OF ok c] sched_objs [OF sched_status [OF ok0, of ?cur th READY]] th
      by (simp_all add: s1_def waits_def fun_eq_iff)
    have ok1: "sched_ok s1 C" using sched_status [OF ok0, of ?cur th READY] th by (simp add: s1_def)
    have nr: "?cur \<notin> set (n # q)" using not_ready [OF ok c] Cons by simp
    have rf: "refs s1 x \<longleftrightarrow> refs s x" for x by (rule refs_cong) (simp_all add: s1_def)
    let ?s2 = "s1\<lparr>readyList := q @ [?cur]\<rparr>"
    show ?thesis
    proof (rule step_okI)
      show "Thread_Yield s = Inr (switched n False ?s2, [AAfter, ASetLevel (level s)])"
        using Yield_eq [OF ok c Cons th] by (simp add: s1_def)
      have "sched_ok (switched n False ?s2) (C(currentThread s1 := AAfter # ASetLevel (level s) # r))"
        by (rule sched_switch [OF ok1 s1(2,3) refl, where Y = "{?cur}"])
           (use nr s1 ready_distinct [OF ok1] not_waiting [OF ok c] r in
             \<open>auto simp: tail_ok_def rf cong: list.pred_cong\<close>)
      then show "sched_ok (switched n False ?s2) (C(?cur := [AAfter, ASetLevel (level s)] @ r))"
        by (simp add: s1)
    qed
  qed
qed

text \<open>After the switch the carcass of a finished thread is deleted and the machine restored.\<close>

lemma sched_deleted:
  assumes ok: "sched_ok s C" and d: "toBeDestroyed s = Some d"
  shows "sched_ok (s\<lparr>threads := (threads s)(d := None), toBeDestroyed := None\<rparr>) C" (is "sched_ok ?s' C")
proof -
  have dd: "d \<noteq> currentThread s" "d \<notin> set (readyList s)" "\<And>k. \<not> waits s d k"
    using ok d unfolding sched_ok_def switch_ok_def by simp_all
  have w: "waits ?s' = waits s" by (simp add: waits_def fun_eq_iff)
  have rf: "refs ?s' x \<longleftrightarrow> refs s x" for x by (rule refs_cong) simp_all
  have "lists_ok ?s'" using ok dd unfolding sched_ok_def lists_ok_def w by auto
  moreover have "objs_ok ?s'" by (rule objs_ok_cong [OF sched_objs [OF ok]]) (auto split: if_splits)
  moreover have "conts_ok ?s' C" unfolding conts_ok_def w
    using waits_cont [OF ok] ready_cont [OF ok] cur_ready_cont [OF ok] cur_shape [OF ok] cont_refs [OF ok]
    by (simp add: rf cong: list.pred_cong)
  moreover have "switch_ok ?s' C" using ok dd unfolding sched_ok_def switch_ok_def w by simp
  ultimately show ?thesis by (simp add: sched_ok_def)
qed

lemma CheckToBeDestroyed_ok:
  assumes ok: "sched_ok s C"
  shows "\<exists>s'. CheckToBeDestroyed s = Inr s' \<and> sched_ok s' C \<and> toBeDestroyed s' = None \<and> agree s s' \<and>
    machine s' = machine s \<and> currentThread s' = currentThread s \<and> threads s' (currentThread s) = threads s (currentThread s)"
proof (cases "toBeDestroyed s")
  case None
  then show ?thesis using ok by (simp add: CheckToBeDestroyed_def agree_def)
next
  case (Some d)
  then have "d \<noteq> currentThread s" "threads s d \<noteq> None" using ok unfolding sched_ok_def switch_ok_def by simp_all
  then show ?thesis using sched_deleted [OF ok Some] Some
    by (auto simp: CheckToBeDestroyed_def Thread_delete_def obj_def agree_def)
qed

lemma sched_machine:
  assumes ok: "sched_ok s C" and m: "machine s \<noteq> None"
  shows "sched_ok (s\<lparr>machine := Some m'\<rparr>) C" (is "sched_ok ?s' C")
proof (rule sched_cong [OF ok])
  show "objs_ok ?s'" by (rule objs_ok_cong [OF sched_objs [OF ok]]) (use m in auto)
qed (use sem_ok [OF ok] in \<open>simp_all add: waits_def\<close>)

lemma Run_after_ok:
  assumes ok: "sched_ok s C" and c: "C (currentThread s) = AAfter # r"
  shows "step_ok s C r (bindR (Run_after s) (\<lambda>s. Inr (s, [])))"
proof -
  have lev: "level s = IntOff" by (rule head_level [OF ok c]) simp
  have sh: "tail_ok r" using shape [OF ok c] by (simp add: running_shape_def tail_ok_def)
  obtain s1 where s1: "CheckToBeDestroyed s = Inr s1" "sched_ok s1 C" "toBeDestroyed s1 = None" "agree s s1"
      "machine s1 = machine s" "currentThread s1 = currentThread s"
    using CheckToBeDestroyed_ok [OF ok] by blast
  obtain th where th: "threads s1 (currentThread s) = Some th" using cur_thread [OF s1(2)] s1(6) by auto
  obtain s2 where s2: "Run_after s = Inr s2" "sched_ok s2 C" "toBeDestroyed s2 = None" "agree s1 s2"
      "currentThread s2 = currentThread s"
  proof (cases "tspace th = None")
    case True
    then show ?thesis using that [of s1] s1 th lev by (simp add: Run_after_def obj_def agree_def)
  next
    case False
    then obtain m where m: "machine s1 = Some m" using thread_ok(3) [OF sched_objs [OF s1(2)] th] by auto
    let ?s2 = "s1\<lparr>machine := Some (restored th m)\<rparr>"
    have "Run_after s = Inr ?s2"
      using restore_eq [OF th m False] s1(1) th lev False by (simp add: Run_after_def obj_def)
    then show ?thesis using that [of ?s2] sched_machine [OF s1(2)] m s1 by (simp add: agree_def)
  qed
  have lev2: "level s2 = IntOff" using s1(4) s2(4) lev by (simp add: agree_def)
  have rf: "refs s2 x \<longleftrightarrow> refs s x" for x using refs_agree [OF s1(4)] refs_agree [OF s2(4)] by blast
  show ?thesis
  proof (rule step_okI)
    show "bindR (Run_after s) (\<lambda>s. Inr (s, [])) = Inr (s2, [])" by (simp add: s2)
    have "sched_ok s2 (C(currentThread s2 := r))"
      by (rule sched_continue [OF s2(2) _ _ s2(3), of AAfter r])
         (use c s2 lev2 sh tail_refs [OF ok c] in \<open>simp_all add: rf cong: list.pred_cong\<close>)
    then show "sched_ok s2 (C(currentThread s := [] @ r))" by (simp add: s2)
  qed
qed

lemma Begin_ok:
  assumes ok: "sched_ok s C" and c: "C (currentThread s) = ABegin # r"
  shows "step_ok s C r (Thread_Begin s)"
proof -
  obtain s1 where s1: "CheckToBeDestroyed s = Inr s1" "sched_ok s1 C" "toBeDestroyed s1 = None" "agree s s1"
      "currentThread s1 = currentThread s"
    using CheckToBeDestroyed_ok [OF ok] by blast
  have sh: "list_all plain r" using shape [OF ok c] by (simp add: running_shape_def tail_ok_def)
  show ?thesis
  proof (rule step_okI)
    show "Thread_Begin s = Inr (s1, [ASetLevel IntOn])" by (simp add: Thread_Begin_def s1)
    have "sched_ok s1 (C(currentThread s1 := ASetLevel IntOn # r))"
      by (rule sched_continue [OF s1(2) _ _ s1(3), of ABegin r])
         (use c s1 sh tail_refs [OF ok c] refs_agree [OF s1(4)] in \<open>simp_all add: tail_ok_def cong: list.pred_cong\<close>)
    then show "sched_ok s1 (C(currentThread s := [ASetLevel IntOn] @ r))" by (simp add: s1)
  qed
qed

lemma sched_level:
  assumes ok: "sched_ok s C" and c: "C (currentThread s) = [] \<or> plain (hd (C (currentThread s)))"
  shows "sched_ok (ChangeLevel l s) C"
proof -
  have "lists_ok (ChangeLevel l s)" using ok unfolding sched_ok_def lists_ok_def by simp
  moreover have "objs_ok (ChangeLevel l s)" by (rule objs_ok_cong [OF sched_objs [OF ok]]) auto
  moreover have "conts_ok (ChangeLevel l s) C" using ok unfolding sched_ok_def conts_ok_def by simp
  moreover have "switch_ok (ChangeLevel l s) C" using ok c unfolding sched_ok_def switch_ok_def by auto
  ultimately show ?thesis by (simp add: sched_ok_def)
qed

lemma SetLevel_ok:
  assumes ok: "sched_ok s C" and c: "C (currentThread s) = ASetLevel l # r" and vs: "\<forall>k\<in>set vs. sems s k \<noteq> None"
  shows "step_ok s C r (Interrupt_SetLevel vs y l s)"
proof -
  have r: "list_all plain r" "list_all (refs s) r" using tail_plain [OF ok c] tail_refs [OF ok c] by simp_all
  have h: "\<not> inHandler s" using sched_objs [OF ok] by (simp add: objs_ok_def)
  show ?thesis
  proof (cases "l = IntOn \<and> level s = IntOff")
    case True
    obtain s1 where s1: "foldR V_body vs s = Inr s1" "sched_ok s1 C" "same_rest s s1"
      using foldR_V_ok [OF ok _ vs] True by blast
    have cu: "currentThread s1 = currentThread s" using s1(3) by (simp add: same_rest_def)
    let ?k = "if y then [AYield] else []"
    show ?thesis
    proof (rule step_okI)
      show "Interrupt_SetLevel vs y l s = Inr (ChangeLevel IntOn s1, ?k)"
        using True s1(1) h by (simp add: Interrupt_SetLevel_def)
      have "sched_ok s1 (C(currentThread s1 := ?k @ r))"
        by (rule sched_plain [OF s1(2), of "ASetLevel l" r])
           (use c cu r same_rest_refs [OF s1(3)] in \<open>simp_all add: tail_ok_def cong: list.pred_cong\<close>)
      then show "sched_ok (ChangeLevel IntOn s1) (C(currentThread s := ?k @ r))"
        using r by (cases r) (auto simp: cu intro: sched_level)
    qed
  next
    case False
    show ?thesis
    proof (rule step_okI)
      show "Interrupt_SetLevel vs y l s = Inr (ChangeLevel l s, [])"
        using False h by (auto simp: Interrupt_SetLevel_def)
      have "sched_ok s (C(currentThread s := r))"
        by (rule sched_plain [OF ok c]) (use r in \<open>simp_all add: tail_ok_def\<close>)
      then show "sched_ok (ChangeLevel l s) (C(currentThread s := [] @ r))"
        using r by (cases r) (auto intro: sched_level)
    qed
  qed
qed

lemma Finish_ok:
  assumes ok: "sched_ok s C" and c: "C (currentThread s) = AFinish # r"
  shows "step_ok s C r (Thread_Finish s)"
proof -
  let ?cur = "currentThread s"
  obtain th where th: "threads s ?cur = Some th" using cur_thread [OF ok] by blast
  let ?s1 = "(ChangeLevel IntOff s)\<lparr>threads := (threads s)(?cur \<mapsto> th\<lparr>tstatus := BLOCKED\<rparr>)\<rparr>"
  let ?C = "C(?cur := ASleep True # r)"
  have ok1: "sched_ok ?s1 C" using sched_status [OF sched_level_off [OF ok], of ?cur th BLOCKED] th by simp
  have c1: "C (currentThread ?s1) = AFinish # r" using c by simp
  have nw: "\<not> waits ?s1 ?cur k" for k using not_waiting [OF ok1 c1, of k] by simp
  have nr: "?cur \<notin> set (readyList ?s1)" using not_ready [OF ok1 c1] by simp
  have rf: "refs ?s1 x \<longleftrightarrow> refs s x" for x by (rule refs_cong) simp_all
  have "conts_ok ?s1 ?C" unfolding conts_ok_def
  proof (intro conjI allI impI ballI)
    show "\<exists>old d. list_all plain d \<and> ?C u = (if u = currentThread ?s1 then ASleep False else AAfter) # ARetry j old # d"
      if "waits ?s1 u j" for u j
      using that waits_cont [OF ok1, of u j] nw by (cases "u = ?cur") auto
    show "list_all (refs ?s1) (?C u)" if "threads ?s1 u \<noteq> None" for u
      using cont_refs [OF ok1 that] tail_refs [OF ok c] by (simp add: rf cong: list.pred_cong)
  qed (use ready_cont [OF ok1] nr in \<open>auto simp: running_shape_def\<close>)
  moreover have "switch_ok ?s1 ?C"
    using none_destroyed [OF ok c] th unfolding switch_ok_def by simp
  ultimately have "sched_ok ?s1 ?C" using ok1 by (simp add: sched_ok_def)
  moreover have "Thread_Finish s = Inr (?s1, [ASleep True])"
    using th by (simp add: Thread_Finish_def upd_thread_def obj_def)
  ultimately show ?thesis by (auto intro: step_okI)
qed

lemma fresh_thread: "sched_ok s C \<Longrightarrow> threads s (next_thread s) = None"
  using thread_ok(1) [OF sched_objs, of s C "next_thread s"] by (cases "threads s (next_thread s)") auto

definition forked_thread :: Thread where
  "forked_thread = (Thread_new (\<lambda>_. 0))\<lparr>fence := Some STACK_FENCEPOST, tstatus := READY\<rparr>"

definition with_thread :: "'z Kern_scheme \<Rightarrow> 'z Kern_scheme" where
  "with_thread s = (ChangeLevel IntOff s)\<lparr>threads := (threads s)(next_thread s \<mapsto> forked_thread),
     readyList := readyList s @ [next_thread s], next_thread := Suc (next_thread s)\<rparr>"

lemma sched_forked:
  assumes ok: "sched_ok s C" and c: "C (currentThread s) = a # r" "plain a"
    and p: "list_all plain p" "list_all (refs s) p"
  shows "sched_ok (with_thread s) (C(next_thread s := ABegin # p))"
proof -
  let ?t = "next_thread s" and ?s' = "with_thread s" and ?C = "C(next_thread s := ABegin # p)"
  note ft = fresh_thread [OF ok]
  have cur: "currentThread s \<noteq> ?t" using cur_thread [OF ok] ft by auto
  have tw: "\<not> waits s ?t k" for k using waits_thread [OF ok, of ?t k] ft by auto
  have tr: "?t \<notin> set (readyList s)" using ready_thread [OF ok, of ?t] ft by auto
  have same: "currentThread ?s' = currentThread s" "waits ?s' = waits s" "readyList ?s' = readyList s @ [?t]"
    "toBeDestroyed ?s' = toBeDestroyed s" "sems ?s' = sems s" "level ?s' = IntOff"
    "threads ?s' = (threads s)(?t \<mapsto> forked_thread)"
    by (simp_all add: with_thread_def waits_def fun_eq_iff)
  have rf: "refs ?s' x \<longleftrightarrow> refs s x" for x by (rule refs_cong) (simp_all add: with_thread_def)
  have "lists_ok ?s'" unfolding lists_ok_def same
  proof (intro conjI allI impI ballI)
    show "u \<notin> set (readyList s @ [?t])" "((threads s)(?t \<mapsto> forked_thread)) u \<noteq> None" if "waits s u j" for u j
      using that waits_not_ready [OF ok that] waits_thread [OF ok that] tw by auto
  qed (use ok ready_distinct [OF ok] tr ready_thread [OF ok] sem_ok [OF ok] waits_unique [OF ok] in auto)
  moreover have "objs_ok ?s'"
    using sched_objs [OF ok] unfolding objs_ok_def
    by (auto simp: with_thread_def forked_thread_def Thread_new_def less_Suc_eq split: if_splits)
  moreover have "conts_ok ?s' ?C" unfolding conts_ok_def same
  proof (intro conjI allI impI ballI)
    show "\<exists>old d. list_all plain d \<and> ?C u = (if u = currentThread s then ASleep False else AAfter) # ARetry j old # d"
      if "waits s u j" for u j
      using that waits_cont [OF ok that] tw by (cases "u = ?t") auto
    show "\<exists>d. ?C u = AAfter # d \<and> tail_ok d \<or> ?C u = ABegin # d \<and> list_all plain d"
      if "u \<in> set (readyList s @ [?t])" "u \<noteq> currentThread s" for u
      using that ready_cont [OF ok, of u] p by (cases "u = ?t") auto
    show "running_shape (?C (currentThread s))" using cur c shape [OF ok c(1)] by (cases a) auto
    show "list_all (refs ?s') (?C u)" if "((threads s)(?t \<mapsto> forked_thread)) u \<noteq> None" for u
      using that cont_refs [OF ok, of u] p by (cases "u = ?t") (simp_all add: rf cong: list.pred_cong)
  qed (use cur not_ready [OF ok c(1)] c(2) in \<open>cases a; auto\<close>)
  moreover have "switch_ok ?s' ?C"
  proof -
    have "toBeDestroyed s = None" by (rule none_destroyed [OF ok c(1)]) (use c(2) in auto)
    then show ?thesis using cur cur_thread [OF ok] unfolding switch_ok_def same by auto
  qed
  ultimately show ?thesis by (simp add: sched_ok_def)
qed

lemma Fork_eq:
  assumes ok: "sched_ok s C"
  shows "Thread_Fork s = Inr (next_thread s, with_thread s, [ASetLevel (level s)])"
proof -
  have "next_thread s \<notin> set (readyList s)" using ready_thread [OF ok, of "next_thread s"] fresh_thread [OF ok] by auto
  then show ?thesis
    by (simp add: Thread_Fork_def Let_def ReadyToRun_eq with_thread_def ChangeLevel_def forked_thread_def)
qed

subsection \<open>Locks and conditions\<close>

definition holds_lock :: "'z Kern_scheme \<Rightarrow> nat \<Rightarrow> bool" where
  "holds_lock s l \<longleftrightarrow> (case locks s l of None \<Rightarrow> False | Some lk \<Rightarrow> lockHolder lk = Some (currentThread s))"

lemma sched_holder:
  assumes ok: "sched_ok s C" and lk: "locks s l = Some lk"
  shows "sched_ok (s\<lparr>locks := (locks s)(l \<mapsto> lk\<lparr>lockHolder := h\<rparr>)\<rparr>) C" (is "sched_ok ?s' C")
proof (rule sched_cong [OF ok])
  show "objs_ok ?s'" by (rule objs_ok_cong [OF sched_objs [OF ok]]) (use lk in \<open>auto split: if_splits\<close>)
qed (use sem_ok [OF ok] lk in \<open>simp_all add: waits_def\<close>)

lemma sched_queue:
  assumes ok: "sched_ok s C" and cv: "conds s c = Some cv" and q: "\<And>k. k \<in> set q \<Longrightarrow> sems s k \<noteq> None"
  shows "sched_ok (s\<lparr>conds := (conds s)(c \<mapsto> \<lparr>waitQueue = q\<rparr>)\<rparr>) C" (is "sched_ok ?s' C")
proof (rule sched_cong [OF ok])
  show "objs_ok ?s'" using sched_objs [OF ok] q unfolding objs_ok_def by auto
qed (use sem_ok [OF ok] cv in \<open>simp_all add: waits_def\<close>)

lemma fresh_sem: "sched_ok s C \<Longrightarrow> sems s (next_sem s) = None"
  using sched_objs [of s C] unfolding objs_ok_def by blast

lemma sched_new_sem:
  assumes ok: "sched_ok s C" and v: "0 \<le> v"
  shows "sched_ok (snd (Semaphore_new v s)) C" (is "sched_ok ?s' C")
proof (rule sched_cong [OF ok])
  note f = fresh_sem [OF ok]
  show "waits ?s' t k \<longleftrightarrow> waits s t k" for t k using f by (auto simp: waits_def Semaphore_new_def)
  show "distinct (sem_queue x) \<and> 0 \<le> sem_value x" if "sems ?s' k = Some x" for k x
    using that sem_ok [OF ok, of k x] v by (auto simp: Semaphore_new_def split: if_splits)
  show "objs_ok ?s'" using sched_objs [OF ok] unfolding objs_ok_def
    by (auto simp: Semaphore_new_def less_Suc_eq)
qed (simp_all add: Semaphore_new_def)

text \<open>Replacing the first action of a running thread by other plain actions.\<close>

lemma step_plain:
  assumes ok: "sched_ok s C" and c: "C (currentThread s) = a # r" "plain a"
    and ok': "sched_ok s' C" and s': "currentThread s' = currentThread s" and k: "list_all plain k" "list_all (refs s') k"
    and x: "x = Inr (s', k)"
  shows "step_ok s C r x"
proof (rule step_okI [OF x])
  have "list_all (refs s') (a # r)" using tail_refs [OF ok'] c s' by simp
  then have "sched_ok s' (C(currentThread s' := k @ r))"
    using tail_plain [OF ok c] k c(2)
    by (intro sched_plain [OF ok', of a r]) (auto simp: tail_ok_def c(1) s')
  then show "sched_ok s' (C(currentThread s := k @ r))" by (simp add: s')
qed

lemma Acquired_ok:
  assumes ok: "sched_ok s C" and c: "C (currentThread s) = AAcquired l # r"
  shows "step_ok s C r (act orc (AAcquired l) s)"
proof -
  obtain lk where lk: "locks s l = Some lk" using tail_refs [OF ok c] by auto
  show ?thesis
    by (rule step_plain [OF ok c _ sched_holder [OF ok lk, of "Some (currentThread s)"], of "[]"])
       (simp_all add: act_def obj_def lk)
qed

lemma lock_sem_exists: "sched_ok s C \<Longrightarrow> locks s l = Some lk \<Longrightarrow> sems s (lock_sem lk) \<noteq> None"
  using sched_objs [of s C] unfolding objs_ok_def by blast

lemma Release_ok:
  assumes ok: "sched_ok s C" and c: "C (currentThread s) = ARelease l # r"
  shows "if holds_lock s l then step_ok s C r (Lock_Release l s) else Lock_Release l s = Inl AssertFailed"
proof -
  obtain lk where lk: "locks s l = Some lk" using tail_refs [OF ok c] by auto
  show ?thesis
  proof (cases "holds_lock s l")
    case True
    have "step_ok s C r (Lock_Release l s)"
      by (rule step_plain [OF ok c _ sched_holder [OF ok lk, of None], of "[AV (lock_sem lk)]"])
         (use True lk lock_sem_exists [OF ok lk] in \<open>simp_all add: Lock_Release_def IsHeldByCurrentThread_def obj_def holds_lock_def\<close>)
    then show ?thesis using True by simp
  next
    case False
    then show ?thesis using lk by (simp add: Lock_Release_def IsHeldByCurrentThread_def obj_def holds_lock_def)
  qed
qed

lemma Wait_ok:
  assumes ok: "sched_ok s C" and c: "C (currentThread s) = AWait cd l # r"
  shows "if holds_lock s l then step_ok s C r (Condition_Wait cd l s) else Condition_Wait cd l s = Inl AssertFailed"
proof -
  obtain lk cv where lk: "locks s l = Some lk" and cv: "conds s cd = Some cv" using tail_refs [OF ok c] by auto
  show ?thesis
  proof (cases "holds_lock s l")
    case True
    let ?w = "next_sem s" and ?s1 = "snd (Semaphore_new 0 s)"
    have q: "sems s k \<noteq> None" if "k \<in> set (waitQueue cv)" for k
      using that cv sched_objs [OF ok] unfolding objs_ok_def by blast
    have fresh: "?w \<notin> set (waitQueue cv)" using q [of ?w] fresh_sem [OF ok] by auto
    have ok1: "sched_ok ?s1 C" by (rule sched_new_sem [OF ok]) simp
    have ok2: "sched_ok (?s1\<lparr>conds := (conds ?s1)(cd \<mapsto> \<lparr>waitQueue = waitQueue cv @ [?w]\<rparr>)\<rparr>) C"
      by (rule sched_queue [OF ok1, of cd cv]) (use cv q in \<open>auto simp: Semaphore_new_def\<close>)
    have "step_ok s C r (Condition_Wait cd l s)"
      by (rule step_plain [OF ok c _ ok2, of "ARelease l # AP ?w # Lock_Acquire l (lock_sem lk)"])
         (use True lk cv fresh lock_sem_exists [OF ok lk] in \<open>auto simp: Condition_Wait_def IsHeldByCurrentThread_def obj_def
            holds_lock_def Semaphore_new_def seq_Append_def Lock_Acquire_def\<close>)
    then show ?thesis using True by simp
  next
    case False
    then show ?thesis using lk by (simp add: Condition_Wait_def IsHeldByCurrentThread_def obj_def holds_lock_def)
  qed
qed

lemma Signal_ok:
  assumes ok: "sched_ok s C" and c: "C (currentThread s) = ASignal cd l # r"
  shows "if holds_lock s l then step_ok s C r (Condition_Signal cd l s) else Condition_Signal cd l s = Inl AssertFailed"
proof -
  obtain lk cv where lk: "locks s l = Some lk" and cv: "conds s cd = Some cv" using tail_refs [OF ok c] by auto
  have q: "sems s k \<noteq> None" if "k \<in> set (waitQueue cv)" for k
    using that cv sched_objs [OF ok] unfolding objs_ok_def by blast
  consider (unheld) "\<not> holds_lock s l" | (empty) "holds_lock s l" "waitQueue cv = []"
    | (waiter) w ws where "holds_lock s l" "waitQueue cv = w # ws"
    by (cases "waitQueue cv") blast+
  then show ?thesis
  proof cases
    case unheld
    then show ?thesis using lk by (simp add: Condition_Signal_def IsHeldByCurrentThread_def obj_def holds_lock_def)
  next
    case empty
    have "step_ok s C r (Condition_Signal cd l s)"
      by (rule step_plain [OF ok c _ ok, of "[]"])
         (use empty lk cv in \<open>simp_all add: Condition_Signal_def IsHeldByCurrentThread_def obj_def holds_lock_def\<close>)
    then show ?thesis using empty by simp
  next
    case waiter
    have ok1: "sched_ok (s\<lparr>conds := (conds s)(cd \<mapsto> \<lparr>waitQueue = ws\<rparr>)\<rparr>) C"
      by (rule sched_queue [OF ok cv]) (use q waiter in simp)
    have "step_ok s C r (Condition_Signal cd l s)"
      by (rule step_plain [OF ok c _ ok1, of "[AV w]"])
         (use waiter lk cv q [of w] in \<open>simp_all add: Condition_Signal_def IsHeldByCurrentThread_def obj_def holds_lock_def
            seq_RemoveFront_def\<close>)
    then show ?thesis using waiter by simp
  qed
qed

lemma Broadcast_ok:
  assumes ok: "sched_ok s C" and c: "C (currentThread s) = ABroadcast cd l # r"
  shows "step_ok s C r (Condition_Broadcast cd l s)"
proof -
  obtain lk cv where lk: "locks s l = Some lk" and cv: "conds s cd = Some cv" using tail_refs [OF ok c] by auto
  show ?thesis
    by (rule step_plain [OF ok c _ ok, of "if waitQueue cv \<noteq> [] then [ASignal cd l, ABroadcast cd l] else []"])
       (use lk cv in \<open>simp_all add: Condition_Broadcast_def obj_def\<close>)
qed

section \<open>Every step\<close>

text \<open>
  The current thread is about to break the rule of \<open>synch.h\<close> that a lock is released, waited
  with and signalled with only by the thread that holds it.
\<close>

definition breach :: "'z Kern_scheme \<Rightarrow> (nat \<Rightarrow> action list) \<Rightarrow> bool" where
  "breach s C \<longleftrightarrow> (case C (currentThread s) of
     ARelease l # _ \<Rightarrow> \<not> holds_lock s l
   | AWait _ l # _ \<Rightarrow> \<not> holds_lock s l
   | ASignal _ l # _ \<Rightarrow> \<not> holds_lock s l
   | _ \<Rightarrow> False)"

definition orc_ok :: "nat list \<times> bool \<Rightarrow> 'z Kern_scheme \<Rightarrow> bool" where
  "orc_ok orc s \<longleftrightarrow> (\<forall>k\<in>set (fst orc). sems s k \<noteq> None)"

lemma act_ok:
  assumes ok: "sched_ok s C" and c: "C (currentThread s) = a # r" and orc: "orc_ok orc s" and a: "\<And>p. a \<noteq> AFork p"
  shows "if breach s C then act orc a s = Inl AssertFailed else step_ok s C r (act orc a s)"
proof (cases a)
  case (ARetry k old)
  have "list_all plain r" using shape [OF ok c] ARetry by (simp add: running_shape_def tail_ok_def)
  moreover have "level s = IntOff" by (rule head_level [OF ok c]) (simp add: ARetry)
  ultimately show ?thesis
    using P_retry_ok [OF ok c, of k old] tail_refs [OF ok c] c ARetry by (simp add: act_def breach_def)
next
  case (ARelease l)
  then show ?thesis using Release_ok [OF ok, of l r] c by (simp add: act_def breach_def)
next
  case (AWait cd l)
  then show ?thesis using Wait_ok [OF ok, of cd l r] c by (simp add: act_def breach_def)
next
  case (ASignal cd l)
  then show ?thesis using Signal_ok [OF ok, of cd l r] c by (simp add: act_def breach_def)
next
  case (AAcquired l)
  then show ?thesis using Acquired_ok [OF ok, of l r orc] c by (simp add: breach_def)
qed (use a c orc Semaphore_P_ok [OF ok] Semaphore_V_ok [OF ok] Sleep_loop_ok [OF ok] Run_after_ok [OF ok] Begin_ok [OF ok]
      SetLevel_ok [OF ok] Yield_ok [OF ok] Finish_ok [OF ok] Broadcast_ok [OF ok]
      in \<open>simp_all add: act_def breach_def orc_ok_def\<close>)

lemma fork_step:
  assumes ok: "sched_ok s C" and c: "C (currentThread s) = AFork p # r"
  shows "kstep orc (s, C) = Inr (with_thread s,
      (C(next_thread s := ABegin # p @ [AFinish]))(currentThread s := ASetLevel (level s) # r))"
    and "sched_ok (with_thread s) ((C(next_thread s := ABegin # p @ [AFinish]))(currentThread s := ASetLevel (level s) # r))"
proof -
  have p: "plain (AFork p)" using shape [OF ok c] by (auto simp: running_shape_def tail_ok_def)
  have "refs s (AFork p)" using tail_refs [OF ok c] by simp
  then have ok1: "sched_ok (with_thread s) (C(next_thread s := ABegin # p @ [AFinish]))"
    by (intro sched_forked [OF ok c p]) (use p in simp_all)
  show "kstep orc (s, C) = Inr (with_thread s,
      (C(next_thread s := ABegin # p @ [AFinish]))(currentThread s := ASetLevel (level s) # r))"
    by (simp add: kstep_def c act_def Fork_eq [OF ok] forked_def)
  have cur: "currentThread s \<noteq> next_thread s" using cur_thread [OF ok] fresh_thread [OF ok] by auto
  have rf: "refs (with_thread s) x \<longleftrightarrow> refs s x" for x by (rule refs_cong) (simp_all add: with_thread_def)
  have "sched_ok (with_thread s) ((C(next_thread s := ABegin # p @ [AFinish]))(currentThread (with_thread s) := ASetLevel (level s) # r))"
    by (rule sched_plain [OF ok1, of "AFork p" r])
       (use c cur tail_plain [OF ok c p] tail_refs [OF ok c] in
         \<open>simp_all add: with_thread_def tail_ok_def rf [unfolded with_thread_def] cong: list.pred_cong\<close>)
  then show "sched_ok (with_thread s) ((C(next_thread s := ABegin # p @ [AFinish]))(currentThread s := ASetLevel (level s) # r))"
    by (simp add: with_thread_def)
qed

lemma kstep_ok:
  assumes ok: "sched_ok s C" and orc: "orc_ok orc s"
  shows "if breach s C then kstep orc (s, C) = Inl AssertFailed
         else \<exists>s' C'. kstep orc (s, C) = Inr (s', C') \<and> sched_ok s' C'"
proof (cases "C (currentThread s)")
  case Nil
  then show ?thesis using ok by (simp add: kstep_def breach_def)
next
  case (Cons a r)
  show ?thesis
  proof (cases "\<exists>p. a = AFork p")
    case True
    then obtain p where p: "a = AFork p" by blast
    then show ?thesis using fork_step [OF ok Cons [unfolded p]] Cons by (simp add: breach_def)
  next
    case False
    then have "forked a s C = C" by (simp add: forked_def split: action.split)
    then show ?thesis using act_ok [OF ok Cons orc] False Cons
      by (cases "breach s C") (auto simp: kstep_def step_ok_def)
  qed
qed

section \<open>Runs\<close>

text \<open>
  The states reached by any number of steps, with any behaviour of the interrupt handlers;
  \<open>D\<close> are the semaphores that belong to the devices, the only ones handlers signal.
\<close>

inductive runs :: "nat set \<Rightarrow> 'z Kern_scheme \<times> (nat \<Rightarrow> action list) \<Rightarrow> 'z Kern_scheme \<times> (nat \<Rightarrow> action list) \<Rightarrow> bool" for D where
  runs_refl: "runs D x x"
| runs_step: "runs D x (s, C) \<Longrightarrow> orc_ok orc s \<Longrightarrow> set (fst orc) \<subseteq> D \<Longrightarrow> kstep orc (s, C) = Inr y \<Longrightarrow> runs D x y"

lemma kstep_sched:
  assumes "sched_ok s C" "orc_ok orc s" "kstep orc (s, C) = Inr (s', C')"
  shows "sched_ok s' C'"
  using kstep_ok [OF assms(1,2)] assms(3) by (auto split: if_splits)

lemma runs_sched: "runs D x y \<Longrightarrow> sched_ok (fst x) (snd x) \<Longrightarrow> sched_ok (fst y) (snd y)"
proof (induction rule: runs.induct)
  case (runs_step x s C orc y)
  then show ?case using kstep_sched [of s C orc "fst y" "snd y"] by simp
qed simp

text \<open>
  The system after the kernel has made its main thread, the scheduler and the semaphores
  the devices signal; the main thread runs the given program.
\<close>

definition boot :: "(nat \<rightharpoonup> Semaphore) \<Rightarrow> nat \<Rightarrow> (nat \<rightharpoonup> Lock) \<Rightarrow> (nat \<rightharpoonup> Condition) \<Rightarrow> 'z Kern_scheme \<Rightarrow> 'z Kern_scheme" where
  "boot ss n ls cs s = Scheduler_init (s\<lparr>level := IntOff, inHandler := False,
     threads := [0 \<mapsto> (Thread_new (\<lambda>_. 0))\<lparr>tstatus := RUNNING\<rparr>], currentThread := 0, next_thread := 1,
     sems := ss, next_sem := n, locks := ls, conds := cs\<rparr>)"

definition boot_ok :: "(nat \<rightharpoonup> Semaphore) \<Rightarrow> nat \<Rightarrow> (nat \<rightharpoonup> Lock) \<Rightarrow> (nat \<rightharpoonup> Condition) \<Rightarrow> bool" where
  "boot_ok ss n ls cs \<longleftrightarrow>
     (\<forall>k sem. ss k = Some sem \<longrightarrow> k < n \<and> sem_queue sem = [] \<and> 0 \<le> sem_value sem) \<and>
     (\<forall>l lk. ls l = Some lk \<longrightarrow> ss (lock_sem lk) \<noteq> None) \<and>
     (\<forall>c cv. cs c = Some cv \<longrightarrow> waitQueue cv = [])"

lemma boot_same [simp]:
  "threads (boot ss n ls cs s) = [0 \<mapsto> (Thread_new (\<lambda>_. 0))\<lparr>tstatus := RUNNING\<rparr>]"
  "currentThread (boot ss n ls cs s) = 0" "next_thread (boot ss n ls cs s) = 1"
  "sems (boot ss n ls cs s) = ss" "next_sem (boot ss n ls cs s) = n"
  "locks (boot ss n ls cs s) = ls" "conds (boot ss n ls cs s) = cs" "\<not> inHandler (boot ss n ls cs s)"
  "readyList (boot ss n ls cs s) = []" "toBeDestroyed (boot ss n ls cs s) = None" "level (boot ss n ls cs s) = IntOff"
  by (simp_all add: boot_def Scheduler_init_def)

lemma sched_boot:
  assumes b: "boot_ok ss n ls cs" and p: "list_all plain (C 0)" "list_all (refs (boot ss n ls cs s)) (C 0)"
  shows "sched_ok (boot ss n ls cs s) C"
proof -
  let ?s = "boot ss n ls cs s"
  have w: "\<not> waits ?s t k" for t k using b by (auto simp: waits_def boot_ok_def)
  have "lists_ok ?s" using b by (auto simp: lists_ok_def w boot_ok_def)
  moreover have "objs_ok ?s" using b by (auto simp: objs_ok_def boot_ok_def Thread_new_def)
  moreover have "conts_ok ?s C" using p by (simp add: conts_ok_def w running_shape_def tail_ok_def)
  moreover have "switch_ok ?s C" by (simp add: switch_ok_def)
  ultimately show ?thesis by (simp add: sched_ok_def)
qed

end
