(* ===== verification/Nachos_Sync.thy ===== *)
theory Nachos_Sync
  imports Nachos_Sched
begin

text \<open>
  What the thread system of \<open>Nachos_Threads\<close> guarantees its users, on top of the invariant of
  \<open>Nachos_Sched\<close>: no assertion of the kernel fails unless a lock is misused, a semaphore never
  loses a wake-up, locks exclude each other, and a context switch gives a thread its
  registers and page table back.
\<close>

section \<open>Safety of the thread system\<close>

text \<open>
  C1. Start the kernel with any program for the main thread (semaphores, locks, conditions,
  forks, yields). In every state it can reach, whatever the interrupt handlers signal and whenever
  time slices end: no thread is in two lists or twice in one, and the next step fails
  an assertion exactly when the current thread releases, waits with or signals with a lock
  it does not hold; otherwise the step returns.
\<close>

theorem thread_system_safe:
  assumes b: "boot_ok ss n ls cs" and p: "list_all plain (C 0)" "list_all (refs (boot ss n ls cs s0)) (C 0)"
    and r: "runs D (boot ss n ls cs s0, C) (s, C')" and o: "orc_ok orc s"
  shows "distinct (readyList s) \<and> (\<forall>k sem. sems s k = Some sem \<longrightarrow> distinct (sem_queue sem) \<and> 0 \<le> sem_value sem) \<and>
    (\<forall>t k j. waits s t k \<longrightarrow> t \<notin> set (readyList s) \<and> (waits s t j \<longrightarrow> k = j)) \<and>
    (if breach s C' then kstep orc (s, C') = Inl AssertFailed else \<exists>y. kstep orc (s, C') = Inr y)"
proof -
  have "sched_ok (boot ss n ls cs s0) C" by (rule sched_boot [OF b]) (rule p)+
  then have ok: "sched_ok s C'" using runs_sched [OF r] by simp
  show ?thesis
    using ready_distinct [OF ok] sem_ok [OF ok] waits_not_ready [OF ok] waits_unique [OF ok] kstep_ok [OF ok o]
    by (auto split: if_splits)
qed

text \<open>A kernel for the examples: a lock (semaphore 0), a semaphore 1 of value 0 and a condition.\<close>

definition kern0 :: Kern where
  "kern0 = \<lparr>level = IntOff, pending = [], inHandler = False, yieldOnReturn = False, status = SystemMode,
      stats = Statistics_new, machine = None, next_ident = 0, timer_randomize = False, timer_disable = False,
      threads = Map.empty, readyList = [], toBeDestroyed = None, currentThread = 0, next_thread = 0,
      sems = Map.empty, next_sem = 0, locks = Map.empty, conds = Map.empty\<rparr>"

abbreviation demo_sems :: "nat \<rightharpoonup> Semaphore" where
  "demo_sems \<equiv> [0 \<mapsto> \<lparr>sem_value = 1, sem_queue = []\<rparr>, 1 \<mapsto> \<lparr>sem_value = 0, sem_queue = []\<rparr>]"

abbreviation demo_locks :: "nat \<rightharpoonup> Lock" where
  "demo_locks \<equiv> [0 \<mapsto> \<lparr>lock_sem = 0, lockHolder = None\<rparr>]"

abbreviation demo_conds :: "nat \<rightharpoonup> Condition" where
  "demo_conds \<equiv> [0 \<mapsto> \<lparr>waitQueue = []\<rparr>]"

definition demo :: Kern where
  "demo = boot demo_sems 2 demo_locks demo_conds kern0"

definition demo_prog :: "nat \<Rightarrow> action list" where
  "demo_prog = (\<lambda>_. [])(0 := [AP 1, AFork (Lock_Acquire 0 0 @ [ARelease 0]), AYield])"

lemma demo_boot_ok: "boot_ok demo_sems 2 demo_locks demo_conds"
  by (auto simp: boot_ok_def split: if_splits)

lemma demo_prog_ok: "list_all plain (demo_prog 0)" "list_all (refs demo) (demo_prog 0)"
  by (simp_all add: demo_prog_def Lock_Acquire_def demo_def)

text \<open>The main thread waits for semaphore 1 and a device signals it while the processor idles.\<close>

definition demo_asleep :: Kern where
  "demo_asleep = demo\<lparr>sems := (sems demo)(1 \<mapsto> \<lparr>sem_value = 0, sem_queue = [0]\<rparr>),
     threads := [0 \<mapsto> (Thread_new (\<lambda>_. 0))\<lparr>tstatus := BLOCKED\<rparr>]\<rparr>"

lemma demo_P: "kstep ([], False) (demo, demo_prog) =
    Inr (demo_asleep, demo_prog(0 := [ASleep False, ARetry 1 IntOff, AFork (Lock_Acquire 0 0 @ [ARelease 0]), AYield]))"
  by (simp add: kstep_def demo_prog_def act_def Semaphore_P_def P_retry_def P_body_def obj_def seq_Append_def
      upd_thread_def forked_def demo_asleep_def demo_def boot_def Scheduler_init_def ChangeLevel_def Thread_new_def)

theorem thread_system_safe_witness:
  "runs {1} (demo, demo_prog) (demo_asleep, demo_prog(0 := [ASleep False, ARetry 1 IntOff, AFork (Lock_Acquire 0 0 @ [ARelease 0]), AYield])) \<and>
   orc_ok ([1], True) demo_asleep \<and> distinct (readyList demo_asleep) \<and>
   (\<exists>y. kstep ([1], True) (demo_asleep,
      demo_prog(0 := [ASleep False, ARetry 1 IntOff, AFork (Lock_Acquire 0 0 @ [ARelease 0]), AYield])) = Inr y)"
proof -
  let ?C = "demo_prog(0 := [ASleep False, ARetry 1 IntOff, AFork (Lock_Acquire 0 0 @ [ARelease 0]), AYield])"
  have r: "runs {1} (demo, demo_prog) (demo_asleep, ?C)"
    by (rule runs_step [OF runs_refl _ _ demo_P]) (simp_all add: orc_ok_def)
  have o: "orc_ok ([1], True) demo_asleep" by (simp add: orc_ok_def demo_asleep_def)
  have "\<not> breach demo_asleep ?C" by (simp add: breach_def demo_asleep_def demo_def)
  then show ?thesis
    using thread_system_safe [where C = demo_prog, OF demo_boot_ok demo_prog_ok [unfolded demo_def] r [unfolded demo_def] o] r o
    by (simp add: demo_def)
qed

section \<open>Context switches\<close>

text \<open>A step of one thread leaves the saved registers and the page table of the others alone.\<close>

definition keeps :: "nat \<Rightarrow> 'z Kern_scheme \<Rightarrow> 'z Kern_scheme \<Rightarrow> bool" where
  "keeps t s s' \<longleftrightarrow> (\<forall>th. threads s t = Some th \<longrightarrow> toBeDestroyed s \<noteq> Some t \<longrightarrow>
     toBeDestroyed s' \<noteq> Some t \<and>
     (\<exists>th'. threads s' t = Some th' \<and> userRegisters th' = userRegisters th \<and> tspace th' = tspace th))"

lemma keeps_refl [simp]: "keeps t s s"
  by (simp add: keeps_def)

lemma keeps_trans: "keeps t s s1 \<Longrightarrow> keeps t s1 s2 \<Longrightarrow> keeps t s s2"
  by (fastforce simp: keeps_def)

lemma keeps_upd [simp]:
  "keeps t s (sems_update f s') = keeps t s s'" "keeps t s (readyList_update g s') = keeps t s s'"
  "keeps t s (locks_update h s') = keeps t s s'" "keeps t s (conds_update i s') = keeps t s s'"
  "keeps t s (next_sem_update j s') = keeps t s s'" "keeps t s (ChangeLevel l s') = keeps t s s'"
  "keeps t (ChangeLevel l s) s' = keeps t s s'" "keeps t (readyList_update g s) s' = keeps t s s'"
  "keeps t (sems_update f s) s' = keeps t s s'"
  by (simp_all add: keeps_def)

lemma upd_thread_keeps:
  assumes "upd_thread u f s = Inr s'" "u \<noteq> t \<or> (\<forall>th. userRegisters (f th) = userRegisters th \<and> tspace (f th) = tspace th)"
  shows "keeps t s s'"
  using assms by (auto simp: upd_thread_def obj_def keeps_def bindR_eq_Inr split: option.splits)

lemma ReadyToRun_keeps: "ReadyToRun u s = Inr s' \<Longrightarrow> keeps t s s'"
  by (auto simp: ReadyToRun_def bindR_eq_Inr ASSERT_def split: if_splits dest!: upd_thread_keeps [where t = t])

lemma V_keeps: "V_body k s = Inr s' \<Longrightarrow> keeps t s s'"
  by (auto simp: V_body_def bindR_eq_Inr split: if_splits dest: ReadyToRun_keeps)

lemma foldR_V_keeps: "foldR V_body vs s = Inr s' \<Longrightarrow> keeps t s s'"
  by (induction vs arbitrary: s) (auto simp: bindR_eq_Inr dest: V_keeps intro: keeps_trans)

lemma FindNextToRun_keeps: "FindNextToRun s = Inr (n, s') \<Longrightarrow> keeps t s s'"
  by (auto simp: FindNextToRun_def bindR_eq_Inr ASSERT_def split: if_splits)

lemma switched_keeps: "t \<noteq> currentThread s \<Longrightarrow> keeps t s (switched n fin s)"
  by (auto simp: switched_def Let_def keeps_def)

lemma P_retry_keeps: "P_retry k old s = Inr (s', a) \<Longrightarrow> keeps t s s'"
  by (auto simp: P_retry_def P_body_def bindR_eq_Inr ASSERT_def split: if_splits dest!: upd_thread_keeps [where t = t])

lemma Destroyed_keeps: "CheckToBeDestroyed s = Inr s' \<Longrightarrow> keeps t s s'"
  by (auto simp: CheckToBeDestroyed_def Thread_delete_def bindR_eq_Inr ASSERT_def keeps_def split: if_splits option.splits)

lemma save_keeps:
  "SaveUserState u s = Inr s' \<Longrightarrow> u \<noteq> t \<Longrightarrow> keeps t s s'"
  "space_SaveState u s = Inr s' \<Longrightarrow> u \<noteq> t \<Longrightarrow> keeps t s s'"
  by (auto simp: SaveUserState_def space_SaveState_def bindR_eq_Inr dest!: upd_thread_keeps [where t = t])

lemma Run_before_keeps:
  assumes r: "Run_before n fin s = Inr s'" and t: "t \<noteq> currentThread s"
  shows "keeps t s s'"
proof -
  from r obtain s1 and th :: Thread and s2 where
    1: "(if fin then bindR (ASSERT (toBeDestroyed s = None)) (\<lambda>_. Inr (s\<lparr>toBeDestroyed := Some (currentThread s)\<rparr>))
         else Inr s) = Inr s1"
    and 2: "(if tspace th \<noteq> None then bindR (SaveUserState (currentThread s) s1) (\<lambda>s'. space_SaveState (currentThread s) s')
         else Inr s1) = Inr s2"
    and 3: "upd_thread n (\<lambda>th. th\<lparr>tstatus := RUNNING\<rparr>) (s2\<lparr>currentThread := n\<rparr>) = Inr s'"
    unfolding Run_before_def Let_def by (simp only: bindR_eq_Inr) blast
  have "keeps t s s1" using 1 t by (auto simp: keeps_def split: if_splits)
  moreover have "keeps t s1 s2" using 2 t
    by (auto simp: bindR_eq_Inr split: if_splits) (metis keeps_trans save_keeps)
  moreover have "keeps t s2 s'" using upd_thread_keeps [OF 3, of t] by (simp add: keeps_def)
  ultimately show ?thesis by (blast intro: keeps_trans)
qed

lemma Run_after_keeps: "Run_after s = Inr s' \<Longrightarrow> keeps t s s'"
  by (auto simp: Run_after_def Let_def bindR_eq_Inr ASSERT_def RestoreUserState_def space_RestoreState_def keeps_def
      split: if_splits option.splits dest!: Destroyed_keeps [where t = t])

lemma Sleep_keeps:
  assumes "Thread_Sleep_loop vs fin s = Inr (s', k)" "t \<noteq> currentThread s"
  shows "keeps t s s'"
proof -
  obtain n s1 where s1: "FindNextToRun s = Inr (n, s1)"
    using assms(1) by (auto simp: Thread_Sleep_loop_def bindR_eq_Inr)
  then have "currentThread s1 = currentThread s" "keeps t s s1"
    by (auto simp: FindNextToRun_def bindR_eq_Inr ASSERT_def split: if_splits)
  with assms s1 show ?thesis
    by (auto simp: Thread_Sleep_loop_def bindR_eq_Inr split: option.splits
        dest!: foldR_V_keeps [where t = t] Run_before_keeps [where t = t] intro: keeps_trans)
qed

lemma Yield_keeps:
  assumes "Thread_Yield s = Inr (s', k)" "t \<noteq> currentThread s"
  shows "keeps t s s'"
proof -
  obtain n s1 where s1: "FindNextToRun (ChangeLevel IntOff s) = Inr (n, s1)"
    using assms(1) by (auto simp: Thread_Yield_def Let_def bindR_eq_Inr)
  then have c: "currentThread s1 = currentThread s" and k: "keeps t s s1"
    by (auto simp: FindNextToRun_def bindR_eq_Inr ASSERT_def split: if_splits)
  show ?thesis
  proof (cases n)
    case None
    then show ?thesis using assms(1) s1 k by (simp add: Thread_Yield_def Let_def)
  next
    case (Some n')
    then obtain s2 where s2: "ReadyToRun (currentThread s) s1 = Inr s2" "Run_before n' False s2 = Inr s'"
      using assms(1) s1 by (auto simp: Thread_Yield_def Let_def bindR_eq_Inr)
    then have "currentThread s2 = currentThread s"
      using c by (auto simp: ReadyToRun_def bindR_eq_Inr upd_thread_def obj_def ASSERT_def split: if_splits option.splits)
    then show ?thesis
      using k ReadyToRun_keeps [OF s2(1), of t] Run_before_keeps [OF s2(2), of t] assms(2) by (auto intro: keeps_trans)
  qed
qed

lemma act_keeps:
  assumes a: "act orc a s = Inr (s', k)" and t: "t \<noteq> currentThread s" "t < next_thread s"
  shows "keeps t s s'"
proof (cases a)
  case (AFork p)
  then show ?thesis using a t
    by (auto simp: act_def Thread_Fork_def Let_def bindR_eq_Inr keeps_def dest!: ReadyToRun_keeps [where t = t])
next
  case (AWait c l)
  then show ?thesis using a
    by (auto simp: act_def Condition_Wait_def Semaphore_new_def bindR_eq_Inr ASSERT_def split: if_splits)
qed (use a t in \<open>auto simp: act_def Semaphore_P_def Semaphore_V_def Interrupt_SetLevel_def Thread_Begin_def Thread_Finish_def
        Lock_Release_def Condition_Signal_def Condition_Broadcast_def bindR_eq_Inr ASSERT_def split: if_splits
        dest!: P_retry_keeps [where t = t] V_keeps [where t = t] foldR_V_keeps [where t = t] Sleep_keeps [where t = t]
          Run_after_keeps [where t = t] Destroyed_keeps [where t = t] Yield_keeps [where t = t] upd_thread_keeps [where t = t]\<close>)

text \<open>Only \<open>Thread::Sleep\<close> and \<open>Thread::Yield\<close> change the current thread.\<close>

lemma upd_thread_current: "upd_thread u f s = Inr s' \<Longrightarrow> currentThread s' = currentThread s"
  by (auto simp: upd_thread_def bindR_eq_Inr)

lemma ReadyToRun_current: "ReadyToRun u s = Inr s' \<Longrightarrow> currentThread s' = currentThread s"
  by (auto simp: ReadyToRun_def bindR_eq_Inr ASSERT_def split: if_splits dest: upd_thread_current)

lemma V_current: "V_body k s = Inr s' \<Longrightarrow> currentThread s' = currentThread s"
  by (auto simp: V_body_def bindR_eq_Inr split: if_splits dest: ReadyToRun_current)

lemma foldR_V_current: "foldR V_body vs s = Inr s' \<Longrightarrow> currentThread s' = currentThread s"
  by (induction vs arbitrary: s) (auto simp: bindR_eq_Inr dest: V_current)

lemma P_retry_current: "P_retry k old s = Inr (s', a) \<Longrightarrow> currentThread s' = currentThread s"
  by (auto simp: P_retry_def P_body_def bindR_eq_Inr ASSERT_def split: if_splits dest: upd_thread_current)

lemma Destroyed_current: "CheckToBeDestroyed s = Inr s' \<Longrightarrow> currentThread s' = currentThread s"
  by (auto simp: CheckToBeDestroyed_def Thread_delete_def bindR_eq_Inr ASSERT_def split: if_splits option.splits)

lemmas current_dests = upd_thread_current ReadyToRun_current V_current foldR_V_current P_retry_current Destroyed_current

lemma act_current:
  assumes a: "act orc a s = Inr (s', k)" "currentThread s' \<noteq> currentThread s"
  shows "a = AYield \<or> (\<exists>fin. a = ASleep fin)"
proof (cases a)
  case (AFork p)
  then show ?thesis using a
    by (auto simp: act_def Thread_Fork_def Let_def bindR_eq_Inr dest!: current_dests)
next
  case (AWait c l)
  then show ?thesis using a
    by (auto simp: act_def Condition_Wait_def Semaphore_new_def bindR_eq_Inr ASSERT_def split: if_splits)
next
  case AAfter
  then show ?thesis using a
    by (auto simp: act_def Run_after_def Let_def bindR_eq_Inr ASSERT_def RestoreUserState_def space_RestoreState_def
        split: if_splits option.splits dest!: current_dests)
qed (use a in \<open>auto simp: act_def Semaphore_P_def Semaphore_V_def Interrupt_SetLevel_def Thread_Begin_def Thread_Finish_def
        Lock_Release_def Condition_Signal_def Condition_Broadcast_def bindR_eq_Inr ASSERT_def split: if_splits
        dest!: current_dests\<close>)

text \<open>What is stored with a thread that is switched out.\<close>

definition parked :: "nat \<Rightarrow> Machine \<Rightarrow> TranslationEntry list \<Rightarrow> u32 \<Rightarrow> 'z Kern_scheme \<Rightarrow> bool" where
  "parked t m pt n s \<longleftrightarrow> toBeDestroyed s \<noteq> Some t \<and> (\<exists>th. threads s t = Some th \<and>
     (\<forall>i<NumTotalRegs. userRegisters th i = registers m i) \<and> tspace th = Some (pt, n))"

lemma switched_parked:
  assumes "threads s t = Some th" "currentThread s = t" "tspace th = Some (pt0, n)" "machine s = Some m"
    "pageTable m = Some pt" "toBeDestroyed s = None"
  shows "parked t m pt n (switched u False s)"
  using assms by (auto simp: switched_def Let_def parked_def saved_def)

lemma switch_out:
  assumes ok: "sched_ok s C" and st: "kstep orc (s, C) = Inr (s', C')" "currentThread s' \<noteq> t"
    and t: "currentThread s = t" "threads s t = Some th" "tspace th = Some (pt0, n)" "hd (C t) \<noteq> ASleep True"
    and m: "machine s = Some m" "pageTable m = Some pt"
  shows "parked t m pt n s' \<and> (\<exists>r. C' t = AAfter # r)"
proof -
  obtain a r where c: "C (currentThread s) = a # r" using st t(1) by (cases "C (currentThread s)") (auto simp: kstep_def)
  obtain k where a: "act orc a s = Inr (s', k)" and C': "C' = (forked a s C)(t := k @ r)"
    using st(1) c t(1) by (auto simp: kstep_def bindR_eq_Inr)
  consider (Y) "a = AYield" | (S) "a = ASleep False" using act_current [OF a] st(2) t(1,4) c by auto
  then show ?thesis
  proof cases
    case Y
    have nd: "toBeDestroyed s = None" by (rule none_destroyed [OF ok c]) (simp_all add: Y)
    obtain u q where q: "readyList s = u # q"
      using a st(2) t(1) by (cases "readyList s") (auto simp: Y act_def Thread_Yield_def Let_def FindNextToRun_eq)
    let ?s1 = "(ChangeLevel IntOff s)\<lparr>threads := (threads s)(t \<mapsto> th\<lparr>tstatus := READY\<rparr>), readyList := q @ [t]\<rparr>"
    have "s' = switched u False ?s1" "k = [AAfter, ASetLevel (level s)]"
      using a Yield_eq [OF ok c [unfolded Y] q] t by (simp_all add: Y act_def)
    then show ?thesis
      using switched_parked [of ?s1 t "th\<lparr>tstatus := READY\<rparr>" pt0 n m pt u] t m nd C' by simp
  next
    case S
    have nd: "toBeDestroyed s = None" by (rule none_destroyed [OF ok c]) (simp_all add: S)
    have lev: "level s = IntOff" by (rule head_level [OF ok c]) (simp add: S)
    obtain u q where q: "readyList s = u # q"
      using a st(2) t(1) by (cases "readyList s")
        (auto simp: S act_def Thread_Sleep_loop_def FindNextToRun_eq [OF lev] bindR_eq_Inr dest: current_dests)
    have "s' = switched u False (s\<lparr>readyList := q\<rparr>)" "k = [AAfter]"
      using a Sleep_eq [OF ok c [unfolded S] q, of "fst orc"] by (simp_all add: S act_def)
    then show ?thesis using switched_parked [of "s\<lparr>readyList := q\<rparr>" t th pt0 n m pt u] t m nd C' by simp
  qed
qed

text \<open>The steps of the other threads until thread \<open>t\<close> is current again.\<close>

inductive away :: "nat \<Rightarrow> 'z Kern_scheme \<times> (nat \<Rightarrow> action list) \<Rightarrow> 'z Kern_scheme \<times> (nat \<Rightarrow> action list) \<Rightarrow> bool" for t where
  away_refl: "away t x x"
| away_step: "away t x (s, C) \<Longrightarrow> currentThread s \<noteq> t \<Longrightarrow> orc_ok orc s \<Longrightarrow> kstep orc (s, C) = Inr y \<Longrightarrow> away t x y"

lemma kstep_away:
  assumes ok: "sched_ok s C" and st: "kstep orc (s, C) = Inr (s', C')" and t: "currentThread s \<noteq> t" "t < next_thread s"
  shows "keeps t s s' \<and> C' t = C t"
proof (cases "C (currentThread s)")
  case (Cons a r)
  then obtain k where "act orc a s = Inr (s', k)" "C' = (forked a s C)(currentThread s := k @ r)"
    using st by (auto simp: kstep_def bindR_eq_Inr)
  then show ?thesis using act_keeps [of orc a s s' k t] t by (auto simp: forked_def split: action.split)
qed (use st in \<open>simp add: kstep_def\<close>)

lemma away_parked:
  assumes "away t x y" "sched_ok (fst x) (snd x)" "parked t m pt n (fst x)" "snd x t = c"
  shows "sched_ok (fst y) (snd y) \<and> parked t m pt n (fst y) \<and> snd y t = c"
  using assms
proof (induction rule: away.induct)
  case (away_step x s C orc y)
  then have ok: "sched_ok s C" and p: "parked t m pt n s" and c: "C t = c" by simp_all
  have "t < next_thread s" using p thread_ok(1) [OF sched_objs [OF ok]] by (auto simp: parked_def)
  then have k: "keeps t s (fst y)" "snd y t = C t"
    using kstep_away [OF ok, of orc "fst y" "snd y" t] away_step.hyps by simp_all
  have "sched_ok (fst y) (snd y)" using kstep_sched [OF ok, of orc "fst y" "snd y"] away_step.hyps by simp
  moreover have "parked t m pt n (fst y)" using p k(1) by (force simp: parked_def keeps_def)
  ultimately show ?case using k c by simp
qed simp

lemma resume:
  assumes ok: "sched_ok s C" and p: "parked t m pt n s" and t: "currentThread s = t" and c: "C t = AAfter # r"
  shows "\<exists>s' m'. kstep orc (s, C) = Inr (s', C(t := r)) \<and> currentThread s' = t \<and> machine s' = Some m' \<and>
    (\<forall>i<NumTotalRegs. registers m' i = registers m i) \<and> pageTable m' = Some pt \<and> pageTableSize m' = n"
proof -
  obtain th where th: "threads s t = Some th" "\<forall>i<NumTotalRegs. userRegisters th i = registers m i" "tspace th = Some (pt, n)"
    using p by (auto simp: parked_def)
  have lev: "level s = IntOff" using head_level [OF ok, of AAfter r] c t by simp
  obtain s1 where s1: "CheckToBeDestroyed s = Inr s1" "machine s1 = machine s" "currentThread s1 = t" "threads s1 t = Some th"
    using CheckToBeDestroyed_ok [OF ok] t th(1) by auto
  obtain m0 where m0: "machine s = Some m0" using thread_ok(3) [OF sched_objs [OF ok] th(1)] th(3) by auto
  have "Run_after s = Inr (s1\<lparr>machine := Some (restored th m0)\<rparr>)"
    using restore_eq [OF s1(4), of m0] s1 m0 th(3) lev t by (simp add: Run_after_def obj_def)
  then have "kstep orc (s, C) = Inr (s1\<lparr>machine := Some (restored th m0)\<rparr>, C(t := r))"
    using c t by (simp add: kstep_def act_def forked_def)
  then show ?thesis using s1(3) th by (simp add: restored_def)
qed


text \<open>Two threads that yield to each other; the first is a user thread.\<close>

definition duo :: Kern where
  "duo = kern0\<lparr>level := IntOn, machine := Some (one_page_machine\<lparr>registers := (\<lambda>_. 0)(5 := 7)\<rparr>),
     threads := [0 \<mapsto> \<lparr>tstatus = RUNNING, fence = None, userRegisters = (\<lambda>_. 0),
                     tspace = Some (the (pageTable one_page_machine), 1)\<rparr>,
                 1 \<mapsto> forked_thread],
     readyList := [1], next_thread := 2\<rparr>"

definition duo_prog :: "nat \<Rightarrow> action list" where
  "duo_prog = (\<lambda>_. [])(0 := [AYield], 1 := [AAfter, AYield])"

lemma duo_simps [simp]:
  "currentThread duo = 0" "readyList duo = [1]" "sems duo = Map.empty" "locks duo = Map.empty" "conds duo = Map.empty"
  "toBeDestroyed duo = None" "level duo = IntOn" "inHandler duo = False" "next_thread duo = 2"
  "machine duo = Some (one_page_machine\<lparr>registers := (\<lambda>_. 0)(5 := 7)\<rparr>)"
  "threads duo = [0 \<mapsto> \<lparr>tstatus = RUNNING, fence = None, userRegisters = (\<lambda>_. 0),
                     tspace = Some (the (pageTable one_page_machine), 1)\<rparr>, 1 \<mapsto> forked_thread]"
  by (simp_all add: duo_def kern0_def)

lemma duo_ok: "sched_ok duo duo_prog"
proof -
  have w: "\<not> waits duo t k" for t k by (simp add: waits_def)
  show ?thesis unfolding sched_ok_def
    by (auto simp: lists_ok_def objs_ok_def conts_ok_def switch_ok_def w running_shape_def tail_ok_def duo_prog_def
        forked_thread_def Thread_new_def)
qed

lemma yield_step:
  assumes ok: "sched_ok s C" and c: "C (currentThread s) = AYield # r" and rl: "readyList s = n # q"
    and th: "threads s (currentThread s) = Some th"
  shows "\<exists>s'. kstep orc (s, C) = Inr (s', C(currentThread s := AAfter # ASetLevel (level s) # r)) \<and>
    currentThread s' = n \<and> readyList s' = q @ [currentThread s] \<and> toBeDestroyed s' = toBeDestroyed s \<and> level s' = IntOff \<and>
    (\<forall>u. u \<noteq> currentThread s \<longrightarrow> same_kind (threads s u) (threads s' u))"
proof -
  let ?s1 = "(ChangeLevel IntOff s)\<lparr>threads := (threads s)(currentThread s \<mapsto> th\<lparr>tstatus := READY\<rparr>), readyList := q @ [currentThread s]\<rparr>"
  have "kstep orc (s, C) = Inr (switched n False ?s1, C(currentThread s := AAfter # ASetLevel (level s) # r))"
    using Yield_eq [OF ok c rl th] c by (simp add: kstep_def act_def forked_def)
  moreover have "same_kind (threads s u) (threads (switched n False ?s1) u)" if "u \<noteq> currentThread s" for u
    using switched_threads [where s = ?s1 and th = "th\<lparr>tstatus := READY\<rparr>" and n = n and t = u and fin = False] ready_thread [OF ok, of n] rl that by (auto simp: same_kind_def)
  ultimately show ?thesis using switched_same [where s = ?s1 and n = n and fin = False] by (auto simp: agree_def)
qed


section \<open>No lost wake-ups\<close>

text \<open>The thread will evaluate the loop condition of \<open>P\<close> on semaphore \<open>k\<close> again.\<close>

fun retrying :: "nat \<Rightarrow> action list \<Rightarrow> bool" where
  "retrying k (ARetry j _ # _) \<longleftrightarrow> j = k"
| "retrying k (AAfter # ARetry j _ # _) \<longleftrightarrow> j = k"
| "retrying k (ASleep False # ARetry j _ # _) \<longleftrightarrow> j = k"
| "retrying k _ \<longleftrightarrow> False"

text \<open>Threads taken off the queue of \<open>k\<close> that run or are ready to run, on their way to retry.\<close>

definition retriers :: "nat \<Rightarrow> 'z Kern_scheme \<Rightarrow> (nat \<Rightarrow> action list) \<Rightarrow> nat set" where
  "retriers k s C = {t \<in> insert (currentThread s) (set (readyList s)). \<not> waits s t k \<and> retrying k (C t)}"

definition wake_inv :: "nat \<Rightarrow> 'z Kern_scheme \<Rightarrow> (nat \<Rightarrow> action list) \<Rightarrow> bool" where
  "wake_inv k s C \<longleftrightarrow> (\<forall>sem. sems s k = Some sem \<longrightarrow> sem_queue sem \<noteq> [] \<longrightarrow>
     sem_value sem \<le> int (card (retriers k s C)))"

lemma finite_retriers [simp]: "finite (retriers k s C)"
  by (simp add: retriers_def)

lemma wake_keep:
  assumes "wake_inv k s C" "retriers k s C \<subseteq> retriers k s' C'"
    "\<And>sem. sems s' k = Some sem \<Longrightarrow> sem_queue sem \<noteq> [] \<Longrightarrow> sems s k = Some sem"
  shows "wake_inv k s' C'"
  unfolding wake_inv_def
proof (intro allI impI)
  fix sem
  assume "sems s' k = Some sem" "sem_queue sem \<noteq> []"
  then have "sem_value sem \<le> int (card (retriers k s C))" using assms(1,3) by (simp add: wake_inv_def)
  also have "\<dots> \<le> int (card (retriers k s' C'))" using assms(2) by (simp add: card_mono)
  finally show "sem_value sem \<le> int (card (retriers k s' C'))" .
qed

lemma V_wake:
  assumes ok: "sched_ok s C" and lev: "level s = IntOff" and inv: "wake_inv k s C" and v: "V_body j s = Inr s'"
  shows "wake_inv k s' C"
proof -
  obtain sem where sem: "sems s j = Some sem" using v by (auto simp: V_body_def obj_def split: option.splits)
  show ?thesis
  proof (cases "sem_queue sem")
    case Nil
    then have s': "s' = s\<lparr>sems := (sems s)(j \<mapsto> \<lparr>sem_value = sem_value sem + 1, sem_queue = []\<rparr>)\<rparr>"
      using v V_body_empty [OF sem] by simp
    have "waits s' t i \<longleftrightarrow> waits s t i" for t i using sem Nil by (auto simp: waits_def s')
    then have "retriers k s C \<subseteq> retriers k s' C" by (auto simp: retriers_def s')
    then show ?thesis by (rule wake_keep [OF inv]) (auto simp: s' split: if_splits)
  next
    case (Cons t q)
    have tj: "waits s t j" using sem Cons by (simp add: waits_def)
    obtain th where th: "threads s t = Some th" using waits_thread [OF ok tj] by auto
    have s': "s' = woken j sem t th q s"
      using v V_body_wake [OF sem Cons lev th waits_not_ready [OF ok tj]] by simp
    note w = waits_woken [OF sched_lists [OF ok] sem Cons, of th, folded s']
    have same: "currentThread s' = currentThread s" "readyList s' = readyList s @ [t]" by (simp_all add: s' woken_def)
    have sub: "retriers k s C \<subseteq> retriers k s' C" by (auto simp: retriers_def w same)
    show ?thesis
    proof (cases "j = k")
      case False
      then show ?thesis using wake_keep [OF inv sub] by (simp add: s' woken_def)
    next
      case True
      have "retrying k (C t)" using waits_cont [OF ok tj] True by (cases "t = currentThread s") auto
      then have "t \<in> retriers k s' C" "t \<notin> retriers k s C" using tj True by (auto simp: retriers_def w same)
      then have "Suc (card (retriers k s C)) \<le> card (retriers k s' C)"
        using sub by (metis card_insert_disjoint card_mono finite_retriers insert_subset)
      moreover have "sem_value sem \<le> int (card (retriers k s C))"
        using inv sem Cons True by (simp add: wake_inv_def)
      ultimately show ?thesis using True by (auto simp: wake_inv_def s' woken_def)
    qed
  qed
qed

lemma foldR_V_wake:
  assumes "sched_ok s C" "level s = IntOff" "wake_inv k s C" "foldR V_body vs s = Inr s'" "\<forall>j\<in>set vs. sems s j \<noteq> None"
  shows "wake_inv k s' C"
  using assms
proof (induction vs arbitrary: s)
  case (Cons j vs)
  obtain sem where sem: "sems s j = Some sem" using Cons.prems(5) by auto
  obtain s1 where s1: "V_body j s = Inr s1" "sched_ok s1 C" "same_rest s s1"
    using V_body_ok [OF Cons.prems(1,2) sem] by blast
  have "foldR V_body vs s1 = Inr s'" using Cons.prems(4) s1(1) by simp
  moreover have "level s1 = IntOff" "\<forall>j\<in>set vs. sems s1 j \<noteq> None"
    using s1(3) Cons.prems(2,5) by (simp_all add: same_rest_def)
  ultimately show ?case using Cons.IH [OF s1(2) _ V_wake [OF Cons.prems(1,2,3) s1(1)]] by blast
qed simp

text \<open>One evaluation of the loop condition of \<open>P\<close>.\<close>

lemma P_wake:
  assumes ok: "sched_ok s C" and c: "C (currentThread s) = a # r" and a: "a = AP j \<or> a = ARetry j old"
    and lev: "level s = IntOff" and inv: "wake_inv k s C" and p: "P_retry j old' s = Inr (s', acts)"
  shows "wake_inv k s' (C(currentThread s := acts @ r))"
proof -
  obtain sem where sem: "sems s j = Some sem" using tail_refs [OF ok c] a by auto
  obtain th where th: "threads s (currentThread s) = Some th" using cur_thread [OF ok] by blast
  have nw: "\<not> waits s (currentThread s) i" for i by (rule not_waiting [OF ok c]) (use a in auto)
  have q: "currentThread s \<notin> set (sem_queue sem)" using nw [of j] sem by (simp add: waits_def)
  show ?thesis
  proof (cases "sem_value sem = 0")
    case True
    have s': "s' = blocked j sem th s" "acts = [ASleep False, ARetry j old']"
      using p True sem th q lev
      by (simp_all add: P_retry_def P_body_def obj_def seq_Append_def upd_thread_def blocked_def)
    show ?thesis
    proof (cases "j = k")
      case False
      have w: "waits s' t k \<longleftrightarrow> waits s t k" for t using False by (simp add: waits_def s' blocked_def)
      have same: "currentThread s' = currentThread s" "readyList s' = readyList s" by (simp_all add: s' blocked_def)
      have "currentThread s \<notin> retriers k s C" using a c False by (auto simp: retriers_def)
      then have "retriers k s C \<subseteq> retriers k s' (C(currentThread s := acts @ r))"
        unfolding retriers_def w same by auto
      then show ?thesis by (rule wake_keep [OF inv]) (use False in \<open>simp add: s' blocked_def\<close>)
    qed (use True in \<open>simp add: wake_inv_def s' blocked_def\<close>)
  next
    case False
    have s': "s' = s\<lparr>sems := (sems s)(j \<mapsto> sem\<lparr>sem_value := sem_value sem - 1\<rparr>)\<rparr>" "acts = [ASetLevel old']"
      using p False sem by (simp_all add: P_retry_def P_body_def obj_def)
    have w: "waits s' t i \<longleftrightarrow> waits s t i" for t i using sem by (auto simp: waits_def s')
    let ?R' = "retriers k s' (C(currentThread s := acts @ r))"
    have same: "currentThread s' = currentThread s" "readyList s' = readyList s" by (simp_all add: s')
    have sub: "retriers k s C - {currentThread s} \<subseteq> ?R'" unfolding retriers_def w same by auto
    show ?thesis
    proof (cases "j = k")
      case False
      then have "currentThread s \<notin> retriers k s C" using a c by (auto simp: retriers_def)
      then have "retriers k s C \<subseteq> ?R'" using sub by blast
      then show ?thesis by (rule wake_keep [OF inv]) (use False in \<open>simp add: s'\<close>)
    next
      case True
      have "card (retriers k s C) \<le> Suc (card (retriers k s C - {currentThread s}))"
        by (metis card_Suc_Diff1 card_mono finite_retriers Diff_empty Diff_insert0 le_Suc_eq order_refl)
      also have "\<dots> \<le> Suc (card ?R')" using card_mono [OF finite_retriers sub] by simp
      finally show ?thesis using inv sem True by (auto simp: wake_inv_def s')
    qed
  qed
qed

text \<open>Steps that change neither the queues nor the ready list.\<close>

lemma wake_local:
  assumes inv: "wake_inv k s C" and same: "currentThread s' = currentThread s" "readyList s' = readyList s"
    and q: "\<And>sem. sems s' k = Some sem \<Longrightarrow> sem_queue sem \<noteq> [] \<Longrightarrow> sems s k = Some sem"
    and c: "retrying k (C (currentThread s)) \<Longrightarrow> retrying k c'"
  shows "wake_inv k s' (C(currentThread s := c'))"
proof (rule wake_keep [OF inv _ q])
  have "waits s t k" if "waits s' t k" for t
    using that q by (fastforce simp: waits_def)
  then show "retriers k s C \<subseteq> retriers k s' (C(currentThread s := c'))"
    using c by (auto simp: retriers_def same)
qed


lemma switch_wake:
  assumes inv: "wake_inv k s C" and rl: "readyList s = n # q" and s1: "sems s1 = sems s" "currentThread s1 = currentThread s"
    and r: "set q \<subseteq> set (readyList s1)"
    and c: "currentThread s \<in> retriers k s C \<Longrightarrow> currentThread s \<in> set (n # readyList s1) \<and> retrying k c'"
  shows "wake_inv k (switched n fin s1) (C(currentThread s := c'))"
proof (rule wake_keep [OF inv])
  note sw = switched_same [where s = s1 and n = n and fin = fin]
  have w: "waits (switched n fin s1) t k \<longleftrightarrow> waits s t k" for t using sw(5) [of t k] s1 by (simp add: waits_def)
  have rl': "readyList (switched n fin s1) = readyList s1" using sw(1) by (simp add: agree_def)
  show "retriers k s C \<subseteq> retriers k (switched n fin s1) (C(currentThread s := c'))"
  proof
    fix t
    assume t: "t \<in> retriers k s C"
    show "t \<in> retriers k (switched n fin s1) (C(currentThread s := c'))"
    proof (cases "t = currentThread s")
      case True
      then show ?thesis using c t by (simp add: retriers_def w rl' sw(2))
    next
      case False
      then show ?thesis using r t rl by (auto simp: retriers_def w rl' sw(2))
    qed
  qed
  show "sems s k = Some sem" if "sems (switched n fin s1) k = Some sem" for sem
    using that sw(1) s1 by (simp add: agree_def)
qed

lemma Sleep_wake:
  assumes ok: "sched_ok s C" and c: "C (currentThread s) = ASleep fin # r" and vs: "\<forall>j\<in>set vs. sems s j \<noteq> None"
    and inv: "wake_inv k s C" and st: "Thread_Sleep_loop vs fin s = Inr (s', acts)"
  shows "wake_inv k s' (C(currentThread s := acts @ r))"
proof (cases "readyList s")
  case Nil
  have lev: "level s = IntOff" by (rule head_level [OF ok c]) simp
  have "foldR V_body vs s = Inr s'" "acts = [ASleep fin]"
    using st Nil lev by (auto simp: Thread_Sleep_loop_def FindNextToRun_eq bindR_eq_Inr)
  then show ?thesis using foldR_V_wake [OF ok lev inv _ vs] c by (simp add: fun_upd_idem)
next
  case (Cons n q)
  then have s': "s' = switched n fin (s\<lparr>readyList := q\<rparr>)" "acts = [AAfter]" using st Sleep_eq [OF ok c Cons] by simp_all
  show ?thesis unfolding s'
  proof (rule switch_wake [OF inv Cons])
    assume a: "currentThread s \<in> retriers k s C"
    then have f: "\<not> fin" and ra: "retrying k ([AAfter] @ r)" using c by (auto simp: retriers_def split: list.splits action.splits elim!: retrying.elims)
    have "currentThread s \<in> set (n # q)"
    proof (rule ccontr)
      assume "currentThread s \<notin> set (n # q)"
      moreover have "\<not> waits s (currentThread s) j" for j
      proof
        assume j: "waits s (currentThread s) j"
        then have "j = k" using waits_cont [OF ok j] ra c by auto
        then show False using a j by (simp add: retriers_def)
      qed
      ultimately have "running_shape (C (currentThread s))" using cur_shape [OF ok] Cons by simp
      then show False using c f by (simp add: running_shape_def tail_ok_def)
    qed
    then show "currentThread s \<in> set (n # readyList (s\<lparr>readyList := q\<rparr>)) \<and> retrying k ([AAfter] @ r)" using ra by simp
  qed simp_all
qed

lemma plain_not_retrying: "plain a \<Longrightarrow> \<not> retrying k (a # r)"
  by (cases a) simp_all

lemma Yield_wake:
  assumes ok: "sched_ok s C" and c: "C (currentThread s) = AYield # r" and inv: "wake_inv k s C"
    and st: "Thread_Yield s = Inr (s', acts)"
  shows "wake_inv k s' (C(currentThread s := acts @ r))"
proof (cases "readyList s")
  case Nil
  then have "s' = ChangeLevel IntOff s" using st by (simp add: Thread_Yield_def Let_def FindNextToRun_eq)
  then show ?thesis using c by (intro wake_local [OF inv]) simp_all
next
  case (Cons n q)
  obtain th where th: "threads s (currentThread s) = Some th" using cur_thread [OF ok] by blast
  show ?thesis using st c unfolding Yield_eq [OF ok c Cons th]
    by (auto intro!: switch_wake [OF inv Cons] simp: retriers_def)
qed

lemma fork_wake:
  assumes ok: "sched_ok s C" and c: "C (currentThread s) = AFork p # r" and inv: "wake_inv k s C"
  shows "wake_inv k (with_thread s) ((C(next_thread s := ABegin # p @ [AFinish]))(currentThread s := ASetLevel (level s) # r))"
proof (rule wake_keep [OF inv])
  have "next_thread s \<notin> insert (currentThread s) (set (readyList s))"
    using fresh_thread [OF ok] cur_thread [OF ok] ready_thread [OF ok, of "next_thread s"] by auto
  then show "retriers k s C \<subseteq> retriers k (with_thread s)
      ((C(next_thread s := ABegin # p @ [AFinish]))(currentThread s := ASetLevel (level s) # r))"
    using c by (auto simp: retriers_def with_thread_def waits_def)
qed (simp add: with_thread_def)

lemma act_wake:
  assumes ok: "sched_ok s C" and c: "C (currentThread s) = a # r" and orc: "orc_ok orc s" and inv: "wake_inv k s C"
    and a: "\<And>p. a \<noteq> AFork p" and st: "act orc a s = Inr (s', acts)"
  shows "wake_inv k s' (C(currentThread s := acts @ r))"
proof (cases a)
  case (AP j)
  have "wake_inv k (ChangeLevel IntOff s) C" using inv by (simp add: wake_inv_def retriers_def)
  then show ?thesis
    using P_wake [OF sched_level_off [OF ok], of a r j _ k "level s" s' acts] c AP st by (simp add: act_def Semaphore_P_def)
next
  case (ARetry j old)
  have "level s = IntOff" by (rule head_level [OF ok c]) (simp add: ARetry)
  then show ?thesis using P_wake [OF ok c, of j old k old s' acts] inv ARetry st by (simp add: act_def)
next
  case (AV j)
  have "wake_inv k (ChangeLevel IntOff s) C" using inv by (simp add: wake_inv_def retriers_def)
  moreover have v: "V_body j (ChangeLevel IntOff s) = Inr s'" "acts = [ASetLevel (level s)]"
    using st AV by (auto simp: act_def Semaphore_V_def bindR_eq_Inr)
  ultimately have "wake_inv k s' C" using V_wake [OF sched_level_off [OF ok], of k j s'] by simp
  then have "wake_inv k s' (C(currentThread s' := acts @ r))"
    using c V_current [OF v(1)] AV by (intro wake_local [of k s' C s']) simp_all
  then show ?thesis using V_current [OF v(1)] by simp
next
  case (ASetLevel l)
  show ?thesis
  proof (cases "l = IntOn \<and> level s = IntOff")
    case True
    obtain s1 where s1: "foldR V_body (fst orc) s = Inr s1" "s' = ChangeLevel IntOn s1"
      using st ASetLevel True by (auto simp: act_def Interrupt_SetLevel_def bindR_eq_Inr split: if_splits)
    have "wake_inv k s1 C" using foldR_V_wake [OF ok _ inv s1(1)] True orc by (simp add: orc_ok_def)
    then have "wake_inv k s' (C(currentThread s1 := acts @ r))"
      using c foldR_V_current [OF s1(1)] ASetLevel s1(2) by (intro wake_local [of k s1 C s']) simp_all
    then show ?thesis using foldR_V_current [OF s1(1)] by simp
  next
    case False
    then have "s' = ChangeLevel l s" using st ASetLevel
      by (auto simp: act_def Interrupt_SetLevel_def bindR_eq_Inr ASSERT_def split: if_splits)
    then show ?thesis using c ASetLevel by (intro wake_local [OF inv]) simp_all
  qed
next
  case AAfter
  obtain s1 where s1: "CheckToBeDestroyed s = Inr s1" "agree s s1" "currentThread s1 = currentThread s"
    using CheckToBeDestroyed_ok [OF ok] by blast
  have "sems s' = sems s" "readyList s' = readyList s" "currentThread s' = currentThread s" "acts = []"
    using st AAfter s1
    by (auto simp: act_def Run_after_def Let_def bindR_eq_Inr ASSERT_def RestoreUserState_def space_RestoreState_def agree_def
        split: if_splits option.splits)
  moreover have "tail_ok r" using shape [OF ok c] AAfter by (simp add: running_shape_def tail_ok_def)
  ultimately show ?thesis using c AAfter
    by (intro wake_local [OF inv]) (auto simp: tail_ok_def neq_Nil_conv elim: retrying.elims)
next
  case (ASleep fin)
  then show ?thesis using Sleep_wake [OF ok _ _ inv] c orc st by (simp add: act_def orc_ok_def)
next
  case AYield
  then show ?thesis using Yield_wake [OF ok _ inv] c st by (simp add: act_def)
next
  case ABegin
  obtain s1 where "CheckToBeDestroyed s = Inr s1" "agree s s1" "currentThread s1 = currentThread s"
    using CheckToBeDestroyed_ok [OF ok] by blast
  then show ?thesis using st c ABegin
    by (intro wake_local [OF inv]) (auto simp: act_def Thread_Begin_def agree_def)
next
  case (AWait cd l)
  then show ?thesis using st c
    by (intro wake_local [OF inv])
       (auto simp: act_def Condition_Wait_def Semaphore_new_def bindR_eq_Inr ASSERT_def split: if_splits)
next
  case (ASignal cd l)
  then show ?thesis using st c
    by (intro wake_local [OF inv]) (auto simp: act_def Condition_Signal_def bindR_eq_Inr ASSERT_def split: if_splits)
next
  case (ABroadcast cd l)
  then show ?thesis using st c
    by (intro wake_local [OF inv]) (auto simp: act_def Condition_Broadcast_def bindR_eq_Inr split: if_splits)
qed (use a st c in \<open>auto simp: act_def Thread_Finish_def upd_thread_def Lock_Release_def bindR_eq_Inr ASSERT_def
      intro!: wake_local [OF inv] split: if_splits\<close>)

lemma kstep_wake:
  assumes ok: "sched_ok s C" and orc: "orc_ok orc s" and inv: "wake_inv k s C" and st: "kstep orc (s, C) = Inr (s', C')"
  shows "wake_inv k s' C'"
proof (cases "C (currentThread s)")
  case (Cons a r)
  show ?thesis
  proof (cases "\<exists>p. a = AFork p")
    case True
    then obtain p where p: "C (currentThread s) = AFork p # r" using Cons by auto
    then show ?thesis using fork_step(1) [OF ok p, of orc] fork_wake [OF ok p inv] st by simp
  next
    case False
    then have "forked a s C = C" by (simp add: forked_def split: action.split)
    then obtain acts where "act orc a s = Inr (s', acts)" "C' = C(currentThread s := acts @ r)"
      using st Cons by (auto simp: kstep_def bindR_eq_Inr)
    then show ?thesis using act_wake [OF ok Cons orc inv] False by blast
  qed
qed (use st inv in \<open>simp add: kstep_def\<close>)

lemma runs_wake:
  "runs D x y \<Longrightarrow> sched_ok (fst x) (snd x) \<Longrightarrow> wake_inv k (fst x) (snd x) \<Longrightarrow> wake_inv k (fst y) (snd y)"
proof (induction rule: runs.induct)
  case (runs_step x s C orc y)
  have "sched_ok s C" using runs_sched [OF runs_step.hyps(1) runs_step.prems(1)] by simp
  then show ?case using kstep_wake [of s C orc k "fst y" "snd y"] runs_step by simp
qed simp

text \<open>
  C6. Semaphores lose no wake-up: as long as threads sleep on a semaphore, its value is at most
  the number of threads that were woken and run or are ready to run and will retry
  \<open>P\<close>. So a thread never sleeps on a positive semaphore unless another thread is on its way to
  take the value.
\<close>

theorem no_lost_wakeup:
  assumes b: "boot_ok ss n ls cs" and p: "list_all plain (C 0)" "list_all (refs (boot ss n ls cs s0)) (C 0)"
    and r: "runs D (boot ss n ls cs s0, C) (s, C')" and k: "sems s k = Some sem" "sem_queue sem \<noteq> []"
  shows "sem_value sem \<le> int (card (retriers k s C')) \<and>
    (sem_value sem > 0 \<longrightarrow> (\<exists>t. (t = currentThread s \<or> t \<in> set (readyList s)) \<and> t \<notin> set (sem_queue sem) \<and> retrying k (C' t)))"
proof -
  have ok: "sched_ok (boot ss n ls cs s0) C" by (rule sched_boot [OF b]) (rule p)+
  have "wake_inv k (boot ss n ls cs s0) C" using b by (auto simp: wake_inv_def boot_ok_def)
  then have le: "sem_value sem \<le> int (card (retriers k s C'))"
    using runs_wake [OF r, of k] ok k by (simp add: wake_inv_def)
  have "retriers k s C' \<noteq> {}" if "sem_value sem > 0" using le that by auto
  then show ?thesis using le k by (auto simp: retriers_def waits_def)
qed

theorem no_lost_wakeup_witness:
  "runs {1} (demo, demo_prog) (demo_asleep, demo_prog(0 := [ASleep False, ARetry 1 IntOff, AFork (Lock_Acquire 0 0 @ [ARelease 0]), AYield])) \<and>
   sems demo_asleep 1 = Some \<lparr>sem_value = 0, sem_queue = [0]\<rparr> \<and>
   0 \<le> int (card (retriers 1 demo_asleep (demo_prog(0 := [ASleep False, ARetry 1 IntOff, AFork (Lock_Acquire 0 0 @ [ARelease 0]), AYield]))))"
proof -
  have r: "runs {1} (demo, demo_prog) (demo_asleep, demo_prog(0 := [ASleep False, ARetry 1 IntOff, AFork (Lock_Acquire 0 0 @ [ARelease 0]), AYield]))"
    by (rule runs_step [OF runs_refl _ _ demo_P]) (simp_all add: orc_ok_def)
  have k: "sems demo_asleep 1 = Some \<lparr>sem_value = 0, sem_queue = [0]\<rparr>" by (simp add: demo_asleep_def)
  show ?thesis
    using no_lost_wakeup [where C = demo_prog, OF demo_boot_ok demo_prog_ok [unfolded demo_def] r [unfolded demo_def] k] r k by simp
qed

end
