(* ===== verification/Nachos_Locks.thy ===== *)
theory Nachos_Locks
  imports Nachos_Sync
begin

text \<open>
  Mutual exclusion of the locks of \<open>synch.cc\<close>. A lock is a semaphore of value one and the
  thread that holds it; the threads use it by the rules of \<open>synch.h\<close>: acquire before release,
  wait, signal and broadcast only between the two.
\<close>

section \<open>The discipline of a lock\<close>

text \<open>
  Where a thread stands with lock \<open>l\<close> (semaphore \<open>k\<close>): it has nothing, it has the semaphore but has
  not entered its name yet, it holds the lock, it has removed its name but not yet
  signalled the semaphore.
\<close>

datatype lstate = LFree | LGot | LHeld | LRel

definition stay :: "lstate \<Rightarrow> lstate option" where
  "stay st = (if st = LRel then None else Some st)"

definition need :: "lstate \<Rightarrow> lstate \<Rightarrow> lstate \<Rightarrow> lstate option" where
  "need st0 st1 st = (if st = st0 then Some st1 else None)"

definition lock_next :: "nat \<Rightarrow> nat \<Rightarrow> lstate \<Rightarrow> action \<Rightarrow> lstate option" where
  "lock_next l k st a = (case a of
     AP j \<Rightarrow> if j = k then need LFree LGot st else stay st
   | ARetry j _ \<Rightarrow> if j = k then need LFree LGot st else stay st
   | AV j \<Rightarrow> if j = k then need LRel LFree st else stay st
   | AAcquired m \<Rightarrow> if m = l then need LGot LHeld st else stay st
   | ARelease m \<Rightarrow> if m = l then need LHeld LFree st else stay st
   | AWait _ m \<Rightarrow> if m = l then need LHeld LHeld st else stay st
   | ASignal _ m \<Rightarrow> if m = l then need LHeld LHeld st else stay st
   | ABroadcast _ m \<Rightarrow> if m = l then need LHeld LHeld st else stay st
   | AFinish \<Rightarrow> need LFree LFree st
   | ASleep True \<Rightarrow> need LFree LFree st
   | _ \<Rightarrow> stay st)"

text \<open>A program that follows the discipline; so do the programs it forks.\<close>

function disc :: "nat \<Rightarrow> nat \<Rightarrow> lstate \<Rightarrow> action list \<Rightarrow> bool" where
  "disc l k st [] = True"
| "disc l k st (a # r) =
     ((case a of AFork p \<Rightarrow> disc l k LFree (p @ [AFinish]) | _ \<Rightarrow> True) \<and>
      (case lock_next l k st a of None \<Rightarrow> False | Some st' \<Rightarrow> disc l k st' r))"
  by pat_completeness auto
termination
  by (relation "measure (\<lambda>(l, k, st, c). size_list size c)") (auto simp: size_list_append)

text \<open>The next thing a program does with the lock is to release it or to use it as its holder.\<close>

fun inside :: "nat \<Rightarrow> action list \<Rightarrow> bool" where
  "inside l [] = False"
| "inside l (a # r) = (case a of
     ARelease m \<Rightarrow> m = l \<or> inside l r
   | AWait _ m \<Rightarrow> m = l \<or> inside l r
   | ASignal _ m \<Rightarrow> m = l \<or> inside l r
   | ABroadcast _ m \<Rightarrow> m = l \<or> inside l r
   | AAcquired m \<Rightarrow> m \<noteq> l \<and> inside l r
   | _ \<Rightarrow> inside l r)"

lemma disc_inside: "disc l k st c \<Longrightarrow> inside l c \<Longrightarrow> st = LHeld"
proof (induction c arbitrary: st)
  case (Cons a r)
  obtain st' where st': "lock_next l k st a = Some st'" "disc l k st' r"
    using Cons.prems(1) by (auto split: option.splits)
  then show ?case using Cons.prems(2) Cons.IH [OF st'(2)]
    by (cases a; cases st) (auto simp: lock_next_def need_def stay_def split: if_splits bool.splits)
qed simp

section \<open>The invariant\<close>

definition users :: "(nat \<Rightarrow> lstate) \<Rightarrow> 'z Kern_scheme \<Rightarrow> nat set" where
  "users g s = {t. threads s t \<noteq> None \<and> g t \<noteq> LFree}"

definition lock_objs :: "nat \<Rightarrow> nat \<Rightarrow> 'z Kern_scheme \<Rightarrow> bool" where
  "lock_objs l k s \<longleftrightarrow> (\<exists>lk. locks s l = Some lk \<and> lock_sem lk = k) \<and>
     (\<forall>l' lk'. locks s l' = Some lk' \<longrightarrow> l' \<noteq> l \<longrightarrow> lock_sem lk' \<noteq> k) \<and>
     (\<forall>c cv. conds s c = Some cv \<longrightarrow> k \<notin> set (waitQueue cv))"

definition holder :: "nat \<Rightarrow> 'z Kern_scheme \<Rightarrow> nat option" where
  "holder l s = (case locks s l of None \<Rightarrow> None | Some lk \<Rightarrow> lockHolder lk)"

definition sem_val :: "nat \<Rightarrow> 'z Kern_scheme \<Rightarrow> int" where
  "sem_val k s = (case sems s k of None \<Rightarrow> 0 | Some sem \<Rightarrow> sem_value sem)"

definition lock_inv :: "nat \<Rightarrow> nat \<Rightarrow> (nat \<Rightarrow> lstate) \<Rightarrow> 'z Kern_scheme \<Rightarrow> (nat \<Rightarrow> action list) \<Rightarrow> bool" where
  "lock_inv l k g s C \<longleftrightarrow> lock_objs l k s \<and>
     (\<forall>t. threads s t \<noteq> None \<longrightarrow> disc l k (g t) (C t)) \<and>
     sem_val k s + int (card (users g s)) = 1 \<and>
     (\<forall>t. holder l s = Some t \<longleftrightarrow> threads s t \<noteq> None \<and> g t = LHeld) \<and>
     (\<forall>d. toBeDestroyed s = Some d \<longrightarrow> g d = LFree)"

text \<open>What the invariant looks at, apart from the semaphore.\<close>

definition same_objs :: "'z Kern_scheme \<Rightarrow> 'z Kern_scheme \<Rightarrow> bool" where
  "same_objs s s' \<longleftrightarrow> locks s' = locks s \<and> conds s' = conds s \<and> toBeDestroyed s' = toBeDestroyed s \<and>
     (\<forall>t. threads s' t = None \<longleftrightarrow> threads s t = None)"

lemma same_objs_trans: "same_objs s s1 \<Longrightarrow> same_objs s1 s2 \<Longrightarrow> same_objs s s2"
  by (simp add: same_objs_def)

lemma same_objs_lock: "same_objs s s' \<Longrightarrow> lock_objs l k s' = lock_objs l k s" "same_objs s s' \<Longrightarrow> holder l s' = holder l s"
  by (simp_all add: same_objs_def lock_objs_def holder_def)

lemma upd_thread_objs: "upd_thread t f s = Inr s' \<Longrightarrow> same_objs s s' \<and> sems s' = sems s"
  by (auto simp: upd_thread_def bindR_eq_Inr obj_def same_objs_def split: option.splits if_splits)

lemma ReadyToRun_objs: "ReadyToRun t s = Inr s' \<Longrightarrow> same_objs s s' \<and> sems s' = sems s"
  by (auto simp: ReadyToRun_def bindR_eq_Inr ASSERT_def same_objs_def split: if_splits dest!: upd_thread_objs)

lemma V_objs:
  assumes v: "V_body j s = Inr s'"
  shows "same_objs s s' \<and> sem_val k s' = sem_val k s + (if j = k then 1 else 0)"
proof -
  obtain sem where sem: "sems s j = Some sem" using v by (auto simp: V_body_def obj_def split: option.splits)
  obtain s1 q where "same_objs s s1" "sems s1 = sems s"
      "s' = s1\<lparr>sems := (sems s1)(j \<mapsto> \<lparr>sem_value = sem_value sem + 1, sem_queue = q\<rparr>)\<rparr>"
    using v sem that by (auto simp: V_body_def obj_def bindR_eq_Inr same_objs_def split: if_splits dest!: ReadyToRun_objs)
  then show ?thesis using sem by (auto simp: same_objs_def sem_val_def)
qed

lemma foldR_V_objs:
  "foldR V_body vs s = Inr s' \<Longrightarrow> k \<notin> set vs \<Longrightarrow> same_objs s s' \<and> sem_val k s' = sem_val k s"
proof (induction vs arbitrary: s)
  case (Cons j vs)
  then obtain s1 where "V_body j s = Inr s1" "foldR V_body vs s1 = Inr s'" by (auto simp: bindR_eq_Inr)
  then show ?case using V_objs [of j s s1 k] Cons by (auto intro: same_objs_trans)
qed (simp add: same_objs_def)

lemma switched_objs:
  assumes "threads s (currentThread s) = Some th" "threads s n \<noteq> None"
  shows "locks (switched n fin s) = locks s \<and> conds (switched n fin s) = conds s \<and> sems (switched n fin s) = sems s \<and>
    (\<forall>t. threads (switched n fin s) t = None \<longleftrightarrow> threads s t = None)"
  using switched_same(1) [of s n fin] switched_threads [OF assms, where fin = fin] by (auto simp: agree_def same_kind_def)

section \<open>Every step keeps the invariant\<close>

lemma lock_head:
  assumes "sched_ok s C" "lock_inv l k g s C" "C (currentThread s) = a # r"
  shows "\<exists>st'. lock_next l k (g (currentThread s)) a = Some st' \<and> disc l k st' r"
proof -
  have "disc l k (g (currentThread s)) (a # r)"
    using assms cur_thread [OF assms(1)] unfolding lock_inv_def by (metis option.distinct(1))
  then show ?thesis by (auto split: option.splits)
qed

text \<open>The thread stands with the lock as before.\<close>

lemma lock_same:
  assumes inv: "lock_inv l k g s C" and obj: "lock_objs l k s'" "holder l s' = holder l s" "sem_val k s' = sem_val k s"
    and dom: "\<And>t. threads s' t = None \<longleftrightarrow> threads s t = None" and td: "\<And>d. toBeDestroyed s' = Some d \<Longrightarrow> g d = LFree"
    and c: "disc l k (g (currentThread s)) c'"
  shows "lock_inv l k g s' (C(currentThread s := c'))"
proof -
  have "users g s' = users g s" using dom by (simp add: users_def)
  then show ?thesis using inv obj dom td c by (simp add: lock_inv_def)
qed

lemma lock_same_objs:
  assumes inv: "lock_inv l k g s C" and obj: "same_objs s s'" "sem_val k s' = sem_val k s"
    and c: "disc l k (g (currentThread s)) c'"
  shows "lock_inv l k g s' (C(currentThread s := c'))"
  by (rule lock_same [OF inv])
     (use inv obj c same_objs_lock [OF obj(1)] in \<open>auto simp: lock_inv_def same_objs_def\<close>)

text \<open>The thread takes or gives back the semaphore, enters or removes its name.\<close>

lemma finite_users: "sched_ok s C \<Longrightarrow> finite (users g s)"
proof -
  assume ok: "sched_ok s C"
  have "users g s \<subseteq> {..<next_thread s}"
    using thread_ok(1) [OF sched_objs [OF ok]] by (auto simp: users_def)
  then show ?thesis by (rule finite_subset) simp
qed

lemma users_upd:
  assumes "threads s t \<noteq> None" "\<And>u. threads s' u = None \<longleftrightarrow> threads s u = None"
  shows "users (g(t := st)) s' = (if st = LFree then users g s - {t} else insert t (users g s))"
  using assms by (auto simp: users_def)

lemma lock_move:
  assumes ok: "sched_ok s C" and inv: "lock_inv l k g s C" and obj: "lock_objs l k s'"
    and dom: "\<And>t. threads s' t = None \<longleftrightarrow> threads s t = None" and td: "toBeDestroyed s' = None"
    and c: "disc l k st c'"
    and v: "sem_val k s' = sem_val k s + (if g cur \<noteq> LFree then 1 else 0) - (if st \<noteq> LFree then 1 else 0)"
    and h: "\<And>t. holder l s' = Some t \<longleftrightarrow> threads s t \<noteq> None \<and> (g(cur := st)) t = LHeld"
    and cur: "cur = currentThread s"
  shows "lock_inv l k (g(cur := st)) s' (C(cur := c'))"
proof -
  have t: "threads s cur \<noteq> None" using cur_thread [OF ok] cur by auto
  have "int (card (users (g(cur := st)) s')) = int (card (users g s)) - (if g cur \<noteq> LFree then 1 else 0) + (if st \<noteq> LFree then 1 else 0)"
    unfolding users_upd [OF t dom]
  proof (cases "cur \<in> users g s")
    case True
    then have "card (users g s) \<ge> 1" using finite_users [OF ok, of g] by (metis card_0_eq empty_iff less_one linorder_not_less)
    then show "int (card (if st = LFree then users g s - {cur} else insert cur (users g s))) =
        int (card (users g s)) - (if g cur \<noteq> LFree then 1 else 0) + (if st \<noteq> LFree then 1 else 0)"
      using True finite_users [OF ok, of g] t by (auto simp: users_def insert_absorb of_nat_diff)
  next
    case False
    then show "int (card (if st = LFree then users g s - {cur} else insert cur (users g s))) =
        int (card (users g s)) - (if g cur \<noteq> LFree then 1 else 0) + (if st \<noteq> LFree then 1 else 0)"
      using finite_users [OF ok, of g] t by (auto simp: users_def)
  qed
  then show ?thesis using inv obj dom td c v h by (simp add: lock_inv_def)
qed

lemma stay_Some: "stay st = Some st' \<longleftrightarrow> st \<noteq> LRel \<and> st' = st"
  by (auto simp: stay_def)

lemma need_Some: "need a b st = Some st' \<longleftrightarrow> st = a \<and> st' = b"
  by (auto simp: need_def)

lemma stay_ok: "st \<noteq> LRel \<Longrightarrow> stay st = Some st"
  by (simp add: stay_def)

lemma need_ok: "need a b a = Some b"
  by (simp add: need_def)

lemmas next_simps = lock_next_def stay_Some need_Some stay_ok need_ok

text \<open>At most one thread is not \<open>LFree\<close>.\<close>

lemma users_unique:
  assumes ok: "sched_ok s C" and inv: "lock_inv l k g s C" and t: "t \<in> users g s" "u \<in> users g s"
  shows "t = u"
proof -
  have "0 \<le> sem_val k s" using sem_ok [OF ok, of k] by (auto simp: sem_val_def split: option.split)
  then have "card (users g s) \<le> 1" using inv by (simp add: lock_inv_def)
  then show ?thesis using finite_users [OF ok, of g] t by (metis card_le_Suc0_iff_eq One_nat_def)
qed

lemma P_lock:
  assumes ok: "sched_ok s C" and inv: "lock_inv l k g s C" and c: "C (currentThread s) = a # r"
    and a: "a = AP j \<or> a = ARetry j old" and p: "P_retry j old' s = Inr (s', acts)"
  shows "\<exists>g'. lock_inv l k g' s' (C(currentThread s := acts @ r))"
proof -
  let ?cur = "currentThread s"
  obtain st' where st': "lock_next l k (g ?cur) a = Some st'" "disc l k st' r" using lock_head [OF ok inv c] by blast
  obtain sem where sem: "sems s j = Some sem" using tail_refs [OF ok c] a by auto
  have nd: "toBeDestroyed s = None" by (rule none_destroyed [OF ok c]) (use a in auto)
  have cur: "threads s ?cur \<noteq> None" using cur_thread [OF ok] by auto
  show ?thesis
  proof (cases "sem_value sem = 0")
    case True
    obtain s1 where "s1 = s\<lparr>sems := (sems s)(j \<mapsto> sem\<lparr>sem_queue := sem_queue sem @ [?cur]\<rparr>)\<rparr>" 
        "upd_thread ?cur (\<lambda>th. th\<lparr>tstatus := BLOCKED\<rparr>) s1 = Inr s'" and acts: "acts = [ASleep False, ARetry j old']"
      using p True sem by (auto simp: P_retry_def P_body_def obj_def bindR_eq_Inr seq_Append_def ASSERT_def split: if_splits)
    then have "same_objs s s'" "sem_val k s' = sem_val k s"
      using upd_thread_objs [of ?cur _ s1 s'] sem by (auto simp: same_objs_def sem_val_def)
    moreover have "disc l k (g ?cur) (acts @ r)" using st' a acts by (auto simp: next_simps split: if_splits)
    ultimately show ?thesis using lock_same_objs [OF inv] by blast
  next
    case False
    have s': "s' = s\<lparr>sems := (sems s)(j \<mapsto> sem\<lparr>sem_value := sem_value sem - 1\<rparr>)\<rparr>" "acts = [ASetLevel old']"
      using p False sem by (simp_all add: P_retry_def P_body_def obj_def)
    have "lock_inv l k (g(?cur := st')) s' (C(?cur := acts @ r))"
    proof (rule lock_move [OF ok inv])
      show "disc l k st' (acts @ r)" using st' a s'(2) by (auto simp: next_simps split: if_splits)
      show "sem_val k s' = sem_val k s + (if g ?cur \<noteq> LFree then 1 else 0) - (if st' \<noteq> LFree then 1 else 0)"
        using st' a sem s'(1) by (auto simp: next_simps sem_val_def split: if_splits)
      show "holder l s' = Some t \<longleftrightarrow> threads s t \<noteq> None \<and> (g(?cur := st')) t = LHeld" for t
        using st' a inv cur s'(1) by (auto simp: next_simps lock_inv_def holder_def split: if_splits)
    qed (use inv s' nd in \<open>simp_all add: lock_inv_def lock_objs_def\<close>)
    then show ?thesis by blast
  qed
qed

lemma level_lock: "lock_inv l k g s C \<Longrightarrow> lock_inv l k g (ChangeLevel lv s) C"
  by (simp add: lock_inv_def lock_objs_def users_def holder_def sem_val_def)

lemma V_lock:
  assumes ok: "sched_ok s C" and inv: "lock_inv l k g s C" and c: "C (currentThread s) = AV j # r"
    and v: "V_body j s = Inr s'"
  shows "\<exists>g'. lock_inv l k g' s' (C(currentThread s := ASetLevel lv # r))"
proof -
  let ?cur = "currentThread s"
  obtain st' where st': "lock_next l k (g ?cur) (AV j) = Some st'" "disc l k st' r" using lock_head [OF ok inv c] by blast
  note ob = V_objs [OF v, of k]
  show ?thesis
  proof (cases "j = k")
    case False
    then have "disc l k (g ?cur) (ASetLevel lv # r)" using st' by (auto simp: next_simps)
    moreover have "same_objs s s'" "sem_val k s' = sem_val k s" using ob False by simp_all
    ultimately show ?thesis using lock_same_objs [OF inv] by blast
  next
    case True
    then have st: "g ?cur = LRel" "st' = LFree" using st' by (auto simp: next_simps)
    have nd: "toBeDestroyed s = None" by (rule none_destroyed [OF ok c]) simp_all
    have "lock_inv l k (g(?cur := LFree)) s' (C(?cur := ASetLevel lv # r))"
    proof (rule lock_move [OF ok inv])
      show "disc l k LFree (ASetLevel lv # r)" using st' st by (simp add: next_simps stay_def)
      show "holder l s' = Some t \<longleftrightarrow> threads s t \<noteq> None \<and> (g(?cur := LFree)) t = LHeld" for t
        using inv st same_objs_lock(2) [of s s' l] ob by (auto simp: lock_inv_def)
    qed (use inv True ob nd st same_objs_lock(1) [of s s' l k] in \<open>auto simp: lock_inv_def same_objs_def\<close>)
    then show ?thesis by blast
  qed
qed

lemma inv_objs: "lock_inv l k g s C \<Longrightarrow> lock_objs l k s"
  by (simp add: lock_inv_def)

lemma inv_destroyed: "lock_inv l k g s C \<Longrightarrow> toBeDestroyed s = Some d \<Longrightarrow> g d = LFree"
  by (simp add: lock_inv_def)

lemma inv_holder: "lock_inv l k g s C \<Longrightarrow> holder l s = Some t \<longleftrightarrow> threads s t \<noteq> None \<and> g t = LHeld"
  by (simp add: lock_inv_def)

text \<open>Names are entered and removed by the thread that has the semaphore.\<close>

lemma Acquired_lock:
  assumes ok: "sched_ok s C" and inv: "lock_inv l k g s C" and c: "C (currentThread s) = AAcquired m # r"
    and st: "act orc (AAcquired m) s = Inr (s', acts)"
  shows "\<exists>g'. lock_inv l k g' s' (C(currentThread s := acts @ r))"
proof -
  let ?cur = "currentThread s"
  obtain st' where st': "lock_next l k (g ?cur) (AAcquired m) = Some st'" "disc l k st' r" using lock_head [OF ok inv c] by blast
  obtain lk where lk: "locks s m = Some lk" "s' = s\<lparr>locks := (locks s)(m \<mapsto> lk\<lparr>lockHolder := Some ?cur\<rparr>)\<rparr>" "acts = []"
    using st by (auto simp: act_def obj_def bindR_eq_Inr split: option.splits)
  have ob: "lock_objs l k s'" using inv_objs [OF inv] lk by (auto simp: lock_objs_def split: if_splits)
  have cur: "threads s ?cur \<noteq> None" using cur_thread [OF ok] by auto
  show ?thesis
  proof (cases "m = l")
    case False
    then have d: "disc l k (g ?cur) (acts @ r)" using st' lk(3) by (auto simp: next_simps)
    have "lock_inv l k g s' (C(?cur := acts @ r))"
      by (rule lock_same [OF inv ob _ _ _ inv_destroyed [OF inv] d]) (use False in \<open>simp_all add: lk holder_def sem_val_def\<close>)
    then show ?thesis by blast
  next
    case True
    then have stt: "g ?cur = LGot" "st' = LHeld" using st' by (auto simp: next_simps)
    have nd: "toBeDestroyed s = None" by (rule none_destroyed [OF ok c]) simp_all
    have uniq: "t = ?cur" if "threads s t \<noteq> None" "g t \<noteq> LFree" for t
      using users_unique [OF ok inv, of t ?cur] that cur stt by (simp add: users_def)
    have "lock_inv l k (g(?cur := LHeld)) s' (C(?cur := acts @ r))"
    proof (rule lock_move [OF ok inv ob])
      show "holder l s' = Some t \<longleftrightarrow> threads s t \<noteq> None \<and> (g(?cur := LHeld)) t = LHeld" for t
        using uniq [of t] cur True by (cases "t = ?cur") (auto simp: lk holder_def)
    qed (use st'(2) stt nd in \<open>simp_all add: lk sem_val_def\<close>)
    then show ?thesis by blast
  qed
qed

lemma Release_lock:
  assumes ok: "sched_ok s C" and inv: "lock_inv l k g s C" and c: "C (currentThread s) = ARelease m # r"
    and st: "Lock_Release m s = Inr (s', acts)"
  shows "\<exists>g'. lock_inv l k g' s' (C(currentThread s := acts @ r))"
proof -
  let ?cur = "currentThread s"
  obtain st' where st': "lock_next l k (g ?cur) (ARelease m) = Some st'" "disc l k st' r" using lock_head [OF ok inv c] by blast
  obtain lk where lk: "locks s m = Some lk" "s' = s\<lparr>locks := (locks s)(m \<mapsto> lk\<lparr>lockHolder := None\<rparr>)\<rparr>" "acts = [AV (lock_sem lk)]"
    using st by (auto simp: Lock_Release_def obj_def bindR_eq_Inr ASSERT_def split: option.splits if_splits)
  have ob: "lock_objs l k s'" using inv_objs [OF inv] lk by (auto simp: lock_objs_def split: if_splits)
  have cur: "threads s ?cur \<noteq> None" using cur_thread [OF ok] by auto
  have sem: "lock_sem lk = k \<longleftrightarrow> m = l" using inv_objs [OF inv] lk(1) by (auto simp: lock_objs_def)
  show ?thesis
  proof (cases "m = l")
    case False
    then have d: "disc l k (g ?cur) (acts @ r)" using st' lk(3) sem by (auto simp: next_simps)
    have "lock_inv l k g s' (C(?cur := acts @ r))"
      by (rule lock_same [OF inv ob _ _ _ inv_destroyed [OF inv] d]) (use False in \<open>simp_all add: lk holder_def sem_val_def\<close>)
    then show ?thesis by blast
  next
    case True
    then have stt: "g ?cur = LHeld" "st' = LFree" using st' by (auto simp: next_simps)
    have nd: "toBeDestroyed s = None" by (rule none_destroyed [OF ok c]) simp_all
    have uniq: "t = ?cur" if "threads s t \<noteq> None" "g t \<noteq> LFree" for t
      using users_unique [OF ok inv, of t ?cur] that cur stt by (simp add: users_def)
    have "lock_inv l k (g(?cur := LRel)) s' (C(?cur := acts @ r))"
    proof (rule lock_move [OF ok inv ob])
      show "disc l k LRel (acts @ r)" using st' stt lk sem True by (simp add: next_simps)
      show "holder l s' = Some t \<longleftrightarrow> threads s t \<noteq> None \<and> (g(?cur := LRel)) t = LHeld" for t
        using uniq [of t] True by (cases "t = ?cur") (auto simp: lk holder_def)
    qed (use stt nd in \<open>simp_all add: lk sem_val_def\<close>)
    then show ?thesis by blast
  qed
qed

lemma Wait_lock:
  assumes ok: "sched_ok s C" and inv: "lock_inv l k g s C" and c: "C (currentThread s) = AWait cd m # r"
    and st: "Condition_Wait cd m s = Inr (s', acts)"
  shows "\<exists>g'. lock_inv l k g' s' (C(currentThread s := acts @ r))"
proof -
  let ?cur = "currentThread s"
  obtain st' where st': "lock_next l k (g ?cur) (AWait cd m) = Some st'" "disc l k st' r" using lock_head [OF ok inv c] by blast
  obtain lk cv where lk: "locks s m = Some lk" "conds s cd = Some cv"
      "s' = s\<lparr>sems := (sems s)(next_sem s \<mapsto> \<lparr>sem_value = 0, sem_queue = []\<rparr>), next_sem := Suc (next_sem s),
              conds := (conds s)(cd \<mapsto> \<lparr>waitQueue = waitQueue cv @ [next_sem s]\<rparr>)\<rparr>"
      "acts = ARelease m # AP (next_sem s) # Lock_Acquire m (lock_sem lk)"
    using st by (auto simp: Condition_Wait_def obj_def bindR_eq_Inr ASSERT_def Semaphore_new_def seq_Append_def
        split: option.splits if_splits)
  obtain lk0 where "locks s l = Some lk0" "lock_sem lk0 = k" using inv_objs [OF inv] by (auto simp: lock_objs_def)
  then have nk: "next_sem s \<noteq> k" using fresh_sem [OF ok] lock_sem_exists [OF ok, of l lk0] by auto
  have ob: "lock_objs l k s'" using inv_objs [OF inv] lk nk by (auto simp: lock_objs_def split: if_splits)
  have sem: "lock_sem lk = k \<longleftrightarrow> m = l" using inv_objs [OF inv] lk(1) by (auto simp: lock_objs_def)
  have "disc l k (g ?cur) (acts @ r)"
    using st' nk sem by (cases "m = l") (auto simp: lk Lock_Acquire_def next_simps)
  then have "lock_inv l k g s' (C(?cur := acts @ r))"
    using lk ob inv_destroyed [OF inv] nk by (intro lock_same [OF inv]) (auto simp: holder_def sem_val_def)
  then show ?thesis by blast
qed

lemma Signal_lock:
  assumes ok: "sched_ok s C" and inv: "lock_inv l k g s C" and c: "C (currentThread s) = ASignal cd m # r"
    and st: "Condition_Signal cd m s = Inr (s', acts)"
  shows "\<exists>g'. lock_inv l k g' s' (C(currentThread s := acts @ r))"
proof -
  let ?cur = "currentThread s"
  obtain st' where st': "lock_next l k (g ?cur) (ASignal cd m) = Some st'" "disc l k st' r" using lock_head [OF ok inv c] by blast
  then have d: "disc l k (g ?cur) r" "g ?cur \<noteq> LRel" by (auto simp: next_simps split: if_splits)
  obtain cv where cv: "conds s cd = Some cv" using tail_refs [OF ok c] by auto
  have kq: "k \<notin> set (waitQueue cv)" using inv_objs [OF inv] cv by (auto simp: lock_objs_def)
  have ob: "lock_objs l k s' \<and> holder l s' = holder l s \<and> sem_val k s' = sem_val k s \<and> threads s' = threads s \<and>
      toBeDestroyed s' = toBeDestroyed s \<and> disc l k (g ?cur) (acts @ r)"
  proof (cases "waitQueue cv")
    case Nil
    then show ?thesis using st cv inv_objs [OF inv] d by (auto simp: Condition_Signal_def bindR_eq_Inr obj_def ASSERT_def split: if_splits)
  next
    case (Cons w ws)
    then have "s' = s\<lparr>conds := (conds s)(cd \<mapsto> \<lparr>waitQueue = ws\<rparr>)\<rparr>" "acts = [AV w]" "w \<noteq> k" "k \<notin> set ws"
      using st cv kq by (auto simp: Condition_Signal_def bindR_eq_Inr obj_def ASSERT_def seq_RemoveFront_def split: if_splits)
    then show ?thesis using inv_objs [OF inv] d by (auto simp: lock_objs_def holder_def sem_val_def next_simps split: if_splits)
  qed
  then have "lock_inv l k g s' (C(?cur := acts @ r))"
    using inv_destroyed [OF inv] by (intro lock_same [OF inv]) simp_all
  then show ?thesis by blast
qed

text \<open>Steps of the scheduler leave the locks alone.\<close>

lemma lock_switch:
  assumes ok: "sched_ok s C" and inv: "lock_inv l k g s C" and n: "threads s n \<noteq> None"
    and s1: "same_objs s s1" "sems s1 = sems s" "currentThread s1 = currentThread s"
    and td: "toBeDestroyed s = None" "fin \<Longrightarrow> g (currentThread s) = LFree"
    and c: "disc l k (g (currentThread s)) c'"
  shows "lock_inv l k g (switched n fin s1) (C(currentThread s := c'))"
proof -
  obtain th where th: "threads s1 (currentThread s1) = Some th"
    using cur_thread [OF ok] s1 by (fastforce simp: same_objs_def)
  have n1: "threads s1 n \<noteq> None" using n s1(1) by (simp add: same_objs_def)
  note sw = switched_objs [OF th n1, of fin]
  show ?thesis
  proof (rule lock_same [OF inv _ _ _ _ _ c])
    show "lock_objs l k (switched n fin s1)" using inv_objs [OF inv] sw s1(1) by (simp add: lock_objs_def same_objs_def)
    show "holder l (switched n fin s1) = holder l s" using sw s1(1) by (simp add: holder_def same_objs_def)
    show "sem_val k (switched n fin s1) = sem_val k s" using sw s1(2) by (simp add: sem_val_def)
    show "threads (switched n fin s1) t = None \<longleftrightarrow> threads s t = None" for t using sw s1(1) by (simp add: same_objs_def)
    show "g d = LFree" if "toBeDestroyed (switched n fin s1) = Some d" for d
      using that switched_same(4) [of n fin s1] td s1 by (auto simp: same_objs_def split: if_splits)
  qed
qed

lemma Sleep_lock:
  assumes ok: "sched_ok s C" and inv: "lock_inv l k g s C" and c: "C (currentThread s) = ASleep fin # r"
    and vs: "k \<notin> set vs" and st: "Thread_Sleep_loop vs fin s = Inr (s', acts)"
  shows "\<exists>g'. lock_inv l k g' s' (C(currentThread s := acts @ r))"
proof -
  let ?cur = "currentThread s"
  obtain st' where st': "lock_next l k (g ?cur) (ASleep fin) = Some st'" "disc l k st' r" using lock_head [OF ok inv c] by blast
  then have d: "st' = g ?cur" "g ?cur \<noteq> LRel" "fin \<Longrightarrow> g ?cur = LFree" by (cases fin; auto simp: next_simps)+
  have "lock_inv l k g s' (C(?cur := acts @ r))"
  proof (cases "readyList s")
    case Nil
    have lev: "level s = IntOff" by (rule head_level [OF ok c]) simp
    have "foldR V_body vs s = Inr s'" "acts = [ASleep fin]"
      using st Nil lev by (auto simp: Thread_Sleep_loop_def FindNextToRun_eq bindR_eq_Inr)
    then show ?thesis using foldR_V_objs [of vs s s' k] vs st' d by (intro lock_same_objs [OF inv]) simp_all
  next
    case (Cons n q)
    have nd: "toBeDestroyed s = None" by (rule none_destroyed [OF ok c]) simp_all
    have "s' = switched n fin (s\<lparr>readyList := q\<rparr>)" "acts = [AAfter]" using st Sleep_eq [OF ok c Cons] by simp_all
    then show ?thesis using ready_thread [OF ok, of n] Cons nd d st'
      by (auto intro!: lock_switch [OF ok inv] simp: same_objs_def next_simps)
  qed
  then show ?thesis by blast
qed

lemma Yield_lock:
  assumes ok: "sched_ok s C" and inv: "lock_inv l k g s C" and c: "C (currentThread s) = AYield # r"
    and st: "Thread_Yield s = Inr (s', acts)"
  shows "\<exists>g'. lock_inv l k g' s' (C(currentThread s := acts @ r))"
proof -
  let ?cur = "currentThread s"
  obtain st' where st': "lock_next l k (g ?cur) AYield = Some st'" "disc l k st' r" using lock_head [OF ok inv c] by blast
  then have d: "st' = g ?cur" "g ?cur \<noteq> LRel" by (auto simp: next_simps)
  have "lock_inv l k g s' (C(?cur := acts @ r))"
  proof (cases "readyList s")
    case Nil
    then have "s' = ChangeLevel IntOff s" "acts = [ASetLevel (level s)]" using st by (simp_all add: Thread_Yield_def Let_def FindNextToRun_eq)
    then show ?thesis using st' d by (intro lock_same_objs [OF inv]) (simp_all add: same_objs_def sem_val_def next_simps)
  next
    case (Cons n q)
    have nd: "toBeDestroyed s = None" by (rule none_destroyed [OF ok c]) simp_all
    obtain th where th: "threads s ?cur = Some th" using cur_thread [OF ok] by blast
    let ?s1 = "(ChangeLevel IntOff s)\<lparr>threads := (threads s)(?cur \<mapsto> th\<lparr>tstatus := READY\<rparr>), readyList := q @ [?cur]\<rparr>"
    have s': "s' = switched n False ?s1" "acts = [AAfter, ASetLevel (level s)]" using st Yield_eq [OF ok c Cons th] by simp_all
    have "same_objs s ?s1" using th by (simp add: same_objs_def)
    then show ?thesis unfolding s' using ready_thread [OF ok, of n] Cons nd st' d
      by (intro lock_switch [OF ok inv]) (simp_all add: next_simps)
  qed
  then show ?thesis by blast
qed

lemma Destroyed_lock:
  assumes ok: "sched_ok s C" and inv: "lock_inv l k g s C" and st: "CheckToBeDestroyed s = Inr s'"
  shows "lock_inv l k g s' C"
proof (cases "toBeDestroyed s")
  case None
  then show ?thesis using st inv by (simp add: CheckToBeDestroyed_def)
next
  case (Some d)
  then have s': "s' = s\<lparr>threads := (threads s)(d := None), toBeDestroyed := None\<rparr>"
    using st by (auto simp: CheckToBeDestroyed_def Thread_delete_def bindR_eq_Inr ASSERT_def split: if_splits)
  have gd: "g d = LFree" by (rule inv_destroyed [OF inv Some])
  then have "users g s' = users g s" by (auto simp: users_def s')
  then show ?thesis using inv gd unfolding lock_inv_def
    by (auto simp: s' lock_objs_def sem_val_def holder_def)
qed

lemma fork_lock:
  assumes ok: "sched_ok s C" and inv: "lock_inv l k g s C" and c: "C (currentThread s) = AFork p # r"
  shows "\<exists>g'. lock_inv l k g' (with_thread s) ((C(next_thread s := ABegin # p @ [AFinish]))(currentThread s := ASetLevel (level s) # r))"
proof -
  let ?cur = "currentThread s" and ?t = "next_thread s" and ?s' = "with_thread s"
  let ?C = "(C(?t := ABegin # p @ [AFinish]))(?cur := ASetLevel (level s) # r)"
  obtain st' where st': "lock_next l k (g ?cur) (AFork p) = Some st'" "disc l k st' r" using lock_head [OF ok inv c] by blast
  then have d: "st' = g ?cur" "g ?cur \<noteq> LRel" by (auto simp: next_simps)
  have cu: "threads s ?cur \<noteq> None" using cur_thread [OF ok] by auto
  have "disc l k (g ?cur) (AFork p # r)" using inv cu c unfolding lock_inv_def by metis
  then have p: "disc l k LFree (p @ [AFinish])" by simp
  note ft = fresh_thread [OF ok]
  have nd: "toBeDestroyed s = None" by (rule none_destroyed [OF ok c]) simp_all
  have us: "users (g(?t := LFree)) ?s' = users g s" using ft by (auto simp: users_def with_thread_def)
  have "lock_inv l k (g(?t := LFree)) ?s' ?C" unfolding lock_inv_def
  proof (intro conjI allI impI)
    show "lock_objs l k ?s'" using inv_objs [OF inv] by (simp add: lock_objs_def with_thread_def)
    show "disc l k ((g(?t := LFree)) u) (?C u)" if u: "threads ?s' u \<noteq> None" for u
    proof -
      consider (cur) "u = ?cur" | (new) "u = ?t" "u \<noteq> ?cur" | (old) "u \<noteq> ?t" "u \<noteq> ?cur" "threads s u \<noteq> None"
        using u by (auto simp: with_thread_def split: if_splits)
      then show ?thesis
      proof cases
        case cur
        then show ?thesis using d st' cu ft by (auto simp: next_simps)
      next
        case new
        then show ?thesis using p by (simp add: next_simps)
      next
        case old
        then show ?thesis using inv by (simp add: lock_inv_def)
      qed
    qed
    show "sem_val k ?s' + int (card (users (g(?t := LFree)) ?s')) = 1"
      using inv by (simp add: us lock_inv_def) (simp add: sem_val_def with_thread_def)
    show "holder l ?s' = Some u \<longleftrightarrow> threads ?s' u \<noteq> None \<and> (g(?t := LFree)) u = LHeld" for u
      using inv_holder [OF inv, of u] ft by (auto simp: with_thread_def holder_def)
    show "(g(?t := LFree)) x = LFree" if "toBeDestroyed ?s' = Some x" for x using that nd by (simp add: with_thread_def)
  qed
  then show ?thesis by blast
qed

lemma next_finish: "lock_next l k st AFinish = need LFree LFree st"
  by (simp add: lock_next_def)

lemma stay_lock:
  assumes ok: "sched_ok s C" and inv: "lock_inv l k g s C" and c: "C (currentThread s) = a # r"
    and a: "lock_next l k (g (currentThread s)) a = stay (g (currentThread s)) \<or> a = AFinish"
    and s': "same_objs s s'" "sems s' = sems s" and acts: "acts \<in> {[], [AYield], [ASetLevel IntOn]} \<or> a = AFinish \<and> acts = [ASleep True]"
  shows "\<exists>g'. lock_inv l k g' s' (C(currentThread s := acts @ r))"
proof -
  let ?cur = "currentThread s"
  obtain st' where st': "lock_next l k (g ?cur) a = Some st'" "disc l k st' r" using lock_head [OF ok inv c] by blast
  have "st' = g ?cur" "g ?cur \<noteq> LRel" "a = AFinish \<Longrightarrow> g ?cur = LFree"
    using st'(1) a by (auto simp: stay_def need_def next_finish split: if_splits)
  then have "disc l k (g ?cur) (acts @ r)" using st'(2) acts by (auto simp: next_simps)
  then show ?thesis using lock_same_objs [OF inv s'(1)] s'(2) by (auto simp: sem_val_def)
qed

lemma act_lock:
  assumes ok: "sched_ok s C" and inv: "lock_inv l k g s C" and c: "C (currentThread s) = a # r" and vs: "k \<notin> set (fst orc)"
    and a: "\<And>p. a \<noteq> AFork p" and st: "act orc a s = Inr (s', acts)"
  shows "\<exists>g'. lock_inv l k g' s' (C(currentThread s := acts @ r))"
proof (cases a)
  case (AP j)
  then show ?thesis
    using P_lock [OF sched_level_off [OF ok] level_lock [OF inv], of a r j _ "level s" s' acts] c st by (simp add: act_def Semaphore_P_def)
next
  case (ARetry j old)
  then show ?thesis using P_lock [OF ok inv c, of j old old s' acts] st by (simp add: act_def)
next
  case (AV j)
  then show ?thesis using V_lock [OF sched_level_off [OF ok] level_lock [OF inv], of j r s' "level s"] c st
    by (auto simp: act_def Semaphore_V_def bindR_eq_Inr)
next
  case (ASleep fin)
  then show ?thesis using Sleep_lock [OF ok inv _ vs] c st by (simp add: act_def)
next
  case AAfter
  obtain s1 where s1: "CheckToBeDestroyed s = Inr s1" and s': "same_objs s1 s'" "sems s' = sems s1" "acts = []"
    using st AAfter by (auto simp: act_def Run_after_def Let_def bindR_eq_Inr ASSERT_def RestoreUserState_def
        space_RestoreState_def same_objs_def split: if_splits option.splits)
  have "sched_ok s1 C" using CheckToBeDestroyed_ok [OF ok] s1 by auto
  moreover have "C (currentThread s1) = AAfter # r" using c AAfter Destroyed_current [OF s1] by simp
  ultimately have "\<exists>g'. lock_inv l k g' s' (C(currentThread s1 := acts @ r))"
    by (rule stay_lock [OF _ Destroyed_lock [OF ok inv s1]]) (use s' in \<open>simp_all add: lock_next_def\<close>)
  then show ?thesis using Destroyed_current [OF s1] by simp
next
  case ABegin
  obtain s1 where s1: "CheckToBeDestroyed s = Inr s1" and s': "s' = s1" "acts = [ASetLevel IntOn]"
    using st ABegin by (auto simp: act_def Thread_Begin_def bindR_eq_Inr)
  have "sched_ok s1 C" using CheckToBeDestroyed_ok [OF ok] s1 by auto
  moreover have "C (currentThread s1) = ABegin # r" using c ABegin Destroyed_current [OF s1] by simp
  ultimately have "\<exists>g'. lock_inv l k g' s' (C(currentThread s1 := acts @ r))"
    by (rule stay_lock [OF _ Destroyed_lock [OF ok inv s1]]) (use s' in \<open>simp_all add: lock_next_def same_objs_def\<close>)
  then show ?thesis using Destroyed_current [OF s1] by simp
next
  case (ASetLevel lv)
  obtain st' where st': "lock_next l k (g (currentThread s)) a = Some st'" "disc l k st' r" using lock_head [OF ok inv c] by blast
  have "same_objs s s' \<and> sem_val k s' = sem_val k s \<and> acts \<in> {[], [AYield]}"
  proof (cases "lv = IntOn \<and> level s = IntOff")
    case True
    then show ?thesis using st ASetLevel foldR_V_objs [of "fst orc" s _ k] vs
      by (auto simp: act_def Interrupt_SetLevel_def bindR_eq_Inr same_objs_def sem_val_def split: if_splits)
  next
    case False
    then show ?thesis using st ASetLevel
      by (auto simp: act_def Interrupt_SetLevel_def ASSERT_def same_objs_def sem_val_def split: if_splits)
  qed
  moreover have "disc l k (g (currentThread s)) (acts @ r)"
    using calculation st' ASetLevel by (auto simp: next_simps)
  ultimately show ?thesis using lock_same_objs [OF inv] by blast
next
  case AYield
  then show ?thesis using Yield_lock [OF ok inv] c st by (simp add: act_def)
next
  case AFinish
  have "same_objs s s'" "sems s' = sems s" "acts = [ASleep True]"
    using st AFinish by (auto simp: act_def Thread_Finish_def bindR_eq_Inr same_objs_def dest!: upd_thread_objs)
  then show ?thesis using stay_lock [OF ok inv c, of s' acts] AFinish by simp
next
  case (AAcquired m)
  then show ?thesis using Acquired_lock [OF ok inv] c st by simp
next
  case (ARelease m)
  then show ?thesis using Release_lock [OF ok inv] c st by (simp add: act_def)
next
  case (AWait cd m)
  then show ?thesis using Wait_lock [OF ok inv] c st by (simp add: act_def)
next
  case (ASignal cd m)
  then show ?thesis using Signal_lock [OF ok inv] c st by (simp add: act_def)
next
  case (ABroadcast cd m)
  obtain st' where st': "lock_next l k (g (currentThread s)) a = Some st'" "disc l k st' r" using lock_head [OF ok inv c] by blast
  have "same_objs s s'" "sem_val k s' = sem_val k s" "acts \<in> {[], [ASignal cd m, ABroadcast cd m]}"
    using st ABroadcast by (auto simp: act_def Condition_Broadcast_def bindR_eq_Inr same_objs_def split: if_splits)
  moreover have "disc l k (g (currentThread s)) (acts @ r)"
    using calculation(3) st' ABroadcast by (auto simp: next_simps split: if_splits)
  ultimately show ?thesis using lock_same_objs [OF inv] by blast
qed (use a in simp)

lemma kstep_lock:
  assumes ok: "sched_ok s C" and inv: "lock_inv l k g s C" and vs: "k \<notin> set (fst orc)" and st: "kstep orc (s, C) = Inr (s', C')"
  shows "\<exists>g'. lock_inv l k g' s' C'"
proof (cases "C (currentThread s)")
  case (Cons a r)
  show ?thesis
  proof (cases "\<exists>p. a = AFork p")
    case True
    then obtain p where p: "C (currentThread s) = AFork p # r" using Cons by auto
    then show ?thesis using fork_step(1) [OF ok p, of orc] fork_lock [OF ok inv p] st by simp
  next
    case False
    then have "forked a s C = C" by (simp add: forked_def split: action.split)
    then obtain acts where "act orc a s = Inr (s', acts)" "C' = C(currentThread s := acts @ r)"
      using st Cons by (auto simp: kstep_def bindR_eq_Inr)
    then show ?thesis using act_lock [OF ok inv Cons vs] False by blast
  qed
qed (use st inv in \<open>auto simp: kstep_def\<close>)

lemma runs_lock:
  "runs D x y \<Longrightarrow> k \<notin> D \<Longrightarrow> sched_ok (fst x) (snd x) \<Longrightarrow> lock_inv l k g (fst x) (snd x) \<Longrightarrow> \<exists>g'. lock_inv l k g' (fst y) (snd y)"
proof (induction rule: runs.induct)
  case (runs_step x s C orc y)
  have "sched_ok s C" using runs_sched [OF runs_step.hyps(1)] runs_step.prems(2) by simp
  moreover obtain g' where "lock_inv l k g' s C" using runs_step by auto
  moreover have "k \<notin> set (fst orc)" using runs_step by auto
  ultimately show ?case using kstep_lock [of s C l k g' orc "fst y" "snd y"] runs_step.hyps by simp
qed auto

section \<open>Mutual exclusion\<close>

definition fresh_lock :: "nat \<Rightarrow> nat \<Rightarrow> (nat \<rightharpoonup> Semaphore) \<Rightarrow> (nat \<rightharpoonup> Lock) \<Rightarrow> bool" where
  "fresh_lock l k ss ls \<longleftrightarrow> ls l = Some \<lparr>lock_sem = k, lockHolder = None\<rparr> \<and> ss k = Some \<lparr>sem_value = 1, sem_queue = []\<rparr> \<and>
     (\<forall>l' lk'. ls l' = Some lk' \<longrightarrow> l' \<noteq> l \<longrightarrow> lock_sem lk' \<noteq> k)"

lemma lock_boot:
  assumes "boot_ok ss n ls cs" "fresh_lock l k ss ls" "disc l k LFree (C 0)"
  shows "lock_inv l k (\<lambda>_. LFree) (boot ss n ls cs s) C"
proof -
  have "lock_objs l k (boot ss n ls cs s)" using assms(1,2) by (auto simp: lock_objs_def fresh_lock_def boot_ok_def)
  then show ?thesis using assms(2,3) by (simp add: lock_inv_def users_def holder_def sem_val_def fresh_lock_def)
qed

text \<open>
  C3. Locks exclude each other. Let the program of the main thread, and the programs it forks,
  acquire lock \<open>l\<close> before they release it, wait or signal with it, and leave its semaphore alone
  otherwise, and let no device signal that semaphore. Then in every reachable state at most one
  thread is inside, and that thread is the one the lock names as its holder; the semaphore is
  0 or 1; and no use of the lock fails the assertion \<open>IsHeldByCurrentThread\<close>.
\<close>

theorem lock_mutual_exclusion:
  assumes b: "boot_ok ss n ls cs" "fresh_lock l k ss ls"
    and p: "list_all plain (C 0)" "list_all (refs (boot ss n ls cs s0)) (C 0)" "disc l k LFree (C 0)"
    and r: "runs D (boot ss n ls cs s0, C) (s, C')" "k \<notin> D"
  shows "(\<forall>t u. threads s t \<noteq> None \<longrightarrow> threads s u \<noteq> None \<longrightarrow> inside l (C' t) \<longrightarrow> inside l (C' u) \<longrightarrow> t = u) \<and>
    (\<forall>t. threads s t \<noteq> None \<longrightarrow> inside l (C' t) \<longrightarrow> (\<exists>lk. locks s l = Some lk \<and> lockHolder lk = Some t)) \<and>
    (\<exists>sem. sems s k = Some sem \<and> sem_value sem \<in> {0, 1}) \<and>
    (\<forall>cd rest. C' (currentThread s) \<in> {ARelease l # rest, AWait cd l # rest, ASignal cd l # rest} \<longrightarrow> holds_lock s l)"
proof -
  let ?b = "boot ss n ls cs s0"
  have okb: "sched_ok ?b C" by (rule sched_boot [OF b(1)]) (rule p)+
  then have ok: "sched_ok s C'" using runs_sched [OF r(1)] by simp
  obtain g where inv: "lock_inv l k g s C'"
    using runs_lock [OF r(1,2), of l "\<lambda>_. LFree"] okb lock_boot [where C = C, OF b p(3)] by auto
  have held: "g t = LHeld" if "threads s t \<noteq> None" "inside l (C' t)" for t
    using that inv disc_inside [of l k "g t" "C' t"] by (simp add: lock_inv_def)
  have hold: "\<exists>lk. locks s l = Some lk \<and> lockHolder lk = Some t" if "threads s t \<noteq> None" "inside l (C' t)" for t
    using inv_holder [OF inv, of t] held [OF that] that(1) by (auto simp: holder_def split: option.splits)
  obtain lk0 where "locks s l = Some lk0" "lock_sem lk0 = k" using inv_objs [OF inv] by (auto simp: lock_objs_def)
  then obtain sem where sem: "sems s k = Some sem" using lock_sem_exists [OF ok, of l lk0] by auto
  have val: "0 \<le> sem_value sem" "sem_value sem \<le> 1"
    using sem_ok [OF ok sem] inv sem by (simp_all add: lock_inv_def sem_val_def)
  have "holds_lock s l" if c: "C' (currentThread s) \<in> {ARelease l # rest, AWait cd l # rest, ASignal cd l # rest}" for cd rest
    using hold [of "currentThread s"] cur_thread [OF ok] c by (auto simp: holds_lock_def)
  moreover have "t = u" if "threads s t \<noteq> None" "threads s u \<noteq> None" "inside l (C' t)" "inside l (C' u)" for t u
    using hold [OF that(1,3)] hold [OF that(2,4)] by auto
  moreover have "sem_value sem \<in> {0, 1}" using val by auto
  ultimately show ?thesis using hold sem by blast
qed

theorem lock_mutual_exclusion_witness:
  "runs {1} (demo, demo_prog) (demo_asleep, demo_prog(0 := [ASleep False, ARetry 1 IntOff, AFork (Lock_Acquire 0 0 @ [ARelease 0]), AYield])) \<and>
   disc 0 0 LFree (demo_prog 0) \<and> (\<exists>sem. sems demo_asleep 0 = Some sem \<and> sem_value sem \<in> {0, 1})"
proof -
  have r: "runs {1} (demo, demo_prog) (demo_asleep, demo_prog(0 := [ASleep False, ARetry 1 IntOff, AFork (Lock_Acquire 0 0 @ [ARelease 0]), AYield]))"
    by (rule runs_step [OF runs_refl _ _ demo_P]) (simp_all add: orc_ok_def)
  have d: "disc 0 0 LFree (demo_prog 0)" by (simp add: demo_prog_def Lock_Acquire_def next_simps)
  have f: "fresh_lock 0 0 demo_sems demo_locks" by (simp add: fresh_lock_def)
  show ?thesis
    using lock_mutual_exclusion [where C = demo_prog, OF demo_boot_ok f demo_prog_ok [unfolded demo_def] d r [unfolded demo_def]] r d by simp
qed

end
