(* ===== verification/Nachos_Devices.thy ===== *)
theory Nachos_Devices
  imports Nachos_Sched
begin

text \<open>
  The simulated devices and the objects they call back: \<open>machine/disk.cc\<close>,
  \<open>machine/console.cc\<close>, \<open>machine/network.cc\<close>, and the callbacks of \<open>filesys/synchdisk.cc\<close>,
  \<open>userprog/synchconsole.cc\<close> and \<open>network/post.cc\<close>.

  The state adds the fields of the device classes to the kernel state, the UNIX file that
  holds the disk, the characters written to the display and the packets handed to the socket.
  What the host gives the simulation (keyboard characters, packets, random numbers) is the
  parameter \<open>Unix\<close>; the \<open>n\<close>-th call of a service has the \<open>n\<close>-th result. The objects that wait for a
  device all do the same: their callback is \<open>V\<close> on a semaphore, here one number per device.

  The theory ends with the interpretation of \<open>interrupt_handlers\<close> on these callbacks: every interrupt
  is handled without a failing assertion, and to the thread system the handlers are calls
  of \<open>V\<close> on the semaphores of the devices.
\<close>

section \<open>State\<close>

definition SectorSize :: nat where "SectorSize = 128"
definition SectorsPerTrack :: nat where "SectorsPerTrack = 32"
definition NumTracks :: nat where "NumTracks = 32"
definition NumSectors :: nat where "NumSectors = SectorsPerTrack * NumTracks"

definition MagicNumber :: u32 where "MagicNumber = 0x456789ab"
definition MagicSize :: nat where "MagicSize = 4"
definition DiskSize :: nat where "DiskSize = MagicSize + NumSectors * SectorSize"

abbreviation (input) MaxWireSize :: nat where "MaxWireSize \<equiv> 64"

text \<open>Both headers are three 32-bit words; \<open>sizeof\<close> is 12.\<close>

record PacketHeader =
  pkt_to :: i32
  pkt_from :: i32
  pkt_length :: u32

definition sizeof_PacketHeader :: nat where "sizeof_PacketHeader = 12"
definition MaxPacketSize :: nat where "MaxPacketSize = MaxWireSize - sizeof_PacketHeader"

text \<open>
  The services of the host: is there a character, what does \<open>read\<close> return for it, is there a
  packet, its bytes, the random numbers, whether \<open>RandomNumber\<close> decides to lose a packet.
\<close>

record Unix =
  poll_con :: "nat \<Rightarrow> bool"
  read_con :: "nat \<Rightarrow> int \<times> byte"
  poll_sock :: "nat \<Rightarrow> bool"
  read_sock :: "nat \<Rightarrow> byte list"
  rnd :: "nat \<Rightarrow> int"
  lost :: "nat \<Rightarrow> bool"

record Hw = Kern +
  disk_file :: "nat \<Rightarrow> byte"
  disk_active :: bool
  lastSector :: int
  bufferInit :: int
  incoming :: byte
  con_calls :: nat
  putBusy :: bool
  display :: "byte list"
  inHdr :: PacketHeader
  inbox :: "byte list"
  net_calls :: nat
  sendBusy :: bool
  wire :: "(i32 \<times> byte list) list"
  hostName :: i32
  disk_sem :: nat
  conin_sem :: nat
  conout_sem :: nat
  netin_sem :: nat
  netout_sem :: nat

section \<open>Disk\<close>

definition TimeToSeek :: "int \<Rightarrow> 'z Hw_scheme \<Rightarrow> int \<times> int" where
  "TimeToSeek newSector s =
     (let newTrack = newSector sdiv int SectorsPerTrack;
          oldTrack = lastSector s sdiv int SectorsPerTrack;
          seek = \<bar>newTrack - oldTrack\<bar> * SeekTime;
          over = (now s + seek) smod RotationTime
      in (seek, if over > 0 then RotationTime - over else 0))"

definition ModuloDiff :: "int \<Rightarrow> int \<Rightarrow> int" where
  "ModuloDiff to from =
     (let toOffset = to smod int SectorsPerTrack; fromOffset = from smod int SectorsPerTrack
      in ((toOffset - fromOffset) + int SectorsPerTrack) smod int SectorsPerTrack)"

definition ComputeLatency :: "int \<Rightarrow> bool \<Rightarrow> 'z Hw_scheme \<Rightarrow> int" where
  "ComputeLatency newSector writing s =
     (let (seek, rotation) = TimeToSeek newSector s;
          timeAfter = now s + seek + rotation
      in if \<not> writing \<and> seek = 0 \<and>
            (timeAfter - bufferInit s) sdiv RotationTime > ModuloDiff newSector (bufferInit s sdiv RotationTime)
         then RotationTime
         else let rotation = rotation + ModuloDiff newSector (timeAfter sdiv RotationTime) * RotationTime
              in seek + rotation + RotationTime)"

definition UpdateLast :: "int \<Rightarrow> 'z Hw_scheme \<Rightarrow> 'z Hw_scheme" where
  "UpdateLast newSector s =
     (let (seek, rotate) = TimeToSeek newSector s;
          s = (if seek \<noteq> 0 then s\<lparr>bufferInit := now s + seek + rotate\<rparr> else s)
      in s\<lparr>lastSector := newSector\<rparr>)"

text \<open>\<open>Lseek\<close> followed by \<open>Read\<close> or \<open>WriteFile\<close> on the file of the disk.\<close>

definition file_read :: "(nat \<Rightarrow> byte) \<Rightarrow> nat \<Rightarrow> nat \<Rightarrow> byte list" where
  "file_read f off n = map (\<lambda>i. f (off + i)) [0..<n]"

definition file_write :: "(nat \<Rightarrow> byte) \<Rightarrow> nat \<Rightarrow> byte list \<Rightarrow> nat \<Rightarrow> byte" where
  "file_write f off bs = (\<lambda>a. if off \<le> a \<and> a < off + length bs then bs ! (a - off) else f a)"

definition sector_off :: "int \<Rightarrow> nat" where
  "sector_off sectorNumber = SectorSize * nat sectorNumber + MagicSize"

text \<open>The constructor, after the UNIX file was opened: it exists with the given contents or is created.\<close>

definition Disk_new :: "(nat \<Rightarrow> byte) option \<Rightarrow> 'z Hw_scheme \<Rightarrow> 'z Hw_scheme res" where
  "Disk_new existing s =
     (let s = s\<lparr>lastSector := 0, bufferInit := 0\<rparr> in
      bindR (case existing of
          Some f \<Rightarrow> bindR (ASSERT (word_at (file_read f 0 MagicSize) 0 = MagicNumber)) (\<lambda>_. Inr f)
        | None \<Rightarrow> Inr (file_write (file_write (\<lambda>_. 0) 0 (bytes_of_u32 MagicNumber)) (DiskSize - 4) (bytes_of_u32 0)))
        (\<lambda>f. Inr (s\<lparr>disk_file := f, disk_active := False\<rparr>)))"

definition ReadRequest :: "int \<Rightarrow> 'z Hw_scheme \<Rightarrow> (byte list \<times> 'z Hw_scheme) res" where
  "ReadRequest sectorNumber s =
     (let ticks = ComputeLatency sectorNumber False s in
      bindR (ASSERT (\<not> disk_active s)) (\<lambda>_.
      bindR (ASSERT (sectorNumber \<ge> 0 \<and> sectorNumber < int NumSectors)) (\<lambda>_.
      let data = file_read (disk_file s) (sector_off sectorNumber) SectorSize;
          s = UpdateLast sectorNumber (s\<lparr>disk_active := True\<rparr>);
          s = s\<lparr>stats := (stats s)\<lparr>numDiskReads := numDiskReads (stats s) + 1\<rparr>\<rparr>
      in bindR (Schedule DiskDev ticks DiskInt s) (\<lambda>s. Inr (data, s)))))"

definition WriteRequest :: "int \<Rightarrow> byte list \<Rightarrow> 'z Hw_scheme \<Rightarrow> 'z Hw_scheme res" where
  "WriteRequest sectorNumber data s =
     (let ticks = ComputeLatency sectorNumber True s in
      bindR (ASSERT (\<not> disk_active s)) (\<lambda>_.
      bindR (ASSERT (sectorNumber \<ge> 0 \<and> sectorNumber < int NumSectors)) (\<lambda>_.
      let s = s\<lparr>disk_file := file_write (disk_file s) (sector_off sectorNumber) (take SectorSize data)\<rparr>;
          s = UpdateLast sectorNumber (s\<lparr>disk_active := True\<rparr>);
          s = s\<lparr>stats := (stats s)\<lparr>numDiskWrites := numDiskWrites (stats s) + 1\<rparr>\<rparr>
      in Schedule DiskDev ticks DiskInt s)))"

definition SynchDisk_CallBack :: "'z Hw_scheme \<Rightarrow> 'z Hw_scheme res" where
  "SynchDisk_CallBack s = V_body (disk_sem s) s"

definition Disk_CallBack :: "'z Hw_scheme \<Rightarrow> 'z Hw_scheme res" where
  "Disk_CallBack s = SynchDisk_CallBack (s\<lparr>disk_active := False\<rparr>)"

section \<open>Console\<close>

text \<open>\<open>EOF\<close> stored in a \<open>char\<close>.\<close>

definition EOF :: byte where "EOF = 0xFF"

definition ConsoleInput_new :: "'z Hw_scheme \<Rightarrow> 'z Hw_scheme res" where
  "ConsoleInput_new s = Schedule ConsoleInDev ConsoleTime ConsoleReadInt (s\<lparr>incoming := EOF\<rparr>)"

definition SynchConsoleInput_CallBack :: "'z Hw_scheme \<Rightarrow> 'z Hw_scheme res" where
  "SynchConsoleInput_CallBack s = V_body (conin_sem s) s"

definition ConsoleInput_CallBack :: "Unix \<Rightarrow> 'z Hw_scheme \<Rightarrow> 'z Hw_scheme res" where
  "ConsoleInput_CallBack u s =
     bindR (ASSERT (incoming s = EOF)) (\<lambda>_.
     let n = con_calls s; s = s\<lparr>con_calls := Suc n\<rparr> in
     if \<not> poll_con u n then Schedule ConsoleInDev ConsoleTime ConsoleReadInt s
     else let (readCount, c) = read_con u n in
       bindR (if readCount = 0 then Inr s
              else bindR (ASSERT (readCount = 1)) (\<lambda>_.
                   Inr (s\<lparr>incoming := c,
                          stats := (stats s)\<lparr>numConsoleCharsRead := numConsoleCharsRead (stats s) + 1\<rparr>\<rparr>))) (\<lambda>s.
       SynchConsoleInput_CallBack s))"

definition ConsoleInput_GetChar :: "'z Hw_scheme \<Rightarrow> (byte \<times> 'z Hw_scheme) res" where
  "ConsoleInput_GetChar s =
     (let ch = incoming s in
      bindR (if incoming s \<noteq> EOF then Schedule ConsoleInDev ConsoleTime ConsoleReadInt s else Inr s) (\<lambda>s.
      Inr (ch, s\<lparr>incoming := EOF\<rparr>)))"

definition ConsoleOutput_new :: "'z Hw_scheme \<Rightarrow> 'z Hw_scheme" where
  "ConsoleOutput_new s = s\<lparr>putBusy := False\<rparr>"

definition SynchConsoleOutput_CallBack :: "'z Hw_scheme \<Rightarrow> 'z Hw_scheme res" where
  "SynchConsoleOutput_CallBack s = V_body (conout_sem s) s"

definition ConsoleOutput_CallBack :: "'z Hw_scheme \<Rightarrow> 'z Hw_scheme res" where
  "ConsoleOutput_CallBack s = SynchConsoleOutput_CallBack (s\<lparr>putBusy := False,
     stats := (stats s)\<lparr>numConsoleCharsWritten := numConsoleCharsWritten (stats s) + 1\<rparr>\<rparr>)"

definition ConsoleOutput_PutChar :: "byte \<Rightarrow> 'z Hw_scheme \<Rightarrow> 'z Hw_scheme res" where
  "ConsoleOutput_PutChar ch s =
     bindR (ASSERT (\<not> putBusy s)) (\<lambda>_.
     Schedule ConsoleOutDev ConsoleTime ConsoleWriteInt (s\<lparr>display := display s @ [ch], putBusy := True\<rparr>))"

section \<open>Network\<close>

definition hdr_bytes :: "PacketHeader \<Rightarrow> byte list" where
  "hdr_bytes h = bytes_of_u32 (pkt_to h) @ bytes_of_u32 (pkt_from h) @ bytes_of_u32 (pkt_length h)"

definition hdr_of_bytes :: "byte list \<Rightarrow> PacketHeader" where
  "hdr_of_bytes b = \<lparr>pkt_to = word_at b 0, pkt_from = word_at b 4, pkt_length = word_at b 8\<rparr>"

definition NetworkInput_new :: "'z Hw_scheme \<Rightarrow> 'z Hw_scheme res" where
  "NetworkInput_new s = Schedule NetworkInDev NetworkTime NetworkRecvInt (s\<lparr>inHdr := (inHdr s)\<lparr>pkt_length := 0\<rparr>\<rparr>)"

definition PostOfficeInput_CallBack :: "'z Hw_scheme \<Rightarrow> 'z Hw_scheme res" where
  "PostOfficeInput_CallBack s = V_body (netin_sem s) s"

definition NetworkInput_CallBack :: "Unix \<Rightarrow> 'z Hw_scheme \<Rightarrow> 'z Hw_scheme res" where
  "NetworkInput_CallBack u s =
     bindR (Schedule NetworkInDev NetworkTime NetworkRecvInt s) (\<lambda>s.
     if pkt_length (inHdr s) \<noteq> 0 then Inr s
     else let n = net_calls s; s = s\<lparr>net_calls := Suc n\<rparr> in
       if \<not> poll_sock u n then Inr s
       else let buffer = read_sock u n; h = hdr_of_bytes buffer; s = s\<lparr>inHdr := h\<rparr> in
         bindR (ASSERT (pkt_to h = hostName s \<and> pkt_length h \<le> of_nat MaxPacketSize)) (\<lambda>_.
         let len = unat (pkt_length h);
             s = s\<lparr>inbox := take len (drop sizeof_PacketHeader buffer) @ drop len (inbox s),
                   stats := (stats s)\<lparr>numPacketsRecvd := numPacketsRecvd (stats s) + 1\<rparr>\<rparr>
         in PostOfficeInput_CallBack s))"

definition NetworkInput_Receive :: "'z Hw_scheme \<Rightarrow> (PacketHeader \<times> byte list) \<times> 'z Hw_scheme" where
  "NetworkInput_Receive s =
     (let hdr = inHdr s in
      ((hdr, if pkt_length hdr \<noteq> 0 then take (unat (pkt_length hdr)) (inbox s) else []),
       s\<lparr>inHdr := hdr\<lparr>pkt_length := 0\<rparr>\<rparr>))"

definition PostOfficeOutput_CallBack :: "'z Hw_scheme \<Rightarrow> 'z Hw_scheme res" where
  "PostOfficeOutput_CallBack s = V_body (netout_sem s) s"

definition NetworkOutput_CallBack :: "'z Hw_scheme \<Rightarrow> 'z Hw_scheme res" where
  "NetworkOutput_CallBack s = PostOfficeOutput_CallBack (s\<lparr>sendBusy := False,
     stats := (stats s)\<lparr>numPacketsSent := numPacketsSent (stats s) + 1\<rparr>\<rparr>)"

text \<open>
  As in the source \<open>sendBusy\<close> is tested but never set. \<open>pad\<close> is what follows the data in the
  freshly allocated buffer.
\<close>

definition NetworkOutput_Send :: "Unix \<Rightarrow> byte list \<Rightarrow> PacketHeader \<Rightarrow> byte list \<Rightarrow> 'z Hw_scheme \<Rightarrow> 'z Hw_scheme res" where
  "NetworkOutput_Send u pad hdr data s =
     bindR (ASSERT (\<not> sendBusy s \<and> pkt_length hdr > 0 \<and> pkt_length hdr \<le> of_nat MaxPacketSize \<and>
                    pkt_from hdr = hostName s)) (\<lambda>_.
     bindR (Schedule NetworkOutDev NetworkTime NetworkSendInt s) (\<lambda>s.
     if lost u (next_ident s) then Inr s
     else let buffer = take MaxWireSize (hdr_bytes hdr @ take (unat (pkt_length hdr)) data @ pad)
          in Inr (s\<lparr>wire := wire s @ [(pkt_to hdr, buffer)]\<rparr>)))"

section \<open>Dispatch\<close>

text \<open>\<open>callOnInterrupt->CallBack()\<close>: the virtual call of \<open>CheckIfDue\<close>.\<close>

definition dev_cb :: "Unix \<Rightarrow> Device \<Rightarrow> 'z Hw_scheme \<Rightarrow> 'z Hw_scheme res" where
  "dev_cb u d s = (case d of
     TimerDev \<Rightarrow> Timer_CallBack (rnd u) s
   | DiskDev \<Rightarrow> Disk_CallBack s
   | ConsoleInDev \<Rightarrow> ConsoleInput_CallBack u s
   | ConsoleOutDev \<Rightarrow> ConsoleOutput_CallBack s
   | NetworkInDev \<Rightarrow> NetworkInput_CallBack u s
   | NetworkOutDev \<Rightarrow> NetworkOutput_CallBack s)"

section \<open>The disk head\<close>

lemma ModuloDiff_eq:
  assumes "0 \<le> to" "0 \<le> from"
  shows "ModuloDiff to from = (to - from) mod 32"
proof -
  have "0 \<le> to mod 32 - from mod 32 + 32" by (smt (verit) pos_mod_bound pos_mod_sign)
  then have "ModuloDiff to from = (to mod 32 - from mod 32 + 32) mod 32"
    using assms by (simp add: ModuloDiff_def SectorsPerTrack_def smod_nonneg)
  also have "\<dots> = (to - from) mod 32" by (simp add: mod_simps)
  finally show ?thesis .
qed

definition sector_ok :: "int \<Rightarrow> bool" where
  "sector_ok k \<longleftrightarrow> 0 \<le> k \<and> k < int NumSectors"

lemma round_up:
  assumes "(0::int) < r"
  shows "(x + (if x mod r > 0 then r - x mod r else 0)) mod r = 0" "0 \<le> (if x mod r > 0 then r - x mod r else 0)"
    "(if x mod r > 0 then r - x mod r else 0) < r"
proof -
  have "x + (r - x mod r) = (x div r + 1) * r" using div_mult_mod_eq [of x r] by (simp add: algebra_simps)
  then have "(x + (r - x mod r)) mod r = 0" by simp
  moreover have "0 \<le> x mod r" using assms by simp
  ultimately show "(x + (if x mod r > 0 then r - x mod r else 0)) mod r = 0" by simp
  show "0 \<le> (if x mod r > 0 then r - x mod r else 0)" "(if x mod r > 0 then r - x mod r else 0) < r"
    using assms pos_mod_bound [OF assms, of x] by (simp_all add: less_imp_le)
qed

lemma TimeToSeek_eq:
  assumes "sector_ok k" "sector_ok (lastSector s)" "0 \<le> now s"
  shows "\<exists>seek rot. TimeToSeek k s = (seek, rot) \<and> 0 \<le> seek \<and> seek \<le> 31 * SeekTime \<and> 0 \<le> rot \<and> rot < RotationTime \<and>
    (now s + seek + rot) mod RotationTime = 0 \<and> (seek = 0 \<longleftrightarrow> k div 32 = lastSector s div 32)"
proof -
  define seek where "seek = \<bar>k div 32 - lastSector s div 32\<bar> * SeekTime"
  have b: "0 \<le> k div 32" "k div 32 \<le> 31" "0 \<le> lastSector s div 32" "lastSector s div 32 \<le> 31"
    using assms(1,2) unfolding sector_ok_def NumSectors_def SectorsPerTrack_def NumTracks_def by linarith+
  have sk: "0 \<le> seek" "seek \<le> 31 * SeekTime" "seek = 0 \<longleftrightarrow> k div 32 = lastSector s div 32"
    using b by (simp_all add: seek_def SeekTime_def)
  have rt: "0 < RotationTime" by (simp add: RotationTime_def)
  have nn: "0 \<le> now s + seek" using assms(3) sk(1) by simp
  have "TimeToSeek k s = (seek, if (now s + seek) mod RotationTime > 0 then RotationTime - (now s + seek) mod RotationTime else 0)"
    using assms nn rt b
    by (simp add: TimeToSeek_def sector_ok_def SectorsPerTrack_def sdiv_nonneg smod_nonneg Let_def seek_def)
  then show ?thesis using sk round_up [OF rt, of "now s + seek"] by (intro exI conjI) assumption+
qed


section \<open>Well-formed devices\<close>

definition n_dev :: "Device \<Rightarrow> 'z Sim_scheme \<Rightarrow> nat" where
  "n_dev d s = length (filter (\<lambda>p. callOnInterrupt p = d) (pending s))"

definition dev_sems :: "'z Hw_scheme \<Rightarrow> nat set" where
  "dev_sems s = {disk_sem s, conin_sem s, conout_sem s, netin_sem s, netout_sem s}"

text \<open>
  What is assumed of the host: \<open>read\<close> of a character returns 0 or 1, the packets on the socket come
  from \<open>NetworkOutput::Send\<close> of a Nachos that addressed this one, and \<open>random\<close> is not negative.
\<close>

definition unix_ok :: "Unix \<Rightarrow> i32 \<Rightarrow> bool" where
  "unix_ok u host \<longleftrightarrow> (\<forall>n. fst (read_con u n) \<in> {0, 1}) \<and>
     (\<forall>n. pkt_to (hdr_of_bytes (read_sock u n)) = host \<and>
          pkt_length (hdr_of_bytes (read_sock u n)) \<le> of_nat MaxPacketSize) \<and>
     (\<forall>n. 0 \<le> rnd u n)"

text \<open>
  A request in progress has exactly one pending interrupt, and the keyboard is polled only
  while its buffer is empty.
\<close>

definition Hw_ok :: "Unix \<Rightarrow> 'z Hw_scheme \<Rightarrow> bool" where
  "Hw_ok u s \<longleftrightarrow> Sim_ok s \<and> lists_ok s \<and> unix_ok u (hostName s) \<and> (\<forall>k\<in>dev_sems s. sems s k \<noteq> None) \<and>
     n_dev DiskDev s = of_bool (disk_active s) \<and> n_dev ConsoleOutDev s = of_bool (putBusy s) \<and>
     n_dev ConsoleInDev s \<le> of_bool (incoming s = EOF)"

text \<open>The part of the state the thread system looks at.\<close>

definition tview :: "'z Kern_scheme \<Rightarrow> (nat \<rightharpoonup> Thread) \<times> nat list \<times> nat option \<times> nat \<times> nat \<times> (nat \<rightharpoonup> Semaphore) \<times> nat \<times>
    (nat \<rightharpoonup> Lock) \<times> (nat \<rightharpoonup> Condition)" where
  "tview s = (threads s, readyList s, toBeDestroyed s, currentThread s, next_thread s, sems s, next_sem s, locks s, conds s)"

text \<open>To the thread system, what happened is a sequence of \<open>V\<close> on semaphores of devices.\<close>

definition handled :: "'z Hw_scheme \<Rightarrow> 'z Hw_scheme \<Rightarrow> bool" where
  "handled s s' \<longleftrightarrow> dev_sems s' = dev_sems s \<and>
     (\<exists>vs s1. set vs \<subseteq> dev_sems s \<and> foldR V_body vs (s\<lparr>level := IntOff\<rparr>) = Inr s1 \<and> tview s1 = tview s')"

lemma V_cases:
  assumes "V_body k s = Inr s'"
  obtains (empty) sem where "sems s k = Some sem" "sem_queue sem = []"
      "s' = s\<lparr>sems := (sems s)(k \<mapsto> \<lparr>sem_value = sem_value sem + 1, sem_queue = []\<rparr>)\<rparr>"
    | (wake) sem t q th where "sems s k = Some sem" "sem_queue sem = t # q" "level s = IntOff" "threads s t = Some th"
      "t \<notin> set (readyList s)" "s' = woken k sem t th q s"
proof -
  obtain sem where sem: "sems s k = Some sem" using assms by (auto simp: V_body_def obj_def split: option.splits)
  show ?thesis
  proof (cases "sem_queue sem")
    case Nil
    then show ?thesis using empty [OF sem] assms V_body_empty [OF sem] by simp
  next
    case (Cons t q)
    then obtain th where "level s = IntOff" "threads s t = Some th" "t \<notin> set (readyList s)"
      using assms sem
      by (auto simp: V_body_def ReadyToRun_def upd_thread_def obj_def bindR_eq_Inr ASSERT_def seq_RemoveFront_def seq_Append_def
          split: if_splits option.splits)
    then show ?thesis using wake [OF sem Cons] assms V_body_wake [OF sem Cons] by simp
  qed
qed

lemma V_shape:
  assumes "V_body k s = Inr s'"
  shows "\<exists>ths r q. s' = s\<lparr>threads := ths, readyList := r, sems := q\<rparr> \<and> (\<forall>j. q j = None \<longleftrightarrow> sems s j = None)"
  using assms
proof (cases rule: V_cases)
  case (empty sem)
  then show ?thesis
    by (intro exI [of _ "threads s"] exI [of _ "readyList s"]
        exI [of _ "(sems s)(k \<mapsto> \<lparr>sem_value = sem_value sem + 1, sem_queue = []\<rparr>)"]) simp
next
  case (wake sem t q th)
  then show ?thesis unfolding woken_def by (intro exI conjI) (assumption, simp)
qed

lemma V_cong:
  assumes "V_body k s = Inr s'" "level s = IntOff" "level t = IntOff" "tview t = tview s"
  shows "\<exists>t'. V_body k t = Inr t' \<and> tview t' = tview s' \<and> level t' = IntOff \<and> level s' = IntOff"
  using assms(1)
proof (cases rule: V_cases)
  case (empty sem)
  then show ?thesis using V_body_empty [of t k sem] assms by (simp add: tview_def)
next
  case (wake sem u q th)
  then show ?thesis using V_body_wake [of t k sem u q th] assms by (simp add: tview_def woken_def)
qed

lemma foldR_V_cong:
  "foldR V_body vs s = Inr s' \<Longrightarrow> level s = IntOff \<Longrightarrow> level t = IntOff \<Longrightarrow> tview t = tview s \<Longrightarrow>
   \<exists>t'. foldR V_body vs t = Inr t' \<and> tview t' = tview s' \<and> level t' = IntOff \<and> level s' = IntOff"
proof (induction vs arbitrary: s t)
  case (Cons k vs)
  then obtain s1 where s1: "V_body k s = Inr s1" "foldR V_body vs s1 = Inr s'" by (auto simp: bindR_eq_Inr)
  obtain t1 where t1: "V_body k t = Inr t1" "tview t1 = tview s1" "level t1 = IntOff" "level s1 = IntOff"
    using V_cong [OF s1(1) Cons.prems(2-4)] by blast
  show ?case using Cons.IH [OF s1(2) t1(4,3,2)] t1(1) by auto
qed simp

lemma handled_refl: "handled s s"
  unfolding handled_def by (intro conjI exI [of _ "[]"] exI [of _ "s\<lparr>level := IntOff\<rparr>"]) (simp_all add: tview_def)

lemma handled_trans:
  assumes "handled s s'" "handled s' s''"
  shows "handled s s''"
proof -
  obtain vs s1 where 1: "set vs \<subseteq> dev_sems s" "foldR V_body vs (s\<lparr>level := IntOff\<rparr>) = Inr s1" "tview s1 = tview s'"
    using assms(1) by (auto simp: handled_def)
  obtain ws s2 where 2: "set ws \<subseteq> dev_sems s'" "foldR V_body ws (s'\<lparr>level := IntOff\<rparr>) = Inr s2" "tview s2 = tview s''"
    using assms(2) by (auto simp: handled_def)
  have "level s1 = IntOff" using foldR_V_cong [OF 1(2), of "s\<lparr>level := IntOff\<rparr>"] by auto
  moreover have "tview s1 = tview (s'\<lparr>level := IntOff\<rparr>)" using 1(3) by (simp add: tview_def)
  ultimately obtain s3 where "foldR V_body ws s1 = Inr s3" "tview s3 = tview s2"
    using foldR_V_cong [OF 2(2), of s1] by auto
  then have "foldR V_body (vs @ ws) (s\<lparr>level := IntOff\<rparr>) = Inr s3" "tview s3 = tview s''" using 1 2 by (simp_all add: foldR_append)
  then show ?thesis using 1(1) 2(1) assms unfolding handled_def
    by (intro conjI exI [of _ "vs @ ws"] exI [of _ s3]) auto
qed

lemma handled_same: "dev_sems s' = dev_sems s \<Longrightarrow> tview s' = tview s \<Longrightarrow> handled s s'"
  using handled_refl [of s] by (simp add: handled_def)

lemma handled_V:
  assumes "V_body k s0 = Inr s'" "k \<in> dev_sems s" "level s0 = IntOff" "tview s0 = tview s" "dev_sems s0 = dev_sems s"
  shows "handled s s'"
proof -
  obtain t' where t': "V_body k (s\<lparr>level := IntOff\<rparr>) = Inr t'" "tview t' = tview s'"
    using V_cong [OF assms(1,3), of "s\<lparr>level := IntOff\<rparr>"] assms(4) by (auto simp: tview_def)
  have "dev_sems s' = dev_sems s0" using V_shape [OF assms(1)] by (auto simp: dev_sems_def)
  then show ?thesis using t' assms(2,5) unfolding handled_def
    by (intro conjI exI [of _ "[k]"] exI [of _ t']) auto
qed

section \<open>The callbacks are interrupt handlers\<close>

text \<open>
  \<open>s\<close> is the state when the interrupt \<open>p\<close> is taken off the pending list. A callback is good when it
  does what the simulation relies on.
\<close>

definition good_cb :: "Unix \<Rightarrow> 'z Hw_scheme \<Rightarrow> PendingInterrupt list \<Rightarrow> 'z Hw_scheme res \<Rightarrow> bool" where
  "good_cb u s rest x \<longleftrightarrow> (\<exists>s' new. x = Inr s' \<and> Hw_ok u s' \<and> mset (pending s') = mset rest + mset new \<and>
     (\<forall>q\<in>set new. when_due q > now s) \<and> clock s' = clock s \<and> level s' = IntOff \<and> inHandler s' \<and> status s' = status s \<and>
     handled s s')"

lemma n_dev_mset: "mset (pending s') = mset xs \<Longrightarrow> n_dev d s' = length (filter (\<lambda>p. callOnInterrupt p = d) xs)"
  unfolding n_dev_def by (metis mset_filter size_mset)

lemma n_dev_Cons: "pending s = p # rest \<Longrightarrow> n_dev d s = (if callOnInterrupt p = d then 1 else 0) + n_dev d (s\<lparr>pending := rest\<rparr>)"
  by (simp add: n_dev_def)

lemma Sim_ok_rest: "Sim_ok s \<Longrightarrow> pending s = p # rest \<Longrightarrow> Sim_ok (s\<lparr>pending := rest\<rparr>)"
  by (auto simp: Sim_ok_def pending_ok_def)

text \<open>The state before the call of \<open>V\<close>: everything but the thread system is in its final form.\<close>

definition ready_for_V :: "Unix \<Rightarrow> 'z Hw_scheme \<Rightarrow> PendingInterrupt list \<Rightarrow> 'z Hw_scheme \<Rightarrow> bool" where
  "ready_for_V u s rest s0 \<longleftrightarrow> Hw_ok u s0 \<and> (\<exists>new. mset (pending s0) = mset rest + mset new \<and> (\<forall>q\<in>set new. when_due q > now s)) \<and>
     clock s0 = clock s \<and> level s0 = IntOff \<and> inHandler s0 \<and> status s0 = status s \<and> tview s0 = tview s \<and> dev_sems s0 = dev_sems s"

lemma good_done: "ready_for_V u s rest s0 \<Longrightarrow> good_cb u s rest (Inr s0)"
  unfolding good_cb_def ready_for_V_def using handled_same [of s0 s] by blast

lemma good_V:
  assumes r: "ready_for_V u s rest s0" and k: "k \<in> dev_sems s"
  shows "good_cb u s rest (V_body k s0)"
proof -
  have ok: "Hw_ok u s0" and lev: "level s0 = IntOff" and tv: "tview s0 = tview s" "dev_sems s0 = dev_sems s"
    using r by (simp_all add: ready_for_V_def)
  obtain sem where sem: "sems s0 k = Some sem" using ok k tv(2) unfolding Hw_ok_def by blast
  have "lists_ok s0" using ok by (simp add: Hw_ok_def)
  then obtain s' where s': "V_body k s0 = Inr s'" "lists_ok s'" using V_lists [OF _ lev sem] by blast
  obtain ths rl q where sh: "s' = s0\<lparr>threads := ths, readyList := rl, sems := q\<rparr>" "\<forall>j. q j = None \<longleftrightarrow> sems s0 j = None"
    using V_shape [OF s'(1)] by blast
  have "Hw_ok u s'" using ok s'(2) sh unfolding Hw_ok_def
    by (simp add: Sim_ok_def pending_ok_def n_dev_def dev_sems_def)
  moreover have "handled s s'" by (rule handled_V [OF s'(1) k lev tv])
  ultimately show ?thesis using r sh s'(1) unfolding good_cb_def ready_for_V_def by (auto simp: clock_def)
qed

text \<open>The state in which the callback starts.\<close>

lemma started:
  assumes ok: "Hw_ok u s" and s: "inHandler s" "level s = IntOff" "pending s = p # rest"
    and n: "n_dev DiskDev (s\<lparr>pending := rest\<rparr>) = of_bool (disk_active s0)"
      "n_dev ConsoleOutDev (s\<lparr>pending := rest\<rparr>) = of_bool (putBusy s0)"
      "n_dev ConsoleInDev (s\<lparr>pending := rest\<rparr>) \<le> of_bool (incoming s0 = EOF)"
    and same: "pending s0 = rest" "clock s0 = clock s" "level s0 = level s" "inHandler s0 = inHandler s" "status s0 = status s"
      "tview s0 = tview s" "dev_sems s0 = dev_sems s" "next_ident s0 = next_ident s" "machine s0 = machine s" "hostName s0 = hostName s"
  shows "ready_for_V u s rest s0"
proof -
  have "Sim_ok s0" using ok s(3) same by (auto simp: Hw_ok_def Sim_ok_def pending_ok_def ticks_ok_def clock_def)
  moreover have "lists_ok s0" using ok same(6) by (simp add: Hw_ok_def lists_ok_def waits_def tview_def)
  moreover have "\<forall>k\<in>dev_sems s0. sems s0 k \<noteq> None" using ok same(6,7) by (simp add: Hw_ok_def tview_def)
  moreover have "unix_ok u (hostName s0)" using ok same(10) by (simp add: Hw_ok_def)
  moreover have "n_dev d s0 = n_dev d (s\<lparr>pending := rest\<rparr>)" for d using same(1) by (simp add: n_dev_def)
  ultimately have "Hw_ok u s0" using n by (simp add: Hw_ok_def)
  then show ?thesis using s same unfolding ready_for_V_def by (intro conjI exI [of _ "[]"]) simp_all
qed

text \<open>Scheduling a later interrupt keeps the state ready.\<close>

lemma good_Schedule:
  assumes r: "ready_for_V u s rest s0" and d: "0 < delay"
    and n: "dev \<noteq> DiskDev" "dev \<noteq> ConsoleOutDev" "dev = ConsoleInDev \<Longrightarrow> incoming s0 = EOF \<and> n_dev ConsoleInDev s0 = 0"
  shows "\<exists>s1. Schedule dev delay ty s0 = Inr s1 \<and> ready_for_V u s rest s1 \<and>
    s1 = s0\<lparr>next_ident := Suc (next_ident s0), pending := seq_Insert PendingCompare (new_int dev delay ty s0) (pending s0)\<rparr>"
proof -
  let ?p = "new_int dev delay ty s0"
  let ?s1 = "s0\<lparr>next_ident := Suc (next_ident s0), pending := seq_Insert PendingCompare ?p (pending s0)\<rparr>"
  have ok: "Hw_ok u s0" using r by (simp add: ready_for_V_def)
  have po: "pending_ok s0" using ok by (simp add: Hw_ok_def Sim_ok_def)
  have "Schedule dev delay ty s0 = Inr ?s1" by (rule Schedule_eq [OF po d])
  moreover have "ready_for_V u s rest ?s1"
  proof -
    have ms: "mset (pending ?s1) = mset (?p # pending s0)" by (simp add: mset_seq_Insert)
    have nd: "n_dev x ?s1 = (if dev = x then 1 else 0) + n_dev x s0" for x
      using n_dev_mset [OF ms, of x] by (simp add: n_dev_def new_int_def)
    have "Sim_ok ?s1" using ok pending_ok_insert [OF po, of ?p] by (simp add: Hw_ok_def Sim_ok_def new_int_def)
    moreover have "lists_ok ?s1" using ok by (simp add: Hw_ok_def lists_ok_def waits_def)
    ultimately have "Hw_ok u ?s1" using ok n nd by (simp add: Hw_ok_def dev_sems_def)
    moreover obtain new where "mset (pending s0) = mset rest + mset new" "\<forall>q\<in>set new. when_due q > now s"
      using r by (auto simp: ready_for_V_def)
    then have "mset (pending ?s1) = mset rest + mset (?p # new)" "\<forall>q\<in>set (?p # new). when_due q > now s"
      using ms d r by (auto simp: new_int_def ready_for_V_def clock_def)
    ultimately show ?thesis using r unfolding ready_for_V_def
      by (intro conjI exI [of _ "?p # new"]) (simp_all add: clock_def tview_def dev_sems_def)
  qed
  ultimately show ?thesis by blast
qed

lemma ready_cong:
  assumes r: "ready_for_V u s rest s0" and same: "pending s1 = pending s0" "clock s1 = clock s0" "level s1 = level s0"
      "inHandler s1 = inHandler s0" "status s1 = status s0" "tview s1 = tview s0" "dev_sems s1 = dev_sems s0"
      "next_ident s1 = next_ident s0" "machine s1 = machine s0" "hostName s1 = hostName s0"
      "disk_active s1 = disk_active s0" "putBusy s1 = putBusy s0" "incoming s1 = incoming s0"
  shows "ready_for_V u s rest s1"
proof -
  have ok: "Hw_ok u s0" using r by (simp add: ready_for_V_def)
  have "Sim_ok s1" using ok same by (simp add: Hw_ok_def Sim_ok_def pending_ok_def ticks_ok_def clock_def)
  moreover have "lists_ok s1" using ok same(6) by (simp add: Hw_ok_def lists_ok_def waits_def tview_def)
  moreover have "\<forall>k\<in>dev_sems s1. sems s1 k \<noteq> None" using ok same(6,7) by (simp add: Hw_ok_def tview_def)
  ultimately have "Hw_ok u s1" using ok same by (simp add: Hw_ok_def n_dev_def)
  then show ?thesis using r same by (simp add: ready_for_V_def)
qed

lemma Timer_good:
  assumes ok: "Hw_ok u s" and s: "inHandler s" "level s = IntOff" "pending s = p # rest" and d: "callOnInterrupt p = TimerDev"
  shows "good_cb u s rest (Timer_CallBack (rnd u) (s\<lparr>pending := rest\<rparr>))"
proof -
  define s0 where "s0 = s\<lparr>pending := rest, yieldOnReturn := status s \<noteq> IdleMode \<or> yieldOnReturn s\<rparr>"
  have a: "Alarm_CallBack (s\<lparr>pending := rest\<rparr>) = Inr s0"
    using s(1) by (auto simp: Alarm_CallBack_def YieldOnReturn_def s0_def)
  have r: "ready_for_V u s rest s0"
    by (rule started [OF ok s]) (use ok s d n_dev_Cons [OF s(3)] in \<open>auto simp: Hw_ok_def s0_def clock_def tview_def dev_sems_def\<close>)
  show ?thesis
  proof (cases "timer_disable s0")
    case True
    then show ?thesis using a good_done [OF r] by (simp add: Timer_CallBack_def Timer_SetInterrupt_def)
  next
    case False
    let ?d = "if timer_randomize s0 then 1 + rnd u (next_ident s0) smod (TimerTicks * 2) else TimerTicks"
    have "0 \<le> rnd u n" for n using ok by (simp add: Hw_ok_def unix_ok_def)
    then have "0 < ?d" using timer_delay [where rnd = "rnd u" and s = s0] by blast
    then obtain s1 where "Timer_SetInterrupt (rnd u) s0 = Inr s1" "ready_for_V u s rest s1"
      using good_Schedule [OF r, of ?d TimerDev TimerInt] False by (auto simp: Timer_SetInterrupt_def)
    then show ?thesis using a good_done by (simp add: Timer_CallBack_def)
  qed
qed

lemma Disk_good:
  assumes ok: "Hw_ok u s" and s: "inHandler s" "level s = IntOff" "pending s = p # rest" and d: "callOnInterrupt p = DiskDev"
  shows "good_cb u s rest (Disk_CallBack (s\<lparr>pending := rest\<rparr>))"
proof -
  have "ready_for_V u s rest (s\<lparr>pending := rest, disk_active := False\<rparr>)"
    by (rule started [OF ok s])
       (use ok s d n_dev_Cons [OF s(3), of DiskDev] n_dev_Cons [OF s(3), of ConsoleOutDev] n_dev_Cons [OF s(3), of ConsoleInDev]
         in \<open>auto simp: Hw_ok_def clock_def tview_def dev_sems_def of_bool_def split: if_splits\<close>)
  then show ?thesis unfolding Disk_CallBack_def SynchDisk_CallBack_def
    by (simp add: good_V dev_sems_def)
qed

lemma ConsoleOut_good:
  assumes ok: "Hw_ok u s" and s: "inHandler s" "level s = IntOff" "pending s = p # rest" and d: "callOnInterrupt p = ConsoleOutDev"
  shows "good_cb u s rest (ConsoleOutput_CallBack (s\<lparr>pending := rest\<rparr>))"
proof -
  have "ready_for_V u s rest (s\<lparr>pending := rest, putBusy := False,
      stats := (stats s)\<lparr>numConsoleCharsWritten := numConsoleCharsWritten (stats s) + 1\<rparr>\<rparr>)"
    by (rule started [OF ok s])
       (use ok s d n_dev_Cons [OF s(3), of DiskDev] n_dev_Cons [OF s(3), of ConsoleOutDev] n_dev_Cons [OF s(3), of ConsoleInDev]
         in \<open>auto simp: Hw_ok_def clock_def tview_def dev_sems_def of_bool_def split: if_splits\<close>)
  then show ?thesis unfolding ConsoleOutput_CallBack_def SynchConsoleOutput_CallBack_def
    by (simp add: good_V dev_sems_def)
qed

lemma NetworkOut_good:
  assumes ok: "Hw_ok u s" and s: "inHandler s" "level s = IntOff" "pending s = p # rest" and d: "callOnInterrupt p = NetworkOutDev"
  shows "good_cb u s rest (NetworkOutput_CallBack (s\<lparr>pending := rest\<rparr>))"
proof -
  have "ready_for_V u s rest (s\<lparr>pending := rest, sendBusy := False,
      stats := (stats s)\<lparr>numPacketsSent := numPacketsSent (stats s) + 1\<rparr>\<rparr>)"
    by (rule started [OF ok s]) (use ok s d n_dev_Cons [OF s(3)] in \<open>auto simp: Hw_ok_def clock_def tview_def dev_sems_def\<close>)
  then show ?thesis unfolding NetworkOutput_CallBack_def PostOfficeOutput_CallBack_def
    by (simp add: good_V dev_sems_def)
qed

lemma ConsoleIn_good:
  assumes ok: "Hw_ok u s" and s: "inHandler s" "level s = IntOff" "pending s = p # rest" and d: "callOnInterrupt p = ConsoleInDev"
  shows "good_cb u s rest (ConsoleInput_CallBack u (s\<lparr>pending := rest\<rparr>))"
proof -
  have n: "n_dev ConsoleInDev s = Suc (n_dev ConsoleInDev (s\<lparr>pending := rest\<rparr>))" using n_dev_Cons [OF s(3), of ConsoleInDev] d by simp
  then have e: "incoming s = EOF" "n_dev ConsoleInDev (s\<lparr>pending := rest\<rparr>) = 0" using ok by (auto simp: Hw_ok_def of_bool_def split: if_splits)
  let ?s0 = "s\<lparr>pending := rest, con_calls := Suc (con_calls s)\<rparr>"
  obtain cnt c where rc: "read_con u (con_calls s) = (cnt, c)" by fastforce
  have cnt: "cnt = 0 \<or> cnt = 1" using ok rc by (auto simp: Hw_ok_def unix_ok_def dest: spec [of _ "con_calls s"])
  have st: "ready_for_V u s rest s0" if "pending s0 = rest" "clock s0 = clock s" "level s0 = level s" "inHandler s0 = inHandler s" "status s0 = status s"
      "tview s0 = tview s" "dev_sems s0 = dev_sems s" "next_ident s0 = next_ident s" "machine s0 = machine s" "hostName s0 = hostName s"
      "disk_active s0 = disk_active s" "putBusy s0 = putBusy s" for s0
    by (rule started [OF ok s _ _ _ that(1-10)])
       (use ok e that n_dev_Cons [OF s(3), of DiskDev] n_dev_Cons [OF s(3), of ConsoleOutDev] d in \<open>auto simp: Hw_ok_def\<close>)
  show ?thesis
  proof (cases "poll_con u (con_calls s)")
    case False
    have "ready_for_V u s rest ?s0" by (rule st) (simp_all add: clock_def tview_def dev_sems_def)
    moreover have "n_dev ConsoleInDev ?s0 = 0" using e(2) by (simp add: n_dev_def)
    ultimately obtain s1 where "Schedule ConsoleInDev ConsoleTime ConsoleReadInt ?s0 = Inr s1" "ready_for_V u s rest s1"
      using good_Schedule [of u s rest ?s0 ConsoleTime ConsoleInDev ConsoleReadInt] e(1) by (auto simp: ConsoleTime_def)
    then show ?thesis using False e(1) good_done by (simp add: ConsoleInput_CallBack_def Let_def)
  next
    case True
    let ?s1 = "if cnt = 0 then ?s0 else ?s0\<lparr>incoming := c,
        stats := (stats s)\<lparr>numConsoleCharsRead := numConsoleCharsRead (stats s) + 1\<rparr>\<rparr>"
    have "ready_for_V u s rest ?s1" by (rule st) (simp_all add: clock_def tview_def dev_sems_def)
    then have "good_cb u s rest (V_body (conin_sem s) ?s1)" by (rule good_V) (simp add: dev_sems_def)
    then show ?thesis using True e(1) cnt rc
      by (auto simp: ConsoleInput_CallBack_def SynchConsoleInput_CallBack_def Let_def)
  qed
qed

lemma NetworkIn_good:
  assumes ok: "Hw_ok u s" and s: "inHandler s" "level s = IntOff" "pending s = p # rest" and d: "callOnInterrupt p = NetworkInDev"
  shows "good_cb u s rest (NetworkInput_CallBack u (s\<lparr>pending := rest\<rparr>))"
proof -
  let ?s0 = "s\<lparr>pending := rest\<rparr>"
  have "ready_for_V u s rest ?s0"
    by (rule started [OF ok s]) (use ok s d n_dev_Cons [OF s(3)] in \<open>auto simp: Hw_ok_def clock_def tview_def dev_sems_def\<close>)
  then obtain s1 where s1: "Schedule NetworkInDev NetworkTime NetworkRecvInt ?s0 = Inr s1" "ready_for_V u s rest s1"
      and eq: "s1 = ?s0\<lparr>next_ident := Suc (next_ident s),
        pending := seq_Insert PendingCompare (new_int NetworkInDev NetworkTime NetworkRecvInt ?s0) rest\<rparr>"
    using good_Schedule [of u s rest ?s0 NetworkTime NetworkInDev NetworkRecvInt] by (auto simp: NetworkTime_def)
  have rf: "ready_for_V u s rest (s1\<lparr>net_calls := a, inHdr := h, inbox := b, stats := (stats s)\<lparr>numPacketsRecvd := i\<rparr>\<rparr>)" for a h b i
    by (rule ready_cong [OF s1(2)]) (simp_all add: eq clock_def tview_def dev_sems_def)
  have r1: "ready_for_V u s rest (s1\<lparr>net_calls := a\<rparr>)" for a
    by (rule ready_cong [OF s1(2)]) (simp_all add: clock_def tview_def dev_sems_def)
  have host: "pkt_to (hdr_of_bytes (read_sock u n)) = hostName s" "pkt_length (hdr_of_bytes (read_sock u n)) \<le> of_nat MaxPacketSize" for n
    using ok by (simp_all add: Hw_ok_def unix_ok_def)
  have k: "netin_sem s \<in> dev_sems s" by (simp add: dev_sems_def)
  have f: "inHdr s1 = inHdr s" "net_calls s1 = net_calls s" "hostName s1 = hostName s" "stats s1 = stats s" "inbox s1 = inbox s" "netin_sem s1 = netin_sem s"
    by (simp_all add: eq)
  show ?thesis
    using good_done [OF s1(2)] good_done [OF r1] good_V [OF rf k] s1(1) host
    by (auto simp: NetworkInput_CallBack_def PostOfficeInput_CallBack_def Let_def f)
qed

lemma cb_good:
  assumes "Hw_ok u s" "inHandler s" "level s = IntOff" "pending s = p # rest"
  shows "good_cb u s rest (dev_cb u (callOnInterrupt p) (s\<lparr>pending := rest\<rparr>))"
  using Timer_good [OF assms] Disk_good [OF assms] ConsoleIn_good [OF assms] ConsoleOut_good [OF assms] NetworkIn_good [OF assms]
    NetworkOut_good [OF assms]
  by (cases "callOnInterrupt p") (simp_all add: dev_cb_def)

lemma Hw_ok_sim:
  assumes "Hw_ok u s" "Sim_ok s1" "pending s1 = pending s" "tview s1 = tview s" "dev_sems s1 = dev_sems s" "hostName s1 = hostName s"
    "disk_active s1 = disk_active s" "putBusy s1 = putBusy s" "incoming s1 = incoming s"
  shows "Hw_ok u s1"
proof -
  have "lists_ok s1" using assms(1,4) by (simp add: Hw_ok_def lists_ok_def waits_def tview_def)
  moreover have "\<forall>k\<in>dev_sems s1. sems s1 k \<noteq> None" using assms(1,4,5) by (simp add: Hw_ok_def tview_def)
  ultimately show ?thesis using assms by (simp add: Hw_ok_def n_dev_def)
qed

lemma Hw_ok_fields:
  assumes "Hw_ok u s"
  shows "Sim_ok s" "Hw_ok u (s\<lparr>level := l\<rparr>)" "Hw_ok u (s\<lparr>inHandler := b\<rparr>)" "Hw_ok u (s\<lparr>status := st\<rparr>)"
    "load_ok m \<Longrightarrow> Hw_ok u (s\<lparr>machine := Some m\<rparr>)"
    "t = i + y + ut \<Longrightarrow> Hw_ok u (s\<lparr>stats := (stats s)\<lparr>totalTicks := t, idleTicks := i, systemTicks := y, userTicks := ut\<rparr>\<rparr>)"
proof -
  show sim: "Sim_ok s" using assms by (simp add: Hw_ok_def)
  have S: "Sim_ok (s\<lparr>level := l\<rparr>)" "Sim_ok (s\<lparr>inHandler := b\<rparr>)" "Sim_ok (s\<lparr>status := st\<rparr>)" "load_ok m \<Longrightarrow> Sim_ok (s\<lparr>machine := Some m\<rparr>)"
    "t = i + y + ut \<Longrightarrow> Sim_ok (s\<lparr>stats := (stats s)\<lparr>totalTicks := t, idleTicks := i, systemTicks := y, userTicks := ut\<rparr>\<rparr>)"
    using sim by (simp_all add: Sim_ok_def pending_ok_def ticks_ok_def)
  show "Hw_ok u (s\<lparr>level := l\<rparr>)" by (rule Hw_ok_sim [OF assms S(1)]) (simp_all add: tview_def dev_sems_def)
  show "Hw_ok u (s\<lparr>inHandler := b\<rparr>)" by (rule Hw_ok_sim [OF assms S(2)]) (simp_all add: tview_def dev_sems_def)
  show "Hw_ok u (s\<lparr>status := st\<rparr>)" by (rule Hw_ok_sim [OF assms S(3)]) (simp_all add: tview_def dev_sems_def)
  show "Hw_ok u (s\<lparr>machine := Some m\<rparr>)" if "load_ok m"
    by (rule Hw_ok_sim [OF assms S(4) [OF that]]) (simp_all add: tview_def dev_sems_def)
  show "Hw_ok u (s\<lparr>stats := (stats s)\<lparr>totalTicks := t, idleTicks := i, systemTicks := y, userTicks := ut\<rparr>\<rparr>)" if "t = i + y + ut"
    by (rule Hw_ok_sim [OF assms S(5) [OF that]]) (simp_all add: tview_def dev_sems_def)
qed

lemma handled_fields:
  "handled s (s\<lparr>level := l\<rparr>)" "handled s (s\<lparr>inHandler := b\<rparr>)" "handled s (s\<lparr>status := st\<rparr>)"
  "handled s (s\<lparr>machine := mm\<rparr>)" "handled s (s\<lparr>stats := sts\<rparr>)"
  by (rule handled_same; simp add: tview_def dev_sems_def)+

lemma cb_law_dev:
  assumes "Hw_ok u s" "inHandler s" "level s = IntOff" "pending s = p # rest"
  shows "\<exists>s' new. dev_cb u (callOnInterrupt p) (s\<lparr>pending := rest\<rparr>) = Inr s' \<and> Hw_ok u s' \<and>
      mset (pending s') = mset rest + mset new \<and> (\<forall>q\<in>set new. now s < when_due q) \<and> clock s' = clock s \<and>
      level s' = IntOff \<and> inHandler s' \<and> status s' = status s \<and> handled s s'"
  using cb_good [OF assms] by (simp add: good_cb_def)

interpretation dev: interrupt_handlers "dev_cb u" "Hw_ok u" handled for u
  by unfold_locales
     (erule Hw_ok_fields(1-4) | erule (1) handled_trans | erule (3) cb_law_dev | rule handled_fields handled_refl
      | erule (1) Hw_ok_fields(5) | erule (1) Hw_ok_fields(6))+

section \<open>Ticks and idling\<close>

lemma level_id: "level s = l \<Longrightarrow> s\<lparr>level := l\<rparr> = s"
  by (cases s) simp

lemma handled_SetLevel:
  assumes "handled s s1" "level s = IntOff" "\<not> inHandler s"
  shows "\<exists>vs s2. set vs \<subseteq> dev_sems s \<and> Interrupt_SetLevel vs y IntOn s = Inr (s2, if y then [AYield] else []) \<and> tview s2 = tview s1"
proof -
  obtain vs s2 where "set vs \<subseteq> dev_sems s" "foldR V_body vs s = Inr s2" "tview s2 = tview s1"
    using assms(1) level_id [OF assms(2)] by (auto simp: handled_def)
  then show ?thesis using assms(2,3)
    by (intro exI [of _ vs] exI [of _ "ChangeLevel IntOn s2"]) (simp add: Interrupt_SetLevel_def tview_def)
qed


text \<open>
  C11. Idling. With no thread to run, \<open>Interrupt::Idle\<close> halts the machine when no interrupt is
  pending; otherwise it moves the clock exactly to the next interrupt (never past it),
  handles everything that is due, and is to the thread system the idle step of
  \<open>Thread::Sleep\<close>.
\<close>

theorem Idle_simulates:
  assumes ok: "Hw_ok u s" and s: "level s = IntOff" "readyList s = []"
  shows "if pending s = [] then Idle (dev_cb u) s = Inl MachineHalted
    else \<exists>s1. Idle (dev_cb u) s = Inr s1 \<and> Hw_ok u s1 \<and> level s1 = IntOff \<and> none_due s1 \<and>
      now s1 = max (now s) (when_due (hd (pending s))) \<and>
      (\<exists>vs s2. set vs \<subseteq> dev_sems s \<and> Thread_Sleep_loop vs finishing s = Inr (s2, [ASleep finishing]) \<and> tview s2 = tview s1)"
proof (cases "pending s = []")
  case True
  then show ?thesis using dev.Idle_ok [OF ok s(1)] by simp
next
  case False
  then obtain s1 where s1: "Idle (dev_cb u) s = Inr s1" "Hw_ok u s1" "level s1 = IntOff" "none_due s1"
      "now s1 = max (now s) (when_due (hd (pending s)))" "handled s s1"
    using dev.Idle_ok [OF ok s(1)] by auto
  obtain vs s2 where "set vs \<subseteq> dev_sems s" "foldR V_body vs s = Inr s2" "tview s2 = tview s1"
    using s1(6) level_id [OF s(1)] by (auto simp: handled_def)
  then have "Thread_Sleep_loop vs finishing s = Inr (s2, [ASleep finishing])" "set vs \<subseteq> dev_sems s" "tview s2 = tview s1"
    using s by (simp_all add: Thread_Sleep_loop_def FindNextToRun_eq)
  then show ?thesis using False s1 by auto
qed

section \<open>Disk requests\<close>

lemma file_read_write_same: "file_read (file_write f off bs) off (length bs) = bs"
  by (auto simp: file_read_def file_write_def intro: nth_equalityI)

lemma file_read_write_other:
  "off' + n \<le> off \<or> off + length bs \<le> off' \<Longrightarrow> file_read (file_write f off bs) off' n = file_read f off' n"
  by (auto simp: file_read_def file_write_def)

lemma sectors_disjoint:
  "0 \<le> k \<Longrightarrow> 0 \<le> j \<Longrightarrow> k \<noteq> j \<Longrightarrow> sector_off j + SectorSize \<le> sector_off k \<or> sector_off k + SectorSize \<le> sector_off j"
proof -
  assume "0 \<le> k" "0 \<le> j" "k \<noteq> j"
  then have "Suc (nat j) \<le> nat k \<or> Suc (nat k) \<le> nat j" by linarith
  then have "Suc (nat j) * SectorSize \<le> nat k * SectorSize \<or> Suc (nat k) * SectorSize \<le> nat j * SectorSize"
    using mult_le_mono1 by blast
  then show ?thesis by (simp add: sector_off_def algebra_simps)
qed

definition Disk_ok :: "'z Hw_scheme \<Rightarrow> bool" where
  "Disk_ok s \<longleftrightarrow> sector_ok (lastSector s) \<and> 0 \<le> now s \<and> 0 \<le> bufferInit s"

lemma latency_pos: "sector_ok k \<Longrightarrow> Disk_ok s \<Longrightarrow> 0 < ComputeLatency k w s"
proof -
  assume "sector_ok k" "Disk_ok s"
  then obtain seek rot where t: "TimeToSeek k s = (seek, rot)" "0 \<le> seek" "0 \<le> rot" "0 \<le> now s + seek + rot"
    using TimeToSeek_eq [of k s] by (auto simp: Disk_ok_def)
  have "0 \<le> (now s + seek + rot) sdiv RotationTime"
    using t(4) by (simp add: sdiv_nonneg RotationTime_def pos_imp_zdiv_nonneg_iff)
  then have "0 \<le> ModuloDiff k ((now s + seek + rot) sdiv RotationTime)"
    using \<open>sector_ok k\<close> by (simp add: ModuloDiff_eq sector_ok_def)
  then show ?thesis using t by (auto simp: ComputeLatency_def Let_def RotationTime_def)
qed

text \<open>The state a request leaves: the disk is busy, its position is updated, an interrupt is pending.\<close>

lemma request_started:
  assumes ok: "Hw_ok u s" "Disk_ok s" "\<not> disk_active s" "sector_ok k" and l: "0 < ticks"
    and st: "clock (s\<lparr>stats := st'\<rparr>) = clock s"
  shows "\<exists>s1. Schedule DiskDev ticks DiskInt ((UpdateLast k (s\<lparr>disk_file := f, disk_active := True\<rparr>))\<lparr>stats := st'\<rparr>) = Inr s1 \<and>
    Hw_ok u s1 \<and> Disk_ok s1 \<and> disk_active s1 \<and> disk_file s1 = f"
proof -
  let ?s0 = "(UpdateLast k (s\<lparr>disk_file := f, disk_active := True\<rparr>))\<lparr>stats := st'\<rparr>"
  obtain seek rot where t: "TimeToSeek k s = (seek, rot)" "0 \<le> seek" "0 \<le> rot" using TimeToSeek_eq [of k s] ok by (auto simp: Disk_ok_def)
  have ts: "TimeToSeek k (s\<lparr>disk_file := f, disk_active := True\<rparr>) = (seek, rot)" using t(1) by (simp add: TimeToSeek_def)
  have s0: "\<exists>b. 0 \<le> b \<and> ?s0 = s\<lparr>disk_file := f, disk_active := True, bufferInit := b, lastSector := k, stats := st'\<rparr>"
  proof (cases "seek = 0")
    case True
    have "s\<lparr>bufferInit := bufferInit s\<rparr> = s" by (cases s) simp
    then have "?s0 = s\<lparr>disk_file := f, disk_active := True, bufferInit := bufferInit s, lastSector := k, stats := st'\<rparr>"
      using True ts by (cases s) (simp add: UpdateLast_def Let_def)
    then show ?thesis using ok(2) by (intro exI [of _ "bufferInit s"]) (simp add: Disk_ok_def)
  next
    case False
    then have "?s0 = s\<lparr>disk_file := f, disk_active := True, bufferInit := now s + seek + rot, lastSector := k, stats := st'\<rparr>"
      using ts by (simp add: UpdateLast_def Let_def)
    then show ?thesis using ok(2) t by (intro exI [of _ "now s + seek + rot"]) (simp add: Disk_ok_def)
  qed
  then obtain b where b: "0 \<le> b" "?s0 = s\<lparr>disk_file := f, disk_active := True, bufferInit := b, lastSector := k, stats := st'\<rparr>" by blast
  let ?p = "new_int DiskDev ticks DiskInt ?s0"
  let ?s1 = "?s0\<lparr>next_ident := Suc (next_ident ?s0), pending := seq_Insert PendingCompare ?p (pending ?s0)\<rparr>"
  have sim: "Sim_ok ?s0" using ok(1) st by (auto simp: Hw_ok_def b(2) Sim_ok_def pending_ok_def ticks_ok_def clock_def)
  then have po: "pending_ok ?s0" by (simp add: Sim_ok_def)
  have "Schedule DiskDev ticks DiskInt ?s0 = Inr ?s1" by (rule Schedule_eq [OF po l])
  moreover have "Hw_ok u ?s1"
  proof -
    have nd: "n_dev x ?s1 = (if x = DiskDev then 1 else 0) + n_dev x s" for x
      using n_dev_mset [of ?s1 "?p # pending s" x] by (simp add: mset_seq_Insert n_dev_def new_int_def b(2))
    have "Sim_ok ?s1" using sim pending_ok_insert [OF po, of ?p] by (simp add: Sim_ok_def new_int_def)
    moreover have "lists_ok ?s1" using ok(1) by (simp add: Hw_ok_def lists_ok_def waits_def b(2))
    ultimately show ?thesis using ok(1,3) unfolding Hw_ok_def nd by (simp add: b(2) dev_sems_def)
  qed
  moreover have "Disk_ok ?s1" using ok st b(1) by (simp add: Disk_ok_def b(2) clock_def)
  ultimately show ?thesis by (simp add: b(2))
qed

text \<open>
  C23. The disk stores. A write request to an idle disk with a valid sector is accepted; any
  later read of the same sector returns the data written, a read of another sector what was
  there before, and the magic number at the front of the UNIX file is not touched.
\<close>

theorem disk_write_read:
  assumes ok: "Hw_ok u s" "Disk_ok s" "\<not> disk_active s" and k: "sector_ok k" "sector_ok j" and d: "length data = SectorSize"
  shows "\<exists>s1. WriteRequest k data s = Inr s1 \<and> Hw_ok u s1 \<and> Disk_ok s1 \<and> disk_active s1 \<and>
    file_read (disk_file s1) 0 MagicSize = file_read (disk_file s) 0 MagicSize \<and>
    (\<forall>s2. Hw_ok u s2 \<longrightarrow> Disk_ok s2 \<longrightarrow> \<not> disk_active s2 \<longrightarrow> disk_file s2 = disk_file s1 \<longrightarrow>
      (\<exists>s3. ReadRequest j s2 = Inr (if j = k then data else file_read (disk_file s) (sector_off j) SectorSize, s3) \<and>
            Hw_ok u s3 \<and> disk_file s3 = disk_file s2))"
proof -
  let ?f = "file_write (disk_file s) (sector_off k) data"
  have nn: "0 \<le> k" "k < int NumSectors" "0 \<le> j" "j < int NumSectors" using k by (simp_all add: sector_ok_def)
  obtain s1 where s1: "WriteRequest k data s = Inr s1" "Hw_ok u s1" "Disk_ok s1" "disk_active s1" "disk_file s1 = ?f"
  proof -
    let ?st = "(stats s)\<lparr>numDiskWrites := numDiskWrites (stats s) + 1\<rparr>"
    have "clock (s\<lparr>stats := ?st\<rparr>) = clock s" by (simp add: clock_def)
    then obtain s1 where 1: "Schedule DiskDev (ComputeLatency k True s) DiskInt
        ((UpdateLast k (s\<lparr>disk_file := ?f, disk_active := True\<rparr>))\<lparr>stats := ?st\<rparr>) = Inr s1"
        "Hw_ok u s1" "Disk_ok s1" "disk_active s1" "disk_file s1 = ?f"
      using request_started [OF ok k(1) latency_pos [OF k(1) ok(2)]] by blast
    have "stats (UpdateLast k (s\<lparr>disk_file := ?f, disk_active := True\<rparr>)) = stats s"
      by (simp add: UpdateLast_def Let_def split: prod.split)
    then have "WriteRequest k data s = Inr s1" using 1(1) ok(3) nn d by (simp add: WriteRequest_def Let_def)
    then show ?thesis using that 1 by blast
  qed
  have rd: "file_read ?f (sector_off j) SectorSize = (if j = k then data else file_read (disk_file s) (sector_off j) SectorSize)"
  proof (cases "j = k")
    case True
    then show ?thesis using file_read_write_same [of "disk_file s" "sector_off k" data] d by simp
  next
    case False
    then have "sector_off j + SectorSize \<le> sector_off k \<or> sector_off k + length data \<le> sector_off j"
      using sectors_disjoint [of k j] nn d by auto
    then show ?thesis using False file_read_write_other by simp
  qed
  have "\<exists>s3. ReadRequest j s2 = Inr (if j = k then data else file_read (disk_file s) (sector_off j) SectorSize, s3) \<and>
            Hw_ok u s3 \<and> disk_file s3 = disk_file s2"
    if s2: "Hw_ok u s2" "Disk_ok s2" "\<not> disk_active s2" "disk_file s2 = disk_file s1" for s2
  proof -
    let ?st = "(stats s2)\<lparr>numDiskReads := numDiskReads (stats s2) + 1\<rparr>"
    have f2: "s2\<lparr>disk_file := disk_file s2\<rparr> = s2" by (cases s2) simp
    have "clock (s2\<lparr>stats := ?st\<rparr>) = clock s2" by (simp add: clock_def)
    then have "\<exists>s3. Schedule DiskDev (ComputeLatency j False s2) DiskInt
        ((UpdateLast j (s2\<lparr>disk_file := disk_file s2, disk_active := True\<rparr>))\<lparr>stats := ?st\<rparr>) = Inr s3 \<and>
        Hw_ok u s3 \<and> Disk_ok s3 \<and> disk_active s3 \<and> disk_file s3 = disk_file s2"
      by (rule request_started [OF s2(1-3) k(2) latency_pos [OF k(2) s2(2)]])
    then obtain s3 where "Schedule DiskDev (ComputeLatency j False s2) DiskInt ((UpdateLast j (s2\<lparr>disk_active := True\<rparr>))\<lparr>stats := ?st\<rparr>) = Inr s3"
        "Hw_ok u s3" "disk_file s3 = disk_file s2"
      unfolding f2 by blast
    moreover have "stats (UpdateLast j (s2\<lparr>disk_active := True\<rparr>)) = stats s2"
      by (simp add: UpdateLast_def Let_def split: prod.split)
    ultimately show ?thesis using s2(3,4) nn rd s1(5) by (simp add: ReadRequest_def Let_def)
  qed
  moreover have "file_read (disk_file s1) 0 MagicSize = file_read (disk_file s) 0 MagicSize"
    unfolding s1(5) by (rule file_read_write_other) (simp add: sector_off_def)
  ultimately show ?thesis using s1(1-4) by blast
qed


section \<open>A concrete machine\<close>

text \<open>
  A host with nothing to read, and a machine with five semaphores for the devices whose only pending interrupt
  is the first of the timer.
\<close>

definition host0 :: Unix where
  "host0 = \<lparr>poll_con = (\<lambda>_. False), read_con = (\<lambda>_. (0, 0)), poll_sock = (\<lambda>_. False), read_sock = (\<lambda>_. replicate 64 0),
     rnd = (\<lambda>_. 0), lost = (\<lambda>_. False)\<rparr>"

definition hw0 :: Hw where
  "hw0 = \<lparr>level = IntOff, pending = [\<lparr>ident = 0, callOnInterrupt = TimerDev, when_due = 100, int_type = TimerInt\<rparr>],
      inHandler = False, yieldOnReturn = False, status = SystemMode,
      stats = Statistics_new, machine = None, next_ident = 1, timer_randomize = False, timer_disable = False,
      threads = Map.empty, readyList = [], toBeDestroyed = None, currentThread = 0, next_thread = 0,
      sems = (\<lambda>k. if k < 5 then Some \<lparr>sem_value = 0, sem_queue = []\<rparr> else None), next_sem = 5, locks = Map.empty, conds = Map.empty,
      disk_file = (\<lambda>_. 0), disk_active = False, lastSector = 0, bufferInit = 0, incoming = EOF, con_calls = 0,
      putBusy = False, display = [], inHdr = \<lparr>pkt_to = 0, pkt_from = 0, pkt_length = 0\<rparr>, inbox = [], net_calls = 0, sendBusy = False,
      wire = [], hostName = 0, disk_sem = 0, conin_sem = 1, conout_sem = 2, netin_sem = 3, netout_sem = 4\<rparr>"

lemma host0_ok: "unix_ok host0 0"
  by (simp add: unix_ok_def host0_def hdr_of_bytes_def word_at_def MaxPacketSize_def sizeof_PacketHeader_def u32_of_bytes_def eval_nat_numeral)

lemma hw0_ok: "Hw_ok host0 hw0" "Disk_ok hw0" "\<not> disk_active hw0" "level hw0 = IntOff" "readyList hw0 = []"
  "\<not> inHandler hw0" "pending hw0 \<noteq> []"
proof -
  have "Sim_ok hw0" by (simp add: Sim_ok_def hw0_def ticks_ok_def pending_ok_def Statistics_new_def)
  moreover have "lists_ok hw0" by (auto simp: lists_ok_def waits_def hw0_def split: if_splits)
  ultimately show "Hw_ok host0 hw0" using host0_ok by (simp add: Hw_ok_def n_dev_def dev_sems_def hw0_def)
qed (simp_all add: hw0_def Disk_ok_def sector_ok_def NumSectors_def SectorsPerTrack_def NumTracks_def Statistics_new_def)



theorem Idle_simulates_witness:
  "\<exists>s1. Idle (dev_cb host0) hw0 = Inr s1 \<and> Hw_ok host0 s1 \<and> none_due s1 \<and> now s1 = 100"
proof -
  have "now hw0 = 0" "when_due (hd (pending hw0)) = 100" by (simp_all add: hw0_def Statistics_new_def)
  then show ?thesis using Idle_simulates [OF hw0_ok(1,4,5)] hw0_ok(7) by auto
qed

theorem disk_write_read_witness:
  "\<exists>s1. WriteRequest 3 (replicate 128 7) hw0 = Inr s1 \<and> Hw_ok host0 s1 \<and> disk_active s1"
proof -
  have "sector_ok 3" "length (replicate 128 (7 :: byte)) = SectorSize"
    by (simp_all add: sector_ok_def NumSectors_def SectorsPerTrack_def NumTracks_def SectorSize_def)
  then show ?thesis using disk_write_read [OF hw0_ok(1-3), of 3 3 "replicate 128 7"] by blast
qed

end
