(* ===== verification/Nachos_Host.thy ===== *)
theory Nachos_Host
  imports Nachos_Prelude
begin

text \<open>
  The files of the host, as far as Nachos uses them: C strings, the UNIX calls on files and the wrappers of
  \<open>lib/sysdep.cc\<close>.

  \<open>Host\<close> is the part of the UNIX process Nachos runs in: the directory, the contents of the files, the open
  descriptors. The calls \<open>open\<close>, \<open>read\<close>, \<open>write\<close>, \<open>lseek\<close>, \<open>close\<close>, \<open>unlink\<close> and \<open>socket\<close> are modelled by what they document:
  a new descriptor is the lowest one free, reading stops at the end of the file, a write past the end
  fills the gap with zeros, a removed file lives on while it is open. Which names the host lets
  Nachos open, and what connections do, are the fields \<open>h_allow\<close>, \<open>h_connect\<close>, \<open>h_send\<close> and \<open>h_recv\<close>.
\<close>

section \<open>C strings\<close>

text \<open>
  A \<open>char*\<close> is the array of bytes it points to; a routine that runs past the end of the array is a fault.
\<close>

definition cstr :: "byte list \<Rightarrow> byte list res" where
  "cstr b = (if 0 \<in> set b then Inr (takeWhile (\<lambda>c. c \<noteq> 0) b) else Inl OutOfBounds)"

definition strlen :: "byte list \<Rightarrow> int res" where
  "strlen b = bindR (cstr b) (\<lambda>s. Inr (int (length s)))"

text \<open>\<open>strcmp(a, b) == 0\<close>\<close>

fun strcmp_eq :: "byte list \<Rightarrow> byte list \<Rightarrow> bool res" where
  "strcmp_eq (x # xs) (y # ys) = (if x \<noteq> y then Inr False else if x = 0 then Inr True else strcmp_eq xs ys)"
| "strcmp_eq _ _ = Inl OutOfBounds"

text \<open>\<open>len\<close> bytes are stored at the start of an array.\<close>

definition fill :: "byte list \<Rightarrow> byte list \<Rightarrow> byte list res" where
  "fill buffer bs = (if length bs \<le> length buffer then Inr (bs @ drop (length bs) buffer) else Inl OutOfBounds)"

text \<open>\<open>sprintf("%d")\<close>\<close>

fun dec_nat :: "nat \<Rightarrow> byte list" where
  "dec_nat n = (if n < 10 then [of_nat (48 + n)] else dec_nat (n div 10) @ [of_nat (48 + n mod 10)])"

declare dec_nat.simps [simp del]

definition dec :: "int \<Rightarrow> byte list" where
  "dec n = (if n < 0 then 45 # dec_nat (nat (- n)) else dec_nat (nat n))"

section \<open>UNIX files\<close>

datatype fd = FileFd nat bool nat  \<comment> \<open>file, opened for writing, offset\<close>
  | SockFd

record Host =
  h_dir :: "byte list \<rightharpoonup> nat"
  h_data :: "nat \<Rightarrow> byte list"
  h_next :: nat
  h_fds :: "fd option list"
  h_allow :: "byte list \<Rightarrow> bool"
  h_connect :: "int \<Rightarrow> byte list \<Rightarrow> int \<Rightarrow> int"
  h_send :: "int \<Rightarrow> byte list \<Rightarrow> int"
  h_recv :: "int \<Rightarrow> byte list option"

fun first_free :: "'a option list \<Rightarrow> nat" where
  "first_free [] = 0"
| "first_free (None # xs) = 0"
| "first_free (Some _ # xs) = Suc (first_free xs)"

definition put_free :: "'a option list \<Rightarrow> 'a \<Rightarrow> 'a option list" where
  "put_free xs x = (if first_free xs < length xs then xs[first_free xs := Some x] else xs @ [Some x])"

definition fd_of :: "'z Host_scheme \<Rightarrow> int \<Rightarrow> fd option" where
  "fd_of h n = (if 0 \<le> n \<and> nat n < length (h_fds h) then h_fds h ! nat n else None)"

definition set_fd :: "int \<Rightarrow> fd option \<Rightarrow> 'z Host_scheme \<Rightarrow> 'z Host_scheme" where
  "set_fd n v h = h\<lparr>h_fds := (h_fds h)[nat n := v]\<rparr>"

definition new_fd :: "fd \<Rightarrow> 'z Host_scheme \<Rightarrow> int \<times> 'z Host_scheme" where
  "new_fd f h = (int (first_free (h_fds h)), h\<lparr>h_fds := put_free (h_fds h) f\<rparr>)"

text \<open>\<open>open\<close>: \<open>creat\<close> stands for \<open>O_CREAT | O_TRUNC\<close>, \<open>wr\<close> for \<open>O_RDWR\<close>.\<close>

definition sys_open :: "byte list \<Rightarrow> bool \<Rightarrow> bool \<Rightarrow> 'z Host_scheme \<Rightarrow> int \<times> 'z Host_scheme" where
  "sys_open name creat wr h =
     (if \<not> h_allow h name then (-1, h)
      else case h_dir h name of
        Some i \<Rightarrow> new_fd (FileFd i wr 0) (if creat then h\<lparr>h_data := (h_data h)(i := [])\<rparr> else h)
      | None \<Rightarrow>
          if creat then new_fd (FileFd (h_next h) wr 0)
            (h\<lparr>h_dir := (h_dir h)(name \<mapsto> h_next h), h_data := (h_data h)(h_next h := []), h_next := Suc (h_next h)\<rparr>)
          else (-1, h))"

definition sys_close :: "int \<Rightarrow> 'z Host_scheme \<Rightarrow> int \<times> 'z Host_scheme" where
  "sys_close n h = (if fd_of h n = None then (-1, h) else (0, set_fd n None h))"

definition sys_read :: "int \<Rightarrow> int \<Rightarrow> 'z Host_scheme \<Rightarrow> (int \<times> byte list) \<times> 'z Host_scheme" where
  "sys_read n cnt h = (case fd_of h n of
     Some (FileFd i wr off) \<Rightarrow>
       if cnt < 0 then ((-1, []), h)
       else let bs = take (nat cnt) (drop off (h_data h i))
            in ((int (length bs), bs), set_fd n (Some (FileFd i wr (off + length bs))) h)
   | _ \<Rightarrow> ((-1, []), h))"

definition splice :: "byte list \<Rightarrow> nat \<Rightarrow> byte list \<Rightarrow> byte list" where
  "splice d off bs = take off d @ replicate (off - length d) 0 @ bs @ drop (off + length bs) d"

definition sys_write :: "int \<Rightarrow> byte list \<Rightarrow> 'z Host_scheme \<Rightarrow> int \<times> 'z Host_scheme" where
  "sys_write n bs h = (case fd_of h n of
     Some (FileFd i True off) \<Rightarrow>
       (int (length bs), set_fd n (Some (FileFd i True (off + length bs)))
          (if bs = [] then h else h\<lparr>h_data := (h_data h)(i := splice (h_data h i) off bs)\<rparr>))
   | _ \<Rightarrow> (-1, h))"

text \<open>\<open>whence\<close>: 0 from the start, 1 from the current offset, 2 from the end.\<close>

definition sys_lseek :: "int \<Rightarrow> int \<Rightarrow> int \<Rightarrow> 'z Host_scheme \<Rightarrow> int \<times> 'z Host_scheme" where
  "sys_lseek n offset whence h = (case fd_of h n of
     Some (FileFd i wr off) \<Rightarrow>
       let pos = offset + (if whence = 0 then 0 else if whence = 1 then int off else int (length (h_data h i)))
       in if pos < 0 then (-1, h) else (pos, set_fd n (Some (FileFd i wr (nat pos))) h)
   | _ \<Rightarrow> (-1, h))"

definition sys_unlink :: "byte list \<Rightarrow> 'z Host_scheme \<Rightarrow> int \<times> 'z Host_scheme" where
  "sys_unlink name h = (if h_allow h name \<and> h_dir h name \<noteq> None then (0, h\<lparr>h_dir := (h_dir h)(name := None)\<rparr>) else (-1, h))"

section \<open>lib/sysdep.cc\<close>

definition OpenForWrite :: "byte list \<Rightarrow> 'z Host_scheme \<Rightarrow> (int \<times> 'z Host_scheme) res" where
  "OpenForWrite name h =
     bindR (cstr name) (\<lambda>nm. let (fd, h) = sys_open nm True True h in
     bindR (ASSERT (fd \<ge> 0)) (\<lambda>_. Inr (fd, h)))"

definition OpenForRead :: "byte list \<Rightarrow> bool \<Rightarrow> 'z Host_scheme \<Rightarrow> (int \<times> 'z Host_scheme) res" where
  "OpenForRead name crashOnError h =
     bindR (cstr name) (\<lambda>nm. let (fd, h) = sys_open nm False False h in
     bindR (ASSERT (\<not> crashOnError \<or> fd \<ge> 0)) (\<lambda>_. Inr (fd, h)))"

definition OpenForReadWrite :: "byte list \<Rightarrow> bool \<Rightarrow> 'z Host_scheme \<Rightarrow> (int \<times> 'z Host_scheme) res" where
  "OpenForReadWrite name crashOnError h =
     bindR (cstr name) (\<lambda>nm. let (fd, h) = sys_open nm False True h in
     bindR (ASSERT (\<not> crashOnError \<or> fd \<ge> 0)) (\<lambda>_. Inr (fd, h)))"

definition Read :: "int \<Rightarrow> int \<Rightarrow> 'z Host_scheme \<Rightarrow> (byte list \<times> 'z Host_scheme) res" where
  "Read fd nBytes h =
     (let ((retVal, bs), h) = sys_read fd nBytes h in bindR (ASSERT (retVal = nBytes)) (\<lambda>_. Inr (bs, h)))"

definition ReadPartial :: "int \<Rightarrow> int \<Rightarrow> 'z Host_scheme \<Rightarrow> (int \<times> byte list) \<times> 'z Host_scheme" where
  "ReadPartial fd nBytes h = sys_read fd nBytes h"

text \<open>The buffer of a write is the array the pointer points to; it has to hold \<open>nBytes\<close> bytes.\<close>

definition WriteFile :: "int \<Rightarrow> byte list \<Rightarrow> int \<Rightarrow> 'z Host_scheme \<Rightarrow> 'z Host_scheme res" where
  "WriteFile fd buffer nBytes h =
     bindR (if nBytes \<le> int (length buffer) then Inr () else Inl OutOfBounds) (\<lambda>_.
     let (retVal, h) = (if nBytes < 0 then (-1, h) else sys_write fd (take (nat nBytes) buffer) h) in
     bindR (ASSERT (retVal = nBytes)) (\<lambda>_. Inr h))"

definition Lseek :: "int \<Rightarrow> int \<Rightarrow> int \<Rightarrow> 'z Host_scheme \<Rightarrow> 'z Host_scheme res" where
  "Lseek fd offset whence h =
     (let (retVal, h) = sys_lseek fd offset whence h in bindR (ASSERT (retVal \<ge> 0)) (\<lambda>_. Inr h))"

definition Tell :: "int \<Rightarrow> 'z Host_scheme \<Rightarrow> int \<times> 'z Host_scheme" where
  "Tell fd h = sys_lseek fd 0 1 h"

definition Close :: "int \<Rightarrow> 'z Host_scheme \<Rightarrow> (int \<times> 'z Host_scheme) res" where
  "Close fd h = (let (retVal, h) = sys_close fd h in bindR (ASSERT (retVal \<ge> 0)) (\<lambda>_. Inr (retVal, h)))"

text \<open>\<open>Unlink\<close> returns \<open>unlink\<close>'s result as a \<open>bool\<close>.\<close>

definition Unlink :: "byte list \<Rightarrow> 'z Host_scheme \<Rightarrow> (bool \<times> 'z Host_scheme) res" where
  "Unlink name h = bindR (cstr name) (\<lambda>nm. let (r, h) = sys_unlink nm h in Inr (r \<noteq> 0, h))"

definition CloseSocket :: "int \<Rightarrow> 'z Host_scheme \<Rightarrow> 'z Host_scheme" where
  "CloseSocket sockID h = snd (sys_close sockID h)"

definition OpenSocketTCP :: "'z Host_scheme \<Rightarrow> (int \<times> 'z Host_scheme) res" where
  "OpenSocketTCP h = (let (sockID, h) = new_fd SockFd h in bindR (ASSERT (sockID \<ge> 0)) (\<lambda>_. Inr (sockID, h)))"

definition ConnectSocket :: "int \<Rightarrow> byte list \<Rightarrow> int \<Rightarrow> 'z Host_scheme \<Rightarrow> int res" where
  "ConnectSocket socketId ip port h =
     bindR (cstr ip) (\<lambda>a. Inr (if h_connect h socketId a port < 0 then -1 else 0))"

definition SendMessageToSocket :: "int \<Rightarrow> byte list \<Rightarrow> 'z Host_scheme \<Rightarrow> int res" where
  "SendMessageToSocket socketId message h = bindR (cstr message) (\<lambda>m. Inr (h_send h socketId m))"

text \<open>\<open>read(socketId, message, 1024)\<close> into the caller's buffer.\<close>

definition RecieveMessageFromSocket :: "int \<Rightarrow> byte list \<Rightarrow> 'z Host_scheme \<Rightarrow> (int \<times> byte list) res" where
  "RecieveMessageFromSocket socketId message h = (case h_recv h socketId of
     None \<Rightarrow> Inr (-1, message)
   | Some bs \<Rightarrow> bindR (fill message (take 1024 bs)) (\<lambda>message. Inr (int (length (take 1024 bs)), message)))"

section \<open>What the calls do to the descriptors\<close>

lemma first_free_le: "first_free xs \<le> length xs"
  by (induction xs rule: first_free.induct) auto

lemma first_free_None: "first_free xs < length xs \<Longrightarrow> xs ! first_free xs = None"
  by (induction xs rule: first_free.induct) auto

lemma first_free_below: "k < first_free xs \<Longrightarrow> k < length xs \<and> xs ! k \<noteq> None"
proof (induction xs arbitrary: k rule: first_free.induct)
  case (3 x xs)
  then show ?case by (cases k) auto
qed auto

lemma fd_of_new_fd:
  assumes "new_fd f h = (n, h')"
  shows "fd_of h n = None" "0 \<le> n" "fd_of h' m = (if m = n then Some f else fd_of h m)"
  using assms first_free_None [of "h_fds h"] first_free_le [of "h_fds h"]
  by (auto simp: new_fd_def fd_of_def put_free_def nth_append nth_list_update split: if_splits)

lemma new_fd_other:
  assumes "new_fd f h = (n, h')"
  shows "h_dir h' = h_dir h" "h_data h' = h_data h" "h_allow h' = h_allow h"
  using assms by (auto simp: new_fd_def)

lemma fd_of_set_fd: "fd_of h n \<noteq> None \<Longrightarrow> fd_of (set_fd n v h) m = (if m = n then v else fd_of h m)"
  by (auto simp: fd_of_def set_fd_def nth_list_update split: if_splits)

lemma set_fd_other [simp]:
  "h_dir (set_fd n v h) = h_dir h" "h_data (set_fd n v h) = h_data h" "h_allow (set_fd n v h) = h_allow h"
  by (simp_all add: set_fd_def)

lemma set_fd_twice [simp]: "set_fd n v (set_fd n u h) = set_fd n v h"
  by (simp add: set_fd_def)

lemma set_fd_data: "set_fd n v (h\<lparr>h_data := d\<rparr>) = (set_fd n v h)\<lparr>h_data := d\<rparr>"
  by (simp add: set_fd_def)

lemma fd_of_data [simp]: "fd_of (h\<lparr>h_data := d\<rparr>) n = fd_of h n" "fd_of (h\<lparr>h_dir := g\<rparr>) n = fd_of h n"
  "fd_of (h\<lparr>h_next := k\<rparr>) n = fd_of h n"
  by (simp_all add: fd_of_def)

lemma Close_eq: "fd_of h n \<noteq> None \<Longrightarrow> Close n h = Inr (0, set_fd n None h)"
  by (simp add: Close_def sys_close_def)

lemma Lseek_eq:
  "fd_of h n = Some (FileFd i w off) \<Longrightarrow> 0 \<le> pos \<Longrightarrow> Lseek n pos 0 h = Inr (set_fd n (Some (FileFd i w (nat pos))) h)"
  by (simp add: Lseek_def sys_lseek_def)

lemma ReadPartial_eq:
  assumes "fd_of h n = Some (FileFd i w off)" "0 \<le> cnt"
  shows "ReadPartial n cnt h = (let bs = take (nat cnt) (drop off (h_data h i))
    in ((int (length bs), bs), set_fd n (Some (FileFd i w (off + length bs))) h))"
  using assms by (simp add: ReadPartial_def sys_read_def)

lemma WriteFile_eq:
  assumes "fd_of h n = Some (FileFd i True off)" "0 < cnt" "cnt \<le> int (length buf)"
  shows "WriteFile n buf cnt h = Inr (set_fd n (Some (FileFd i True (off + nat cnt)))
    (h\<lparr>h_data := (h_data h)(i := splice (h_data h i) off (take (nat cnt) buf))\<rparr>))"
proof -
  have "take (nat cnt) buf \<noteq> []" using assms by auto
  moreover have "length (take (nat cnt) buf) = nat cnt" using assms by simp
  ultimately show ?thesis using assms by (simp add: WriteFile_def sys_write_def)
qed

lemma WriteFile_0: "fd_of h n = Some (FileFd i True off) \<Longrightarrow> WriteFile n buf 0 h = Inr (set_fd n (Some (FileFd i True off)) h)"
  by (simp add: WriteFile_def sys_write_def)

lemma length_splice: "length (splice d off bs) = max (length d) (off + length bs)"
  by (simp add: splice_def)

lemma splice_at: "take (length bs) (drop off (splice d off bs)) = bs"
proof -
  have "drop off (splice d off bs) = bs @ drop (off + length bs) d"
    by (simp add: splice_def)
  then show ?thesis by simp
qed

lemma splice_nth:
  "k < length (splice d off bs) \<Longrightarrow> splice d off bs ! k =
     (if k < off then (if k < length d then d ! k else 0) else if k < off + length bs then bs ! (k - off) else d ! k)"
  by (auto simp: splice_def nth_append min_def)

section \<open>Comparing names\<close>

lemma cstr_term [simp]: "0 \<notin> set nm \<Longrightarrow> cstr (nm @ 0 # rest) = Inr nm"
  by (auto simp: cstr_def takeWhile_append)

lemma cstr_no_zero: "cstr b = Inr nm \<Longrightarrow> 0 \<notin> set nm"
  by (auto simp: cstr_def split: if_splits dest: set_takeWhileD)

lemma strcmp_eq_diff:
  "(\<nexists>r. b = a @ r) \<Longrightarrow> 0 \<notin> set a \<Longrightarrow> strcmp_eq a (b @ 0 # rest) = Inr False"
proof (induction a arbitrary: b)
  case (Cons x xs)
  then show ?case by (cases b) auto
qed auto

end
