(* ===== verification/Nachos_Stub.thy ===== *)
theory Nachos_Stub
  imports Nachos_Host
begin

text \<open>
  The file system the kernel is built with: the classes \<open>OpenFile\<close> of \<open>filesys/openfile.h\<close> and \<open>FileSystem\<close> of
  \<open>filesys/filesys.h\<close> under \<open>FILESYS_STUB\<close>, which keep a table of 20 descriptors on top of the files of
  the host, and the file system calls of \<open>userprog/ksyscall.h\<close>.

  An \<open>OpenFile\<close> is owned by one slot of the table, so the table holds the objects themselves. The name of
  an open file is the array the constructor allocates, without the terminating zero it does not copy.
\<close>

section \<open>OpenFile\<close>

record OpenFile =
  of_file :: int
  currentOffset :: int
  fileName :: "byte list option"
  fileType :: int
  socketId :: int

definition OpenFile_new :: "int \<Rightarrow> OpenFile" where
  "OpenFile_new f = \<lparr>of_file = f, currentOffset = 0, fileName = None, fileType = 0, socketId = -1\<rparr>"

definition OpenFile_named :: "int \<Rightarrow> byte list \<Rightarrow> int \<Rightarrow> OpenFile res" where
  "OpenFile_named f name type =
     bindR (cstr name) (\<lambda>nm. Inr \<lparr>of_file = f, currentOffset = 0, fileName = Some nm, fileType = type, socketId = -1\<rparr>)"

definition OpenFile_delete :: "OpenFile \<Rightarrow> 'z Host_scheme \<Rightarrow> 'z Host_scheme res" where
  "OpenFile_delete f h = bindR (Close (of_file f) h) (\<lambda>(_, h). Inr h)"

definition OpenFile_ReadAt :: "OpenFile \<Rightarrow> byte list \<Rightarrow> int \<Rightarrow> int \<Rightarrow> 'z Host_scheme \<Rightarrow> (int \<times> byte list \<times> 'z Host_scheme) res" where
  "OpenFile_ReadAt f into numBytes position h =
     bindR (Lseek (of_file f) position 0 h) (\<lambda>h.
     let ((n, bs), h) = ReadPartial (of_file f) numBytes h in
     bindR (fill into bs) (\<lambda>into. Inr (n, into, h)))"

definition OpenFile_WriteAt :: "OpenFile \<Rightarrow> byte list \<Rightarrow> int \<Rightarrow> int \<Rightarrow> 'z Host_scheme \<Rightarrow> (int \<times> 'z Host_scheme) res" where
  "OpenFile_WriteAt f from numBytes position h =
     bindR (Lseek (of_file f) position 0 h) (\<lambda>h.
     bindR (WriteFile (of_file f) from numBytes h) (\<lambda>h. Inr (numBytes, h)))"

definition OpenFile_Read :: "OpenFile \<Rightarrow> byte list \<Rightarrow> int \<Rightarrow> 'z Host_scheme \<Rightarrow> (int \<times> byte list \<times> OpenFile \<times> 'z Host_scheme) res" where
  "OpenFile_Read f into numBytes h =
     bindR (OpenFile_ReadAt f into numBytes (currentOffset f) h) (\<lambda>(numRead, into, h).
     Inr (numRead, into, f\<lparr>currentOffset := currentOffset f + numRead\<rparr>, h))"

definition OpenFile_Write :: "OpenFile \<Rightarrow> byte list \<Rightarrow> int \<Rightarrow> 'z Host_scheme \<Rightarrow> (int \<times> OpenFile \<times> 'z Host_scheme) res" where
  "OpenFile_Write f from numBytes h =
     bindR (OpenFile_WriteAt f from numBytes (currentOffset f) h) (\<lambda>(numWritten, h).
     Inr (numWritten, f\<lparr>currentOffset := currentOffset f + numWritten\<rparr>, h))"

definition OpenFile_Length :: "OpenFile \<Rightarrow> 'z Host_scheme \<Rightarrow> (int \<times> 'z Host_scheme) res" where
  "OpenFile_Length f h = bindR (Lseek (of_file f) 0 2 h) (\<lambda>h. Inr (Tell (of_file f) h))"

definition OpenFile_Seek :: "OpenFile \<Rightarrow> int \<Rightarrow> int \<times> OpenFile" where
  "OpenFile_Seek f position = (position, f\<lparr>currentOffset := position\<rparr>)"

definition isSocket :: "OpenFile \<Rightarrow> bool" where
  "isSocket f \<longleftrightarrow> socketId f \<noteq> -1"

section \<open>FileSystem\<close>

definition MAX_FILE :: int where "MAX_FILE = 20"
definition plusSocketId :: int where "plusSocketId = 100"

record Stub = Host +
  fdt :: "OpenFile option list"

definition slot :: "int \<Rightarrow> 'z Stub_scheme \<Rightarrow> OpenFile option res" where
  "slot i s = aget (fdt s) i"

definition put_slot :: "int \<Rightarrow> OpenFile option \<Rightarrow> 'z Stub_scheme \<Rightarrow> 'z Stub_scheme res" where
  "put_slot i f s = bindR (aset (fdt s) i f) (\<lambda>t. Inr (s\<lparr>fdt := t\<rparr>))"

text \<open>\<open>delete fileDescriptorTable[i]; fileDescriptorTable[i] = NULL;\<close>\<close>

definition drop_slot :: "int \<Rightarrow> OpenFile \<Rightarrow> 'z Stub_scheme \<Rightarrow> 'z Stub_scheme res" where
  "drop_slot i f s = bindR (OpenFile_delete f s) (put_slot i None)"

definition FileSystem_Close :: "int \<Rightarrow> 'z Stub_scheme \<Rightarrow> (int \<times> 'z Stub_scheme) res" where
  "FileSystem_Close fileId s =
     (if fileId < 2 \<or> fileId \<ge> MAX_FILE then Inr (-1, s)
      else bindR (slot fileId s) (\<lambda>e. case e of
        Some f \<Rightarrow> bindR (drop_slot fileId f s) (\<lambda>s. Inr (0, s))
      | None \<Rightarrow> Inr (-1, s)))"

text \<open>The call of \<open>Close\<close> in \<open>Create\<close> is the one of this class: it takes the UNIX descriptor for a slot.\<close>

definition FileSystem_Create :: "byte list \<Rightarrow> 'z Stub_scheme \<Rightarrow> (bool \<times> 'z Stub_scheme) res" where
  "FileSystem_Create name s =
     bindR (OpenForWrite name s) (\<lambda>(fileDescriptor, s).
     if fileDescriptor = -1 then Inr (False, s)
     else bindR (FileSystem_Close fileDescriptor s) (\<lambda>(_, s). Inr (True, s)))"

definition FileSystem_Remove :: "byte list \<Rightarrow> 'z Stub_scheme \<Rightarrow> (bool \<times> 'z Stub_scheme) res" where
  "FileSystem_Remove name s = bindR (Unlink name s) (\<lambda>(r, s). Inr (\<not> r, s))"

definition FileSystem_Open :: "byte list \<Rightarrow> 'z Stub_scheme \<Rightarrow> (OpenFile option \<times> 'z Stub_scheme) res" where
  "FileSystem_Open name s =
     bindR (OpenForReadWrite name False s) (\<lambda>(fileDescriptor, s).
     if fileDescriptor = -1 then Inr (None, s) else Inr (Some (OpenFile_new fileDescriptor), s))"

definition FileSystem_Open_mode :: "byte list \<Rightarrow> int \<Rightarrow> 'z Stub_scheme \<Rightarrow> (OpenFile option \<times> 'z Stub_scheme) res" where
  "FileSystem_Open_mode name mode s =
     bindR (if mode = 0 then OpenForReadWrite name False s
            else if mode = 1 then OpenForRead name False s
            else Inr (0, s)) (\<lambda>(fileDescriptor, s).
     if fileDescriptor = -1 then Inr (None, s)
     else bindR (OpenFile_named fileDescriptor name mode) (\<lambda>f. Inr (Some f, s)))"

definition FileSystem_Read :: "byte list \<Rightarrow> int \<Rightarrow> int \<Rightarrow> 'z Stub_scheme \<Rightarrow> (int \<times> byte list \<times> 'z Stub_scheme) res" where
  "FileSystem_Read buffer charCount openFileId s =
     (if openFileId < 0 \<or> openFileId \<ge> 20 then Inr (-1, buffer, s)
      else bindR (slot openFileId s) (\<lambda>e. case e of
        None \<Rightarrow> Inr (-1, buffer, s)
      | Some f \<Rightarrow>
          bindR (OpenFile_Read f buffer charCount s) (\<lambda>(result, buffer, f, s).
          bindR (put_slot openFileId (Some f) s) (\<lambda>s.
          Inr (if result \<le> 0 then -1 else result, buffer, s)))))"

definition FileSystem_Write :: "byte list \<Rightarrow> int \<Rightarrow> int \<Rightarrow> 'z Stub_scheme \<Rightarrow> (int \<times> 'z Stub_scheme) res" where
  "FileSystem_Write buffer charCount openFileId s =
     (if openFileId \<ge> 20 then Inr (-1, s)
      else bindR (slot openFileId s) (\<lambda>e. case e of
        None \<Rightarrow> Inr (-1, s)
      | Some f \<Rightarrow>
          if openFileId = 1 then Inr (-1, s)
          else bindR (OpenFile_Write f buffer charCount s) (\<lambda>(result, f, s).
            bindR (put_slot openFileId (Some f) s) (\<lambda>s.
            Inr (if result \<le> 0 then -1 else result, s)))))"

text \<open>The search for a socket with the given id, from slot \<open>i\<close> on.\<close>

definition socket_name :: "int \<Rightarrow> byte list" where
  "socket_name n = map of_char ''SocketFileId'' @ dec n @ [0]"

function RemoveSocket_from :: "int \<Rightarrow> int \<Rightarrow> 'z Stub_scheme \<Rightarrow> (bool \<times> 'z Stub_scheme) res" where
  "RemoveSocket_from i fileId s =
     (if i < MAX_FILE then
        bindR (slot i s) (\<lambda>e. case e of
          Some f \<Rightarrow>
            if isSocket f \<and> socketId f = fileId
            then bindR (drop_slot i f (CloseSocket (fileId - plusSocketId) s)) (\<lambda>s.
                 bindR (FileSystem_Remove (socket_name fileId) s) (\<lambda>(_, s). Inr (True, s)))
            else RemoveSocket_from (i + 1) fileId s
        | None \<Rightarrow> RemoveSocket_from (i + 1) fileId s)
      else Inr (False, s))"
  by pat_completeness auto
termination by (relation "measure (\<lambda>(i, _, _). nat (MAX_FILE - i))") auto

declare RemoveSocket_from.simps [simp del]

definition RemoveFileDescriptor :: "int \<Rightarrow> 'z Stub_scheme \<Rightarrow> (bool \<times> 'z Stub_scheme) res" where
  "RemoveFileDescriptor fileId s =
     (if fileId > MAX_FILE \<or> fileId < 0 then RemoveSocket_from 2 fileId s
      else bindR (slot fileId s) (\<lambda>e. case e of
        Some f \<Rightarrow> bindR (drop_slot fileId f s) (\<lambda>s. Inr (True, s))
      | None \<Rightarrow> Inr (False, s)))"

definition AddToFileDescriptorTable :: "int \<Rightarrow> byte list \<Rightarrow> int \<Rightarrow> 'z Stub_scheme \<Rightarrow> (OpenFile option \<times> 'z Stub_scheme) res" where
  "AddToFileDescriptorTable index filename mode s =
     bindR (slot index s) (\<lambda>e. case e of
       None \<Rightarrow>
         bindR (FileSystem_Open_mode filename mode s) (\<lambda>(f, s).
         bindR (put_slot index f s) (\<lambda>s. Inr (f, s)))
     | Some _ \<Rightarrow> Inr (None, s))"

function EmptySlot_from :: "int \<Rightarrow> 'z Stub_scheme \<Rightarrow> int res" where
  "EmptySlot_from i s =
     (if i < MAX_FILE then bindR (slot i s) (\<lambda>e. if e = None then Inr i else EmptySlot_from (i + 1) s) else Inr (-1))"
  by pat_completeness auto
termination by (relation "measure (\<lambda>(i, _). nat (MAX_FILE - i))") auto

declare EmptySlot_from.simps [simp del]

definition GetFileDescriptorEmptySlot :: "'z Stub_scheme \<Rightarrow> int res" where
  "GetFileDescriptorEmptySlot s = EmptySlot_from 2 s"

definition GetFileDescriptorByID :: "int \<Rightarrow> 'z Stub_scheme \<Rightarrow> OpenFile option res" where
  "GetFileDescriptorByID openFileID s =
     (if openFileID < 0 \<or> openFileID \<ge> MAX_FILE then Inr None else slot openFileID s)"

function ByName_from :: "int \<Rightarrow> byte list \<Rightarrow> 'z Stub_scheme \<Rightarrow> int res" where
  "ByName_from i filename s =
     (if i < MAX_FILE then
        bindR (slot i s) (\<lambda>e. case e of
          Some f \<Rightarrow>
            bindR (case fileName f of Some nm \<Rightarrow> strcmp_eq nm filename | None \<Rightarrow> Inr False) (\<lambda>same.
            if same then Inr i else ByName_from (i + 1) filename s)
        | None \<Rightarrow> ByName_from (i + 1) filename s)
      else Inr (-1))"
  by pat_completeness auto
termination by (relation "measure (\<lambda>(i, _, _). nat (MAX_FILE - i))") auto

declare ByName_from.simps [simp del]

definition GetFileDescriptorID :: "byte list \<Rightarrow> 'z Stub_scheme \<Rightarrow> int res" where
  "GetFileDescriptorID filename s = ByName_from 0 filename s"

definition GetFileDescriptorByName :: "byte list \<Rightarrow> 'z Stub_scheme \<Rightarrow> OpenFile option res" where
  "GetFileDescriptorByName filename s =
     bindR (ByName_from 0 filename s) (\<lambda>i. if i = -1 then Inr None else slot i s)"

definition FileSystem_Seek :: "int \<Rightarrow> int \<Rightarrow> 'z Stub_scheme \<Rightarrow> (int \<times> 'z Stub_scheme) res" where
  "FileSystem_Seek pos openFileId s =
     (if openFileId \<le> 1 \<or> openFileId \<ge> 20 then Inr (-1, s)
      else bindR (slot openFileId s) (\<lambda>e. case e of
        None \<Rightarrow> Inr (-1, s)
      | Some f \<Rightarrow>
          bindR (if pos = -1 then OpenFile_Length f s else Inr (pos, s)) (\<lambda>(pos, s).
          if pos < -1 then Inr (-1, s)
          else bindR (OpenFile_Length f s) (\<lambda>(len, s).
            if pos > len then Inr (-1, s)
            else let (r, f) = OpenFile_Seek f pos in
              bindR (put_slot openFileId (Some f) s) (\<lambda>s. Inr (r, s))))))"

definition OpenNewSocket :: "'z Stub_scheme \<Rightarrow> (int \<times> 'z Stub_scheme) res" where
  "OpenNewSocket s =
     bindR (GetFileDescriptorEmptySlot s) (\<lambda>emptySlot.
     if emptySlot = -1 then Inr (-1, s)
     else
       bindR (OpenSocketTCP s) (\<lambda>(sock, s).
       let socketDescriptor = sock + plusSocketId in
       bindR (FileSystem_Create (socket_name socketDescriptor) s) (\<lambda>(_, s).
       bindR (FileSystem_Open_mode (socket_name socketDescriptor) 1 s) (\<lambda>(e, s).
       case e of
         None \<Rightarrow> Inl NullDeref
       | Some f \<Rightarrow>
           bindR (put_slot emptySlot (Some (f\<lparr>socketId := socketDescriptor\<rparr>)) s) (\<lambda>s.
           Inr (socketDescriptor, s))))))"

definition FileSystem_Connect :: "int \<Rightarrow> byte list \<Rightarrow> int \<Rightarrow> 'z Stub_scheme \<Rightarrow> int res" where
  "FileSystem_Connect socketDescriptor ip port s = ConnectSocket (socketDescriptor - plusSocketId) ip port s"

text \<open>Neither of the two loops tests whether a slot is in use before it calls \<open>isSocket\<close>.\<close>

function SendSocketMessage_from :: "int \<Rightarrow> int \<Rightarrow> byte list \<Rightarrow> int \<Rightarrow> 'z Stub_scheme \<Rightarrow> int res" where
  "SendSocketMessage_from i socketDescriptor buffer len s =
     (if i < 20 then
        bindR (slot i s) (\<lambda>e. case e of
          None \<Rightarrow> Inl NullDeref
        | Some f \<Rightarrow>
            if isSocket f \<and> socketId f = socketDescriptor
            then bindR (SendMessageToSocket (socketDescriptor - plusSocketId) buffer s) (\<lambda>result.
                 if result \<le> len then Inr result else SendSocketMessage_from (i + 1) socketDescriptor buffer len s)
            else SendSocketMessage_from (i + 1) socketDescriptor buffer len s)
      else Inr (-1))"
  by pat_completeness auto
termination by (relation "measure (\<lambda>(i, _). nat (20 - i))") auto

declare SendSocketMessage_from.simps [simp del]

definition SendSocketMessage :: "int \<Rightarrow> byte list \<Rightarrow> int \<Rightarrow> 'z Stub_scheme \<Rightarrow> int res" where
  "SendSocketMessage = SendSocketMessage_from 0"

function ReceiveSocketMessage_from :: "int \<Rightarrow> int \<Rightarrow> byte list \<Rightarrow> int \<Rightarrow> 'z Stub_scheme \<Rightarrow> (int \<times> byte list) res" where
  "ReceiveSocketMessage_from i socketDescriptor buffer len s =
     (if i < 20 then
        bindR (slot i s) (\<lambda>e. case e of
          None \<Rightarrow> Inl NullDeref
        | Some f \<Rightarrow>
            if isSocket f \<and> socketId f = socketDescriptor
            then bindR (RecieveMessageFromSocket (socketDescriptor - plusSocketId) buffer s) (\<lambda>(result, buffer).
                 if result \<le> len then Inr (result, buffer) else ReceiveSocketMessage_from (i + 1) socketDescriptor buffer len s)
            else ReceiveSocketMessage_from (i + 1) socketDescriptor buffer len s)
      else Inr (-1, buffer))"
  by pat_completeness auto
termination by (relation "measure (\<lambda>(i, _). nat (20 - i))") auto

declare ReceiveSocketMessage_from.simps [simp del]

definition ReceiveSocketMessage :: "int \<Rightarrow> byte list \<Rightarrow> int \<Rightarrow> 'z Stub_scheme \<Rightarrow> (int \<times> byte list) res" where
  "ReceiveSocketMessage = ReceiveSocketMessage_from 0"

definition ConsoleInput_name :: "byte list" where "ConsoleInput_name = map of_char ''ConsoleInput'' @ [0]"
definition ConsoleOutput_name :: "byte list" where "ConsoleOutput_name = map of_char ''ConsoleOutput'' @ [0]"

definition FileSystem_new :: "'z Stub_scheme \<Rightarrow> 'z Stub_scheme res" where
  "FileSystem_new s =
     (let s = s\<lparr>fdt := replicate (nat MAX_FILE) None\<rparr> in
      bindR (FileSystem_Create ConsoleInput_name s) (\<lambda>(_, s).
      bindR (FileSystem_Create ConsoleOutput_name s) (\<lambda>(_, s).
      bindR (FileSystem_Open_mode ConsoleInput_name 0 s) (\<lambda>(f, s).
      bindR (put_slot 0 f s) (\<lambda>s.
      bindR (FileSystem_Open_mode ConsoleOutput_name 1 s) (\<lambda>(f, s).
      put_slot 1 f s))))))"

definition FileSystem_delete :: "'z Stub_scheme \<Rightarrow> 'z Stub_scheme res" where
  "FileSystem_delete s =
     bindR (foldR (\<lambda>i s. bindR (slot i s) (\<lambda>e. case e of Some f \<Rightarrow> drop_slot i f s | None \<Rightarrow> Inr s))
              (map int [0..<nat MAX_FILE]) s) (\<lambda>s.
     bindR (FileSystem_Remove ConsoleInput_name s) (\<lambda>(_, s).
     bindR (FileSystem_Remove ConsoleOutput_name s) (\<lambda>(_, s). Inr s)))"

section \<open>userprog/ksyscall.h\<close>

definition SysCreate :: "byte list \<Rightarrow> 'z Stub_scheme \<Rightarrow> (int \<times> 'z Stub_scheme) res" where
  "SysCreate filename s =
     bindR (strlen filename) (\<lambda>fileNameLength.
     if fileNameLength = 0 then Inr (-1, s)
     else bindR (FileSystem_Create filename s) (\<lambda>(ok, s). Inr (if \<not> ok then -1 else 1, s)))"

definition SysRemove :: "byte list option \<Rightarrow> 'z Stub_scheme \<Rightarrow> (int \<times> 'z Stub_scheme) res" where
  "SysRemove name s = (case name of
     None \<Rightarrow> Inr (-1, s)
   | Some filename \<Rightarrow>
       bindR (strlen filename) (\<lambda>n.
       if n < 1 then Inr (-1, s)
       else bindR (GetFileDescriptorByName filename s) (\<lambda>fileOpening.
         if fileOpening \<noteq> None then Inr (-1, s)
         else bindR (FileSystem_Remove filename s) (\<lambda>(r, s). Inr (if r then 1 else -1, s)))))"

definition SysOpen :: "byte list option \<Rightarrow> int \<Rightarrow> 'z Stub_scheme \<Rightarrow> (int \<times> 'z Stub_scheme) res" where
  "SysOpen name type s = (case name of
     None \<Rightarrow> Inr (-1, s)
   | Some filename \<Rightarrow>
       bindR (strlen filename) (\<lambda>n.
       if n < 1 then Inr (-1, s)
       else bindR (GetFileDescriptorID filename s) (\<lambda>openFileId.
         if openFileId \<noteq> -1 then Inr (openFileId, s)
         else bindR (GetFileDescriptorEmptySlot s) (\<lambda>emptySlot.
           if emptySlot = -1 then Inr (-1, s)
           else bindR (AddToFileDescriptorTable emptySlot filename type s) (\<lambda>(f, s).
             Inr (if f \<noteq> None then emptySlot else -1, s))))))"

definition SysClose :: "int \<Rightarrow> 'z Stub_scheme \<Rightarrow> (int \<times> 'z Stub_scheme) res" where
  "SysClose openFileID s = bindR (RemoveFileDescriptor openFileID s) (\<lambda>(r, s). Inr (if r then 0 else -1, s))"

definition SysSeek :: "int \<Rightarrow> int \<Rightarrow> 'z Stub_scheme \<Rightarrow> (int \<times> 'z Stub_scheme) res" where
  "SysSeek pos openFileId s =
     (if openFileId = 0 \<or> openFileId = 1 then Inr (-1, s)
      else if openFileId < 0 \<or> openFileId \<ge> MAX_FILE then Inr (-1, s)
      else bindR (GetFileDescriptorByID openFileId s) (\<lambda>e.
        if e = None then Inr (-1, s) else FileSystem_Seek pos openFileId s))"

section \<open>The descriptor table\<close>

text \<open>
  Every object of the table has a descriptor of its own, open for writing unless the file was opened
  read-only; a socket object also has its socket. Offsets can be \<open>-1\<close>: \<open>Read\<close> adds the error result
  of \<open>read\<close> to the offset.
\<close>

definition file_ok :: "'z Host_scheme \<Rightarrow> OpenFile \<Rightarrow> bool" where
  "file_ok s f \<longleftrightarrow> (\<exists>i w off. fd_of s (of_file f) = Some (FileFd i w off) \<and> (fileType f = 0 \<longrightarrow> w)) \<and> -1 \<le> currentOffset f \<and>
     (\<forall>nm. fileName f = Some nm \<longrightarrow> 0 \<notin> set nm) \<and>
     (isSocket f \<longrightarrow> fd_of s (socketId f - plusSocketId) = Some SockFd)"

definition Stub_ok :: "'z Stub_scheme \<Rightarrow> bool" where
  "Stub_ok s \<longleftrightarrow> length (fdt s) = 20 \<and> (\<forall>i<20. \<forall>f. fdt s ! i = Some f \<longrightarrow> file_ok s f) \<and>
     (\<forall>i<20. \<forall>j<20. \<forall>f g. i \<noteq> j \<longrightarrow> fdt s ! i = Some f \<longrightarrow> fdt s ! j = Some g \<longrightarrow>
        of_file f \<noteq> of_file g \<and> (isSocket f \<longrightarrow> socketId f \<noteq> socketId g))"

lemma Stub_ok_len: "Stub_ok s \<Longrightarrow> length (fdt s) = 20"
  by (simp add: Stub_ok_def)

lemma Stub_ok_file: "Stub_ok s \<Longrightarrow> fdt s ! i = Some f \<Longrightarrow> i < 20 \<Longrightarrow> file_ok s f"
  unfolding Stub_ok_def by blast

lemma Stub_ok_distinct:
  "Stub_ok s \<Longrightarrow> fdt s ! i = Some f \<Longrightarrow> fdt s ! j = Some g \<Longrightarrow> i < 20 \<Longrightarrow> j < 20 \<Longrightarrow> i \<noteq> j \<Longrightarrow>
    of_file f \<noteq> of_file g \<and> (isSocket f \<longrightarrow> socketId f \<noteq> socketId g)"
  unfolding Stub_ok_def by blast

lemma file_ok_fd: "file_ok s f \<Longrightarrow> \<exists>i w off. fd_of s (of_file f) = Some (FileFd i w off) \<and> (fileType f = 0 \<longrightarrow> w)"
  by (simp add: file_ok_def)

lemma Stub_ok_fd:
  "Stub_ok s \<Longrightarrow> fdt s ! nat i = Some f \<Longrightarrow> i < 20 \<Longrightarrow>
    \<exists>a w off. fd_of s (of_file f) = Some (FileFd a w off) \<and> (fileType f = 0 \<longrightarrow> w)"
  using file_ok_fd Stub_ok_file by (metis nat_less_eq_zless nat_numeral zero_less_numeral zless_nat_conj)

lemma slot_eq: "Stub_ok s \<Longrightarrow> 0 \<le> i \<Longrightarrow> i < 20 \<Longrightarrow> slot i s = Inr (fdt s ! nat i)"
  by (simp add: slot_def Stub_ok_len)

lemma slot_Inr: "slot i s = Inr e \<Longrightarrow> Stub_ok s \<Longrightarrow> 0 \<le> i \<and> i < 20 \<and> fdt s ! nat i = e"
  by (auto simp: slot_def aget_def Stub_ok_len split: if_splits)

lemma put_slot_eq: "Stub_ok s \<Longrightarrow> 0 \<le> i \<Longrightarrow> i < 20 \<Longrightarrow> put_slot i v s = Inr (s\<lparr>fdt := (fdt s)[nat i := v]\<rparr>)"
  by (simp add: put_slot_def Stub_ok_len)

lemma fd_of_fdt [simp]: "fd_of (s\<lparr>fdt := t\<rparr>) n = fd_of s n"
  by (simp add: fd_of_def)

lemma fdt_set_fd [simp]: "fdt (set_fd n v s) = fdt s"
  by (simp add: set_fd_def)

lemma fdt_new_fd: "new_fd f s = (k, s') \<Longrightarrow> fdt s' = fdt s"
  by (auto simp: new_fd_def)

text \<open>What may happen to the descriptors without breaking the table: those it uses keep their kind.\<close>

definition fd_kind :: "fd \<Rightarrow> fd" where
  "fd_kind d = (case d of FileFd i w off \<Rightarrow> FileFd i w 0 | SockFd \<Rightarrow> SockFd)"

lemma fd_kind_simps [simp]: "fd_kind (FileFd i w off) = FileFd i w 0" "fd_kind SockFd = SockFd"
  by (simp_all add: fd_kind_def)

lemma fd_kind_File: "fd_kind d = FileFd i w k \<longleftrightarrow> k = 0 \<and> (\<exists>off. d = FileFd i w off)"
  by (cases d) auto

lemma fd_kind_Sock [simp]: "fd_kind d = SockFd \<longleftrightarrow> d = SockFd"
  by (cases d) auto

definition keeps_fds :: "'z Host_scheme \<Rightarrow> 'z Host_scheme \<Rightarrow> bool" where
  "keeps_fds s s' \<longleftrightarrow> (\<forall>n d. fd_of s n = Some d \<longrightarrow> (\<exists>d'. fd_of s' n = Some d' \<and> fd_kind d' = fd_kind d))"

lemma keeps_fds_File: "keeps_fds s s' \<Longrightarrow> fd_of s n = Some (FileFd i w off) \<Longrightarrow> \<exists>off'. fd_of s' n = Some (FileFd i w off')"
  unfolding keeps_fds_def by (drule spec [of _ n]) (auto simp: fd_kind_File)

lemma keeps_fds_Sock: "keeps_fds s s' \<Longrightarrow> fd_of s n = Some SockFd \<Longrightarrow> fd_of s' n = Some SockFd"
  unfolding keeps_fds_def by (drule spec [of _ n]) auto

lemma file_ok_keeps: "file_ok s f \<Longrightarrow> keeps_fds s s' \<Longrightarrow> file_ok s' f"
proof -
  assume f: "file_ok s f" and k: "keeps_fds s s'"
  then obtain i w off where w: "fd_of s (of_file f) = Some (FileFd i w off)" "fileType f = 0 \<longrightarrow> w" unfolding file_ok_def by blast
  then have "\<exists>i w off. fd_of s' (of_file f) = Some (FileFd i w off) \<and> (fileType f = 0 \<longrightarrow> w)" using keeps_fds_File [OF k w(1)] by blast
  then show ?thesis using f keeps_fds_Sock [OF k] by (simp add: file_ok_def)
qed

lemma Stub_ok_keeps:
  assumes ok: "Stub_ok s" and k: "keeps_fds s s'" and t: "fdt s' = fdt s"
  shows "Stub_ok s'"
  unfolding Stub_ok_def t
proof (intro conjI allI impI)
  show "length (fdt s) = 20" by (rule Stub_ok_len [OF ok])
next
  fix i f assume "i < 20" "fdt s ! i = Some f"
  then show "file_ok s' f" using file_ok_keeps [OF Stub_ok_file [OF ok] k] by blast
next
  fix i j f g assume "i < 20" "j < 20" "i \<noteq> j" "fdt s ! i = Some f" "fdt s ! j = Some g"
  then show "of_file f \<noteq> of_file g" "isSocket f \<Longrightarrow> socketId f \<noteq> socketId g"
    using Stub_ok_distinct [OF ok] by blast+
qed

lemma keeps_fds_refl [simp]: "keeps_fds s s"
  by (simp add: keeps_fds_def)

lemma keeps_fds_trans: "keeps_fds s s' \<Longrightarrow> keeps_fds s' s'' \<Longrightarrow> keeps_fds s s''"
  unfolding keeps_fds_def by metis

lemma keeps_fds_set: "fd_of s n = Some d \<Longrightarrow> fd_kind d' = fd_kind d \<Longrightarrow> keeps_fds s (set_fd n (Some d') s)"
  by (simp add: keeps_fds_def fd_of_set_fd)

lemma keeps_fds_new: "new_fd f s = (n, s') \<Longrightarrow> keeps_fds s s'"
  using fd_of_new_fd [of f s n s'] by (fastforce simp: keeps_fds_def)

lemma keeps_fds_data [simp]: "keeps_fds s (s'\<lparr>h_data := d\<rparr>) = keeps_fds s s'" "keeps_fds s (s'\<lparr>h_dir := g\<rparr>) = keeps_fds s s'"
  "keeps_fds s (s'\<lparr>h_next := k\<rparr>) = keeps_fds s s'" "keeps_fds (s\<lparr>h_data := d\<rparr>) s' = keeps_fds s s'"
  "keeps_fds (s\<lparr>h_dir := g\<rparr>) s' = keeps_fds s s'" "keeps_fds (s\<lparr>h_next := k\<rparr>) s' = keeps_fds s s'"
  by (simp_all add: keeps_fds_def)

text \<open>Filling and clearing slots.\<close>

lemma Stub_ok_put:
  assumes ok: "Stub_ok s" and i: "i < 20" and f: "file_ok s f"
    and d: "\<And>j g. j < 20 \<Longrightarrow> j \<noteq> i \<Longrightarrow> fdt s ! j = Some g \<Longrightarrow> of_file g \<noteq> of_file f \<and> (isSocket f \<longrightarrow> socketId g \<noteq> socketId f)"
  shows "Stub_ok (s\<lparr>fdt := (fdt s)[i := Some f]\<rparr>)"
proof -
  have fo: "file_ok (s\<lparr>fdt := t\<rparr>) g = file_ok s g" for t g by (simp add: file_ok_def)
  have soc: "isSocket g \<Longrightarrow> socketId g = socketId f \<Longrightarrow> isSocket f" for g by (simp add: isSocket_def)
  let ?t = "(fdt s)[i := Some f]"
  have nth: "?t ! j = (if j = i then Some f else fdt s ! j)" if "j < 20" for j
    using that i Stub_ok_len [OF ok] by (simp add: nth_list_update)
  show ?thesis unfolding Stub_ok_def fo
  proof (intro conjI allI impI)
    show "length (fdt (s\<lparr>fdt := ?t\<rparr>)) = 20" using Stub_ok_len [OF ok] by simp
  next
    fix j g assume "j < 20" "fdt (s\<lparr>fdt := ?t\<rparr>) ! j = Some g"
    then show "file_ok s g" using f Stub_ok_file [OF ok] by (auto simp: nth split: if_splits)
  next
    fix j k g h assume a: "j < 20" "k < 20" "j \<noteq> k" "fdt (s\<lparr>fdt := ?t\<rparr>) ! j = Some g" "fdt (s\<lparr>fdt := ?t\<rparr>) ! k = Some h"
    have g: "(if j = i then Some f else fdt s ! j) = Some g" and h: "(if k = i then Some f else fdt s ! k) = Some h"
      using a(4,5) nth [OF a(1)] nth [OF a(2)] by simp_all
    have "of_file g \<noteq> of_file h \<and> (isSocket g \<longrightarrow> socketId g \<noteq> socketId h)"
    proof (cases "j = i")
      case True
      then have "g = f" "k \<noteq> i" "fdt s ! k = Some h" using g h a(3) by (simp_all split: if_splits)
      then show ?thesis using d [OF a(2), of h] by metis
    next
      case False
      show ?thesis
      proof (cases "k = i")
        case True
        then show ?thesis using d [of j g] soc [of g] a(1) False g h by auto
      next
        case k: False
        show ?thesis by (rule Stub_ok_distinct [OF ok _ _ a(1-3)]) (use g h False k in simp_all)
      qed
    qed
    then show "of_file g \<noteq> of_file h" "isSocket g \<Longrightarrow> socketId g \<noteq> socketId h" by simp_all
  qed
qed

lemma Stub_ok_drop:
  assumes ok: "Stub_ok s" and i: "i < 20" "fdt s ! i = Some f"
  shows "Stub_ok ((set_fd (of_file f) None s)\<lparr>fdt := (fdt s)[i := None]\<rparr>)"
proof -
  let ?s = "(set_fd (of_file f) None s)\<lparr>fdt := (fdt s)[i := None]\<rparr>"
  obtain a w off where fd: "fd_of s (of_file f) = Some (FileFd a w off)" using Stub_ok_file [OF ok i(2,1)] by (auto simp: file_ok_def)
  have g: "file_ok ?s g" if "j < 20" "j \<noteq> i" "fdt s ! j = Some g" for j g
  proof -
    have "of_file g \<noteq> of_file f" using Stub_ok_distinct [OF ok that(3) i(2) that(1) i(1) that(2)] by simp
    moreover have "isSocket g \<Longrightarrow> socketId g - plusSocketId \<noteq> of_file f"
      using Stub_ok_file [OF ok that(3,1)] fd by (auto simp: file_ok_def)
    ultimately show ?thesis using Stub_ok_file [OF ok that(3,1)] fd by (simp add: file_ok_def fd_of_set_fd)
  qed
  show ?thesis unfolding Stub_ok_def
  proof (intro conjI allI impI)
    show "length (fdt ?s) = 20" using Stub_ok_len [OF ok] by simp
  next
    fix j h assume a: "j < 20" "fdt ?s ! j = Some h"
    then have "j \<noteq> i" "fdt s ! j = Some h" using Stub_ok_len [OF ok] i(1) by (auto simp: nth_list_update split: if_splits)
    then show "file_ok ?s h" by (rule g [OF a(1)])
  next
    fix j k h h' assume a: "j < 20" "k < 20" "j \<noteq> k" "fdt ?s ! j = Some h" "fdt ?s ! k = Some h'"
    then have b: "fdt s ! j = Some h" "fdt s ! k = Some h'"
      using Stub_ok_len [OF ok] i(1) by (auto simp: nth_list_update split: if_splits)
    then show "of_file h \<noteq> of_file h'" "isSocket h \<Longrightarrow> socketId h \<noteq> socketId h'"
      using Stub_ok_distinct [OF ok b] a(1-3) by simp_all
  qed
qed

lemma drop_slot_eq:
  assumes ok: "Stub_ok s" and i: "0 \<le> i" "i < 20" "fdt s ! nat i = Some f"
  shows "drop_slot i f s = Inr ((set_fd (of_file f) None s)\<lparr>fdt := (fdt s)[nat i := None]\<rparr>)"
proof -
  obtain a w off where fd: "fd_of s (of_file f) = Some (FileFd a w off)" using Stub_ok_fd [OF ok i(3,2)] by blast
  have "length (fdt (set_fd (of_file f) None s)) = 20" using Stub_ok_len [OF ok] by simp
  then show ?thesis using fd i by (simp add: drop_slot_def OpenFile_delete_def Close_eq put_slot_def)
qed

lemma drop_slot_ok: "Stub_ok s \<Longrightarrow> 0 \<le> i \<Longrightarrow> i < 20 \<Longrightarrow> fdt s ! nat i = Some f \<Longrightarrow> \<exists>s'. drop_slot i f s = Inr s' \<and> Stub_ok s'"
  using Stub_ok_drop [of s "nat i" f] by (simp add: drop_slot_eq)

section \<open>Reading, writing, seeking\<close>

lemma OpenFile_ReadAt_eq:
  assumes "fd_of s (of_file f) = Some (FileFd a w off)"
  shows "OpenFile_ReadAt f into cnt pos s =
    (if pos < 0 then Inl AssertFailed
     else if cnt < 0 then Inr (-1, into, set_fd (of_file f) (Some (FileFd a w (nat pos))) s)
     else let bs = take (nat cnt) (drop (nat pos) (h_data s a)) in
       if length bs \<le> length into
       then Inr (int (length bs), bs @ drop (length bs) into, set_fd (of_file f) (Some (FileFd a w (nat pos + length bs))) s)
       else Inl OutOfBounds)"
proof (cases "pos < 0")
  case True
  then show ?thesis using assms by (simp add: OpenFile_ReadAt_def Lseek_def sys_lseek_def)
next
  case False
  let ?s = "set_fd (of_file f) (Some (FileFd a w (nat pos))) s"
  have l: "Lseek (of_file f) pos 0 s = Inr ?s" using Lseek_eq [OF assms] False by simp
  have fd: "fd_of ?s (of_file f) = Some (FileFd a w (nat pos))" using assms by (simp add: fd_of_set_fd)
  show ?thesis
  proof (cases "cnt < 0")
    case True
    then show ?thesis using False l fd by (simp add: OpenFile_ReadAt_def ReadPartial_def sys_read_def fill_def)
  next
    case c: False
    then show ?thesis using False l ReadPartial_eq [OF fd, of cnt] by (simp add: OpenFile_ReadAt_def fill_def Let_def)
  qed
qed

lemma OpenFile_WriteAt_eq:
  assumes fd: "fd_of s (of_file f) = Some (FileFd a w off)"
  shows "OpenFile_WriteAt f from cnt pos s =
    (if pos < 0 then Inl AssertFailed
     else if cnt > int (length from) then Inl OutOfBounds
     else if cnt < -1 \<or> cnt \<noteq> -1 \<and> \<not> w then Inl AssertFailed
     else if cnt \<le> 0 then Inr (cnt, set_fd (of_file f) (Some (FileFd a w (nat pos))) s)
     else Inr (cnt, set_fd (of_file f) (Some (FileFd a w (nat pos + nat cnt)))
       (s\<lparr>h_data := (h_data s)(a := splice (h_data s a) (nat pos) (take (nat cnt) from))\<rparr>)))"
proof (cases "pos < 0")
  case True
  then show ?thesis using fd by (simp add: OpenFile_WriteAt_def Lseek_def sys_lseek_def)
next
  case False
  let ?s = "set_fd (of_file f) (Some (FileFd a w (nat pos))) s"
  have l: "Lseek (of_file f) pos 0 s = Inr ?s" using Lseek_eq [OF fd] False by simp
  have fd': "fd_of ?s (of_file f) = Some (FileFd a w (nat pos))" using fd by (simp add: fd_of_set_fd)
  consider "cnt > int (length from)" | "cnt < 0" "cnt \<le> int (length from)" | "cnt = 0" | "0 < cnt" "cnt \<le> int (length from)" by linarith
  then show ?thesis
  proof cases
    case 1
    then show ?thesis using False l by (simp add: OpenFile_WriteAt_def WriteFile_def)
  next
    case 2
    then show ?thesis using False l by (auto simp: OpenFile_WriteAt_def WriteFile_def)
  next
    case 3
    then show ?thesis using False l fd' WriteFile_0 [of ?s "of_file f" a "nat pos" "from"]
      by (cases w) (simp_all add: OpenFile_WriteAt_def WriteFile_def sys_write_def)
  next
    case 4
    then show ?thesis using False l fd' WriteFile_eq [of ?s "of_file f" a "nat pos" cnt "from"]
      by (cases w) (simp_all add: OpenFile_WriteAt_def WriteFile_def sys_write_def set_fd_data)
  qed
qed

text \<open>An operation on an open file moves its descriptor and its offset and may change the contents of files.\<close>

definition moved :: "nat \<Rightarrow> OpenFile \<Rightarrow> fd \<Rightarrow> (nat \<Rightarrow> byte list) \<Rightarrow> int \<Rightarrow> 'z Stub_scheme \<Rightarrow> 'z Stub_scheme" where
  "moved i f d data c s =
     (set_fd (of_file f) (Some d) (s\<lparr>h_data := data\<rparr>))\<lparr>fdt := (fdt s)[i := Some (f\<lparr>currentOffset := c\<rparr>)]\<rparr>"

lemma moved_ok:
  assumes ok: "Stub_ok s" and i: "i < 20" "fdt s ! i = Some f" and fd: "fd_of s (of_file f) = Some d0" "fd_kind d = fd_kind d0"
    and c: "-1 \<le> c"
  shows "Stub_ok (moved i f d data c s)"
proof -
  let ?s = "set_fd (of_file f) (Some d) (s\<lparr>h_data := data\<rparr>)"
  have k: "keeps_fds s ?s" using keeps_fds_set [of "s\<lparr>h_data := data\<rparr>" "of_file f" d0 d] fd by simp
  have ok': "Stub_ok ?s" by (rule Stub_ok_keeps [OF ok k]) simp
  have "file_ok ?s f" by (rule file_ok_keeps [OF Stub_ok_file [OF ok i(2,1)] k])
  then have "file_ok ?s (f\<lparr>currentOffset := c\<rparr>)" using c by (simp add: file_ok_def isSocket_def)
  then have "Stub_ok (?s\<lparr>fdt := (fdt ?s)[i := Some (f\<lparr>currentOffset := c\<rparr>)]\<rparr>)"
  proof (rule Stub_ok_put [OF ok' i(1)])
    fix j g assume "j < 20" "j \<noteq> i" "fdt ?s ! j = Some g"
    then have "of_file g \<noteq> of_file f \<and> (isSocket g \<longrightarrow> socketId g \<noteq> socketId f)"
      using Stub_ok_distinct [OF ok, of j g i f] i by simp
    then show "of_file g \<noteq> of_file (f\<lparr>currentOffset := c\<rparr>) \<and>
        (isSocket (f\<lparr>currentOffset := c\<rparr>) \<longrightarrow> socketId g \<noteq> socketId (f\<lparr>currentOffset := c\<rparr>))"
      by (auto simp: isSocket_def)
  qed
  then show ?thesis by (simp add: moved_def)
qed

lemma put_slot_moved:
  "Stub_ok s \<Longrightarrow> 0 \<le> i \<Longrightarrow> i < 20 \<Longrightarrow>
    put_slot i (Some (f\<lparr>currentOffset := c\<rparr>)) (set_fd (of_file f) (Some d) (s\<lparr>h_data := data\<rparr>)) = Inr (moved (nat i) f d data c s)"
  by (simp add: put_slot_def moved_def Stub_ok_len)

lemma put_slot_moved':
  "Stub_ok s \<Longrightarrow> 0 \<le> i \<Longrightarrow> i < 20 \<Longrightarrow>
    put_slot i (Some (f\<lparr>currentOffset := c\<rparr>)) (set_fd (of_file f) (Some d) s) = Inr (moved (nat i) f d (h_data s) c s)"
proof -
  assume "Stub_ok s" "0 \<le> i" "i < 20"
  moreover have "s\<lparr>h_data := h_data s\<rparr> = s" by (cases s) simp
  ultimately show ?thesis using put_slot_moved [where s = s and i = i and f = f and c = c and d = d and data = "h_data s"] by simp
qed

lemma FileSystem_Read_eq:
  assumes ok: "Stub_ok s" and i: "0 \<le> n" "n < 20" "fdt s ! nat n = Some f" and fd: "fd_of s (of_file f) = Some (FileFd a w off)"
  shows "FileSystem_Read buffer cnt n s =
    (if currentOffset f < 0 then Inl AssertFailed
     else if cnt < 0 then Inr (-1, buffer, moved (nat n) f (FileFd a w (nat (currentOffset f))) (h_data s) (currentOffset f - 1) s)
     else let bs = take (nat cnt) (drop (nat (currentOffset f)) (h_data s a)) in
       if length bs \<le> length buffer
       then Inr (if bs = [] then -1 else int (length bs), bs @ drop (length bs) buffer,
         moved (nat n) f (FileFd a w (nat (currentOffset f) + length bs)) (h_data s) (currentOffset f + int (length bs)) s)
       else Inl OutOfBounds)"
proof -
  have l: "length (fdt s) = 20" by (rule Stub_ok_len [OF ok])
  have sl: "slot n s = Inr (Some f)" using slot_eq [OF ok i(1,2)] i(3) by simp
  consider "currentOffset f < 0" | "0 \<le> currentOffset f" "cnt < 0" | "0 \<le> currentOffset f" "0 \<le> cnt" by linarith
  then show ?thesis
  proof cases
    case 1
    then show ?thesis using sl i by (simp add: FileSystem_Read_def OpenFile_Read_def OpenFile_ReadAt_eq [OF fd])
  next
    case 2
    then show ?thesis using sl i put_slot_moved' [OF ok i(1,2), where f = f and c = "currentOffset f - 1"]
      by (simp add: FileSystem_Read_def OpenFile_Read_def OpenFile_ReadAt_eq [OF fd])
  next
    case 3
    let ?bs = "take (nat cnt) (drop (nat (currentOffset f)) (h_data s a))"
    have p: "put_slot n (Some (f\<lparr>currentOffset := currentOffset f + int (length ?bs)\<rparr>))
        (set_fd (of_file f) (Some (FileFd a w (nat (currentOffset f) + length ?bs))) s) =
      Inr (moved (nat n) f (FileFd a w (nat (currentOffset f) + length ?bs)) (h_data s) (currentOffset f + int (length ?bs)) s)"
      by (rule put_slot_moved' [OF ok i(1,2)])
    have r: "OpenFile_Read f buffer cnt s = (if length ?bs \<le> length buffer
       then Inr (int (length ?bs), ?bs @ drop (length ?bs) buffer, f\<lparr>currentOffset := currentOffset f + int (length ?bs)\<rparr>,
            set_fd (of_file f) (Some (FileFd a w (nat (currentOffset f) + length ?bs))) s) else Inl OutOfBounds)"
      using 3 by (simp add: OpenFile_Read_def OpenFile_ReadAt_eq [OF fd] Let_def del: length_take length_drop)
    show ?thesis unfolding FileSystem_Read_def sl Let_def using 3 i
      by (simp add: r p del: length_take length_drop)
  qed
qed

lemma FileSystem_Write_eq:
  assumes ok: "Stub_ok s" and i: "0 \<le> n" "n < 20" "n \<noteq> 1" "fdt s ! nat n = Some f" and fd: "fd_of s (of_file f) = Some (FileFd a w off)"
  shows "FileSystem_Write buffer cnt n s =
    (if currentOffset f < 0 then Inl AssertFailed
     else if cnt > int (length buffer) then Inl OutOfBounds
     else if cnt < -1 \<or> cnt \<noteq> -1 \<and> \<not> w then Inl AssertFailed
     else if cnt \<le> 0 then Inr (-1, moved (nat n) f (FileFd a w (nat (currentOffset f))) (h_data s) (currentOffset f + cnt) s)
     else Inr (cnt, moved (nat n) f (FileFd a w (nat (currentOffset f) + nat cnt))
       ((h_data s)(a := splice (h_data s a) (nat (currentOffset f)) (take (nat cnt) buffer))) (currentOffset f + cnt) s))"
proof -
  have sl: "slot n s = Inr (Some f)" using slot_eq [OF ok i(1,2)] i(4) by simp
  note put = put_slot_moved [OF ok i(1,2)] put_slot_moved' [OF ok i(1,2)]
  show ?thesis
    using i by (simp add: FileSystem_Write_def sl OpenFile_Write_def OpenFile_WriteAt_eq [OF fd] put)
qed

lemma OpenFile_Length_eq:
  assumes fd: "fd_of s (of_file f) = Some (FileFd a w off)"
  shows "OpenFile_Length f s = Inr (int (length (h_data s a)), set_fd (of_file f) (Some (FileFd a w (length (h_data s a)))) s)"
  using fd by (simp add: OpenFile_Length_def Lseek_def Tell_def sys_lseek_def fd_of_set_fd)

lemma FileSystem_Seek_eq:
  assumes ok: "Stub_ok s" and i: "1 < n" "n < 20" "fdt s ! nat n = Some f" and fd: "fd_of s (of_file f) = Some (FileFd a w off)"
  shows "FileSystem_Seek pos n s =
    (let end = int (length (h_data s a)); p = (if pos = -1 then end else pos) in
     if p < -1 then Inr (-1, s)
     else if p > end then Inr (-1, set_fd (of_file f) (Some (FileFd a w (length (h_data s a)))) s)
     else Inr (p, moved (nat n) f (FileFd a w (length (h_data s a))) (h_data s) p s))"
proof -
  let ?s = "set_fd (of_file f) (Some (FileFd a w (length (h_data s a)))) s"
  have sl: "slot n s = Inr (Some f)" using slot_eq [OF ok _ i(2)] i(1,3) by simp
  have fd': "fd_of ?s (of_file f) = Some (FileFd a w (length (h_data s a)))" using fd by (simp add: fd_of_set_fd)
  have len: "OpenFile_Length f s = Inr (int (length (h_data s a)), ?s)" "OpenFile_Length f ?s = Inr (int (length (h_data s a)), ?s)"
    using OpenFile_Length_eq [OF fd] OpenFile_Length_eq [OF fd'] by simp_all
  have put: "put_slot n (Some (f\<lparr>currentOffset := p\<rparr>)) ?s =
      Inr (moved (nat n) f (FileFd a w (length (h_data s a))) (h_data s) p s)" for p
    using put_slot_moved' [OF ok, where i = n] i by simp
  show ?thesis using i by (simp add: FileSystem_Seek_def sl len OpenFile_Seek_def put Let_def)
qed

section \<open>The table stays consistent\<close>

lemma FileSystem_Read_ok: "Stub_ok s \<Longrightarrow> FileSystem_Read buffer cnt n s = Inr (r, b, s') \<Longrightarrow> Stub_ok s'"
proof -
  assume ok: "Stub_ok s" and r: "FileSystem_Read buffer cnt n s = Inr (r, b, s')"
  show ?thesis
  proof (cases "0 \<le> n \<and> n < 20 \<and> fdt s ! nat n \<noteq> None")
    case True
    then obtain f where i: "0 \<le> n" "n < 20" "fdt s ! nat n = Some f" by blast
    then obtain a w off where fd: "fd_of s (of_file f) = Some (FileFd a w off)" using Stub_ok_fd [OF ok i(3,2)] by blast
    have m: "Stub_ok (moved (nat n) f (FileFd a w off') d c s)" if "-1 \<le> c" for off' d c
      using moved_ok [OF ok _ i(3) fd _ that] i by simp
    show ?thesis using r m unfolding FileSystem_Read_eq [OF ok i fd] by (auto simp: Let_def split: if_splits)
  next
    case False
    then show ?thesis using r ok slot_eq [OF ok, of n] by (auto simp: FileSystem_Read_def split: if_splits)
  qed
qed

lemma FileSystem_Write_ok: "Stub_ok s \<Longrightarrow> FileSystem_Write buffer cnt n s = Inr (r, s') \<Longrightarrow> Stub_ok s'"
proof -
  assume ok: "Stub_ok s" and r: "FileSystem_Write buffer cnt n s = Inr (r, s')"
  show ?thesis
  proof (cases "0 \<le> n \<and> n < 20 \<and> n \<noteq> 1 \<and> fdt s ! nat n \<noteq> None")
    case True
    then obtain f where i: "0 \<le> n" "n < 20" "n \<noteq> 1" "fdt s ! nat n = Some f" by blast
    then obtain a w off where fd: "fd_of s (of_file f) = Some (FileFd a w off)" using Stub_ok_fd [OF ok i(4,2)] by blast
    have m: "Stub_ok (moved (nat n) f (FileFd a w off') d c s)" if "-1 \<le> c" for off' d c
      using moved_ok [OF ok _ i(4) fd _ that] i by simp
    show ?thesis using r m unfolding FileSystem_Write_eq [OF ok i fd] by (auto split: if_splits)
  next
    case False
    then show ?thesis using r ok slot_Inr [OF _ ok, of n]
      by (auto simp: FileSystem_Write_def bindR_eq_Inr split: if_splits option.splits)
  qed
qed

lemma FileSystem_Seek_ok: "Stub_ok s \<Longrightarrow> FileSystem_Seek pos n s = Inr (r, s') \<Longrightarrow> Stub_ok s'"
proof -
  assume ok: "Stub_ok s" and r: "FileSystem_Seek pos n s = Inr (r, s')"
  show ?thesis
  proof (cases "1 < n \<and> n < 20 \<and> fdt s ! nat n \<noteq> None")
    case True
    then obtain f where i: "1 < n" "n < 20" "fdt s ! nat n = Some f" by blast
    then obtain a w off where fd: "fd_of s (of_file f) = Some (FileFd a w off)" using Stub_ok_fd [OF ok i(3,2)] by blast
    have m: "Stub_ok (moved (nat n) f (FileFd a w off') d c s)" if "-1 \<le> c" for off' d c
      using moved_ok [OF ok _ i(3) fd _ that] i by simp
    have k: "Stub_ok (set_fd (of_file f) (Some (FileFd a w k)) s)" for k
      by (rule Stub_ok_keeps [OF ok keeps_fds_set [OF fd]]) simp_all
    show ?thesis using r m k ok unfolding FileSystem_Seek_eq [OF ok i fd] by (auto simp: Let_def split: if_splits)
  next
    case False
    then show ?thesis using r ok slot_eq [OF ok, of n] by (auto simp: FileSystem_Seek_def split: if_splits)
  qed
qed

lemma FileSystem_Close_cases:
  assumes ok: "Stub_ok s"
  shows "FileSystem_Close n s =
    (if 2 \<le> n \<and> n < 20 \<and> fdt s ! nat n \<noteq> None
     then Inr (0, (set_fd (of_file (the (fdt s ! nat n))) None s)\<lparr>fdt := (fdt s)[nat n := None]\<rparr>) else Inr (-1, s))"
  using slot_eq [OF ok, of n] drop_slot_eq [OF ok, of n] by (auto simp: FileSystem_Close_def MAX_FILE_def split: option.split)

lemma FileSystem_Close_ok: "Stub_ok s \<Longrightarrow> \<exists>r s'. FileSystem_Close n s = Inr (r, s') \<and> Stub_ok s'"
  using Stub_ok_drop [of s "nat n"] by (auto simp: FileSystem_Close_cases)

lemma sys_open_cases:
  assumes "sys_open nm c w s = (n, s')"
  shows "n = -1 \<and> s' = s \<or> 0 \<le> n \<and> fd_of s n = None \<and> keeps_fds s s' \<and> fdt s' = fdt s \<and> (\<exists>a. fd_of s' n = Some (FileFd a w 0))"
proof -
  consider "n = -1" "s' = s" | a t where "new_fd (FileFd a w 0) t = (n, s')" "fdt t = fdt s" "\<forall>k. fd_of t k = fd_of s k"
    using assms unfolding sys_open_def by (fastforce split: if_splits option.splits)
  then show ?thesis
  proof cases
    case 2
    have "keeps_fds s s'" using keeps_fds_new [OF 2(1)] 2(3) by (simp add: keeps_fds_def)
    moreover have "fdt s' = fdt s" using fdt_new_fd [OF 2(1)] 2(2) by simp
    ultimately show ?thesis using fd_of_new_fd [OF 2(1)] 2(3) by auto
  qed simp
qed

lemma OpenForWrite_Inr:
  "OpenForWrite name s = Inr (n, s') \<Longrightarrow> 0 \<le> n \<and> fd_of s n = None \<and> keeps_fds s s' \<and> fdt s' = fdt s \<and> (\<exists>a. fd_of s' n = Some (FileFd a True 0))"
proof -
  assume "OpenForWrite name s = Inr (n, s')"
  then obtain nm where "sys_open nm True True s = (n, s')" "0 \<le> n"
    by (auto simp: OpenForWrite_def bindR_eq_Inr Let_def case_prod_beta prod_eq_iff split: if_splits)
  then show ?thesis using sys_open_cases [of nm True True s n s'] by auto
qed

lemma FileSystem_Create_ok: "Stub_ok s \<Longrightarrow> FileSystem_Create name s = Inr (r, s') \<Longrightarrow> r \<and> Stub_ok s'"
proof -
  assume ok: "Stub_ok s" and c: "FileSystem_Create name s = Inr (r, s')"
  then obtain n s1 where o: "OpenForWrite name s = Inr (n, s1)" by (auto simp: FileSystem_Create_def bindR_eq_Inr)
  note p = OpenForWrite_Inr [OF o]
  have "Stub_ok s1" by (rule Stub_ok_keeps [OF ok]) (use p in simp_all)
  then obtain k s2 where cl: "FileSystem_Close n s1 = Inr (k, s2)" "Stub_ok s2" using FileSystem_Close_ok by blast
  show ?thesis using c p cl unfolding FileSystem_Create_def o by simp
qed

lemma FileSystem_Remove_ok: "Stub_ok s \<Longrightarrow> FileSystem_Remove name s = Inr (r, s') \<Longrightarrow> Stub_ok s'"
proof -
  assume ok: "Stub_ok s" and "FileSystem_Remove name s = Inr (r, s')"
  then have "keeps_fds s s'" "fdt s' = fdt s"
    by (auto simp: FileSystem_Remove_def Unlink_def sys_unlink_def bindR_eq_Inr split: if_splits prod.splits)
  then show ?thesis by (rule Stub_ok_keeps [OF ok])
qed

lemma FileSystem_Open_mode_Inr:
  assumes "FileSystem_Open_mode name mode s = Inr (e, s')" "mode = 0 \<or> mode = 1"
  shows "e = None \<and> s' = s \<or>
    (\<exists>f a nm. e = Some f \<and> fd_of s (of_file f) = None \<and> keeps_fds s s' \<and> fdt s' = fdt s \<and>
       fd_of s' (of_file f) = Some (FileFd a (mode = 0) 0) \<and> cstr name = Inr nm \<and>
       currentOffset f = 0 \<and> fileName f = Some nm \<and> fileType f = mode \<and> socketId f = -1)"
proof -
  have "(if mode = 0 then OpenForReadWrite name False s else if mode = 1 then OpenForRead name False s else Inr (0, s)) =
      bindR (cstr name) (\<lambda>nm. Inr (sys_open nm False (mode = 0) s))"
    using assms(2) by (auto simp: OpenForReadWrite_def OpenForRead_def split: prod.split)
  then obtain nm n s1 where o: "cstr name = Inr nm" "sys_open nm False (mode = 0) s = (n, s1)"
      "(if n = -1 then Inr (None, s1) else bindR (OpenFile_named n name mode) (\<lambda>f. Inr (Some f, s1))) = Inr (e, s')"
    using assms(1) by (auto simp: FileSystem_Open_mode_def bindR_eq_Inr split: prod.splits)
  show ?thesis using sys_open_cases [OF o(2)] o(1,3) by (auto simp: OpenFile_named_def split: if_splits)
qed

lemma opened_ok:
  assumes ok: "Stub_ok s" and i: "i < 20" "fdt s ! i = None"
    and f: "fd_of s (of_file f) = None" "fd_of s' (of_file f) = Some (FileFd a w 0)" "fileType f = 0 \<longrightarrow> w" "0 \<le> currentOffset f"
      "\<And>nm. fileName f = Some nm \<Longrightarrow> 0 \<notin> set nm" "\<not> isSocket f"
    and k: "keeps_fds s s'" "fdt s' = fdt s"
  shows "Stub_ok (s'\<lparr>fdt := (fdt s)[i := Some f]\<rparr>)"
proof -
  have "Stub_ok (s'\<lparr>fdt := (fdt s')[i := Some f]\<rparr>)"
  proof (rule Stub_ok_put [OF Stub_ok_keeps [OF ok k] i(1)])
    show "file_ok s' f" using f by (auto simp: file_ok_def)
    show "of_file g \<noteq> of_file f \<and> (isSocket f \<longrightarrow> socketId g \<noteq> socketId f)" if "j < 20" "j \<noteq> i" "fdt s' ! j = Some g" for j g
      using file_ok_fd [OF Stub_ok_file [OF ok _ that(1)]] that(3) k(2) f(1,6) by auto
  qed
  then show ?thesis using k(2) by simp
qed

lemma EmptySlot_end: "EmptySlot_from 20 s = Inr (-1)"
  by (simp add: EmptySlot_from.simps MAX_FILE_def)

lemma EmptySlot_step:
  "Stub_ok s \<Longrightarrow> 0 \<le> i \<Longrightarrow> i < 20 \<Longrightarrow> EmptySlot_from i s = (if fdt s ! nat i = None then Inr i else EmptySlot_from (i + 1) s)"
  by (simp add: EmptySlot_from.simps [of i] MAX_FILE_def slot_eq)

lemma EmptySlot_from_eq:
  assumes ok: "Stub_ok s" and "2 \<le> i" "i \<le> 20" "EmptySlot_from i s = Inr r"
  shows "r = -1 \<and> (\<forall>j. i \<le> j \<longrightarrow> j < 20 \<longrightarrow> fdt s ! nat j \<noteq> None) \<or>
    i \<le> r \<and> r < 20 \<and> fdt s ! nat r = None \<and> (\<forall>j. i \<le> j \<longrightarrow> j < r \<longrightarrow> fdt s ! nat j \<noteq> None)"
  using assms(2-)
proof (induction "nat (20 - i)" arbitrary: i)
  case 0
  then have "i = 20" by simp
  then show ?case using 0 by (simp add: EmptySlot_end)
next
  case (Suc m)
  then have i: "i < 20" by simp
  show ?case
  proof (cases "fdt s ! nat i = None")
    case True
    then show ?thesis using Suc.prems EmptySlot_step [OF ok _ i] i by simp
  next
    case False
    then have e: "EmptySlot_from (i + 1) s = Inr r" using Suc.prems EmptySlot_step [OF ok _ i] by (auto split: if_splits)
    have s: "i \<le> j \<longleftrightarrow> j = i \<or> i + 1 \<le> j" for j by linarith
    have "r = -1 \<and> (\<forall>j. i + 1 \<le> j \<longrightarrow> j < 20 \<longrightarrow> fdt s ! nat j \<noteq> None) \<or>
        i + 1 \<le> r \<and> r < 20 \<and> fdt s ! nat r = None \<and> (\<forall>j. i + 1 \<le> j \<longrightarrow> j < r \<longrightarrow> fdt s ! nat j \<noteq> None)"
      by (rule Suc.hyps(1)) (use Suc.hyps(2) Suc.prems i e in simp_all)
    then show ?thesis unfolding s using False by blast
  qed
qed

lemma EmptySlot_from_total: "Stub_ok s \<Longrightarrow> 2 \<le> i \<Longrightarrow> i \<le> 20 \<Longrightarrow> \<exists>r. EmptySlot_from i s = Inr r"
proof (induction "nat (20 - i)" arbitrary: i)
  case 0
  then have "i = 20" by simp
  then show ?case using 0 by (simp add: EmptySlot_end)
next
  case (Suc m)
  then show ?case using EmptySlot_step [of s i] Suc.hyps(1) [of "i + 1"] by simp
qed

lemma fd_of_nonneg: "fd_of s n \<noteq> None \<Longrightarrow> 0 \<le> n"
  by (auto simp: fd_of_def split: if_splits)

lemma set_fd_commute: "0 \<le> n \<Longrightarrow> 0 \<le> m \<Longrightarrow> n \<noteq> m \<Longrightarrow> set_fd n u (set_fd m v s) = set_fd m v (set_fd n u s)"
  by (simp add: set_fd_def list_update_swap)

lemma Stub_ok_close_socket:
  assumes ok: "Stub_ok s" and k: "fd_of s k = Some SockFd"
    and free: "\<And>i f. i < 20 \<Longrightarrow> fdt s ! i = Some f \<Longrightarrow> isSocket f \<Longrightarrow> socketId f - plusSocketId \<noteq> k"
  shows "Stub_ok (set_fd k None s)"
proof -
  have "file_ok (set_fd k None s) f" if "i < 20" "fdt s ! i = Some f" for i f
    using Stub_ok_file [OF ok that(2,1)] free [OF that] k unfolding file_ok_def by (auto simp: fd_of_set_fd)
  then show ?thesis using ok unfolding Stub_ok_def fdt_set_fd by blast
qed

lemma RemoveSocket_step:
  assumes ok: "Stub_ok s" and i: "0 \<le> i" "i < 20"
  shows "RemoveSocket_from i n s = (case fdt s ! nat i of
      Some f \<Rightarrow> if isSocket f \<and> socketId f = n
        then bindR (drop_slot i f (CloseSocket (n - plusSocketId) s)) (\<lambda>s.
             bindR (FileSystem_Remove (socket_name n) s) (\<lambda>(_, s). Inr (True, s)))
        else RemoveSocket_from (i + 1) n s
    | None \<Rightarrow> RemoveSocket_from (i + 1) n s)"
  using i by (simp add: RemoveSocket_from.simps [of i] MAX_FILE_def slot_eq [OF ok])

lemma drop_socket_ok:
  assumes ok: "Stub_ok s" and i: "0 \<le> i" "i < 20" "fdt s ! nat i = Some f" and f: "isSocket f"
  shows "\<exists>s'. drop_slot i f (CloseSocket (socketId f - plusSocketId) s) = Inr s' \<and> Stub_ok s'"
proof -
  let ?k = "socketId f - plusSocketId"
  let ?s = "(set_fd (of_file f) None s)\<lparr>fdt := (fdt s)[nat i := None]\<rparr>"
  have n: "nat i < 20" using i by simp
  obtain a w off where fd: "fd_of s (of_file f) = Some (FileFd a w off)" using Stub_ok_fd [OF ok i(3,2)] by blast
  have k: "fd_of s ?k = Some SockFd" using Stub_ok_file [OF ok i(3) n] f by (simp add: file_ok_def)
  have ne: "?k \<noteq> of_file f" using fd k by auto
  have c: "CloseSocket ?k s = set_fd ?k None s" using k by (simp add: CloseSocket_def sys_close_def)
  have "drop_slot i f (set_fd ?k None s) = Inr ((set_fd (of_file f) None (set_fd ?k None s))\<lparr>fdt := (fdt s)[nat i := None]\<rparr>)"
    using fd ne k i Stub_ok_len [OF ok] by (simp add: drop_slot_def OpenFile_delete_def Close_eq fd_of_set_fd put_slot_def)
  also have "set_fd (of_file f) None (set_fd ?k None s) = set_fd ?k None (set_fd (of_file f) None s)"
    using fd_of_nonneg [of s "of_file f"] fd_of_nonneg [of s ?k] fd k ne by (intro set_fd_commute) auto
  finally have d: "drop_slot i f (set_fd ?k None s) = Inr (set_fd ?k None ?s)" by (simp add: set_fd_def)
  have "Stub_ok (set_fd ?k None ?s)"
  proof (rule Stub_ok_close_socket [OF Stub_ok_drop [OF ok n i(3)]])
    show "fd_of ?s ?k = Some SockFd" using fd ne k by (simp add: fd_of_set_fd)
  next
    fix j g assume g: "j < 20" "fdt ?s ! j = Some g" "isSocket g"
    then have "j \<noteq> nat i" "fdt s ! j = Some g" using Stub_ok_len [OF ok] n by (auto simp: nth_list_update split: if_splits)
    then show "socketId g - plusSocketId \<noteq> ?k" using Stub_ok_distinct [OF ok _ i(3) g(1) n] g(3) by auto
  qed
  then show ?thesis unfolding c d by blast
qed

lemma RemoveSocket_ok:
  assumes ok: "Stub_ok s" and "0 \<le> i" "i \<le> 20" "RemoveSocket_from i n s = Inr (r, s')"
  shows "Stub_ok s'"
  using assms(2-)
proof (induction "nat (20 - i)" arbitrary: i)
  case 0
  then have "i = 20" by simp
  then show ?case using 0 ok by (simp add: RemoveSocket_from.simps MAX_FILE_def)
next
  case (Suc m)
  then have i: "i < 20" by simp
  have next_i: "RemoveSocket_from (i + 1) n s = Inr (r, s') \<Longrightarrow> Stub_ok s'"
    by (rule Suc.hyps(1)) (use Suc.hyps(2) Suc.prems i in simp_all)
  show ?case
  proof (cases "\<exists>f. fdt s ! nat i = Some f \<and> isSocket f \<and> socketId f = n")
    case True
    then obtain f where f: "fdt s ! nat i = Some f" "isSocket f" "socketId f = n" by blast
    obtain s1 where "drop_slot i f (CloseSocket (n - plusSocketId) s) = Inr s1" "Stub_ok s1"
      using drop_socket_ok [OF ok Suc.prems(1) i f(1,2)] f(3) by blast
    then show ?thesis using Suc.prems(3) FileSystem_Remove_ok f
      unfolding RemoveSocket_step [OF ok Suc.prems(1) i] by (auto simp: bindR_eq_Inr)
  next
    case False
    then show ?thesis using Suc.prems(3) next_i unfolding RemoveSocket_step [OF ok Suc.prems(1) i]
      by (auto split: option.splits if_splits)
  qed
qed

lemma SysClose_ok: "Stub_ok s \<Longrightarrow> SysClose n s = Inr (r, s') \<Longrightarrow> Stub_ok s'"
proof -
  assume ok: "Stub_ok s" and "SysClose n s = Inr (r, s')"
  then obtain b where b: "RemoveFileDescriptor n s = Inr (b, s')" by (auto simp: SysClose_def bindR_eq_Inr)
  show ?thesis
  proof (cases "n > MAX_FILE \<or> n < 0")
    case True
    then show ?thesis using b RemoveSocket_ok [OF ok, of 2 n b s'] by (simp add: RemoveFileDescriptor_def)
  next
    case False
    then obtain e where e: "slot n s = Inr e" using b by (auto simp: RemoveFileDescriptor_def bindR_eq_Inr)
    have d: "drop_slot n f s = Inr s' \<Longrightarrow> e = Some f \<Longrightarrow> Stub_ok s'" for f
      using drop_slot_ok [OF ok, of n f] slot_Inr [OF e ok] by auto
    show ?thesis using b ok d e False by (auto simp: RemoveFileDescriptor_def bindR_eq_Inr split: option.splits)
  qed
qed

lemma SysOpen_ok:
  assumes ok: "Stub_ok s" and o: "SysOpen name type s = Inr (r, s')" and t: "type = 0 \<or> type = 1"
  shows "Stub_ok s'"
proof (rule ccontr)
  assume bad: "\<not> Stub_ok s'"
  then have ns: "s' \<noteq> s" using ok by blast
  then obtain filename slot f where sl: "EmptySlot_from 2 s = Inr slot" "slot \<noteq> -1"
      and add: "AddToFileDescriptorTable slot filename type s = Inr (f, s')"
    using o by (auto simp: SysOpen_def GetFileDescriptorEmptySlot_def bindR_eq_Inr split: option.splits if_splits)
  have i: "0 \<le> slot" "slot < 20" "fdt s ! nat slot = None" using EmptySlot_from_eq [OF ok _ _ sl(1)] sl(2) by auto
  obtain s1 where op: "FileSystem_Open_mode filename type s = Inr (f, s1)" and put: "put_slot slot f s1 = Inr s'"
    using add slot_eq [OF ok i(1,2)] i(3) by (auto simp: AddToFileDescriptorTable_def bindR_eq_Inr)
  from FileSystem_Open_mode_Inr [OF op t] show False
  proof (elim disjE exE conjE)
    assume "f = None" "s1 = s"
    moreover from this have "(fdt s)[nat slot := f] = fdt s" using i(3) by (metis list_update_id)
    ultimately have "s' = s" using put put_slot_eq [OF ok i(1,2), of f] by simp
    then show False using ns by simp
  next
    fix g a nm assume g: "f = Some g" "fd_of s (of_file g) = None" "keeps_fds s s1" "fdt s1 = fdt s"
      "fd_of s1 (of_file g) = Some (FileFd a (type = 0) 0)" "cstr filename = Inr nm"
      "currentOffset g = 0" "fileName g = Some nm" "fileType g = type" "socketId g = -1"
    have "Stub_ok (s1\<lparr>fdt := (fdt s)[nat slot := Some g]\<rparr>)"
      by (rule opened_ok [OF ok _ i(3) g(2,5) _ _ _ _ g(3,4)]) (use i(1,2) cstr_no_zero [OF g(6)] g(7-10) in \<open>auto simp: isSocket_def\<close>)
    moreover have "s' = s1\<lparr>fdt := (fdt s)[nat slot := Some g]\<rparr>"
      using put g(1,4) i(1,2) Stub_ok_len [OF ok] by (simp add: put_slot_def)
    ultimately show False using bad by simp
  qed
qed

lemma FileSystem_Create_eq:
  assumes ok: "Stub_ok s" and c: "FileSystem_Create name s = Inr (r, s')"
  shows "\<exists>n s1. OpenForWrite name s = Inr (n, s1) \<and> Stub_ok s1 \<and> fdt s1 = fdt s \<and>
    s' = (if 2 \<le> n \<and> n < 20 \<and> fdt s ! nat n \<noteq> None
          then (set_fd (of_file (the (fdt s ! nat n))) None s1)\<lparr>fdt := (fdt s)[nat n := None]\<rparr> else s1)"
proof -
  obtain n s1 where o: "OpenForWrite name s = Inr (n, s1)" using c by (auto simp: FileSystem_Create_def bindR_eq_Inr)
  note p = OpenForWrite_Inr [OF o]
  have ok1: "Stub_ok s1" by (rule Stub_ok_keeps [OF ok]) (use p in simp_all)
  show ?thesis using c o p ok1 by (auto simp: FileSystem_Create_def FileSystem_Close_cases [OF ok1] split: if_splits)
qed

lemma FileSystem_Create_frame:
  assumes ok: "Stub_ok s" and c: "FileSystem_Create name s = Inr (r, s')"
  shows "fd_of s k = Some SockFd \<Longrightarrow> fd_of s' k = Some SockFd"
    and "i < 20 \<Longrightarrow> fdt s' ! i = None \<or> fdt s' ! i = fdt s ! i"
proof -
  obtain n s1 where o: "OpenForWrite name s = Inr (n, s1)" and ok1: "Stub_ok s1" and t: "fdt s1 = fdt s"
      and s': "s' = (if 2 \<le> n \<and> n < 20 \<and> fdt s ! nat n \<noteq> None
          then (set_fd (of_file (the (fdt s ! nat n))) None s1)\<lparr>fdt := (fdt s)[nat n := None]\<rparr> else s1)"
    using FileSystem_Create_eq [OF ok c] by blast
  have k: "keeps_fds s s1" using OpenForWrite_Inr [OF o] by simp
  show "fd_of s' k = Some SockFd" if "fd_of s k = Some SockFd"
  proof (cases "2 \<le> n \<and> n < 20 \<and> fdt s ! nat n \<noteq> None")
    case True
    then obtain f where f: "fdt s1 ! nat n = Some f" using t by auto
    obtain a w off where fd: "fd_of s1 (of_file f) = Some (FileFd a w off)" using Stub_ok_fd [OF ok1 f] True by blast
    then have "k \<noteq> of_file f" using keeps_fds_Sock [OF k that] by auto
    then show ?thesis using s' True f t fd keeps_fds_Sock [OF k that] by (simp add: fd_of_set_fd)
  next
    case False
    then have "s' = s1" by (simp only: s' if_False)
    then show ?thesis using keeps_fds_Sock [OF k that] by simp
  qed
  show "fdt s' ! i = None \<or> fdt s' ! i = fdt s ! i" if "i < 20"
    using that Stub_ok_len [OF ok] t by (auto simp: s' nth_list_update)
qed

lemma OpenNewSocket_ok:
  assumes ok: "Stub_ok s" and o: "OpenNewSocket s = Inr (r, s')"
  shows "Stub_ok s'"
proof (cases "EmptySlot_from 2 s = Inr (-1)")
  case True
  then show ?thesis using ok o by (simp add: OpenNewSocket_def GetFileDescriptorEmptySlot_def)
next
  case False
  then obtain i where e: "EmptySlot_from 2 s = Inr i" "i \<noteq> -1"
    using o by (auto simp: OpenNewSocket_def GetFileDescriptorEmptySlot_def bindR_eq_Inr)
  obtain sock s1 where n: "new_fd SockFd s = (sock, s1)" by fastforce
  note nf = fd_of_new_fd [OF n]
  have "OpenSocketTCP s = Inr (sock, s1)" using n nf(2) by (simp add: OpenSocketTCP_def)
  then obtain b s2 f s3 where c: "FileSystem_Create (socket_name (sock + plusSocketId)) s1 = Inr (b, s2)"
      and op: "FileSystem_Open_mode (socket_name (sock + plusSocketId)) 1 s2 = Inr (Some f, s3)"
      and put: "put_slot i (Some (f\<lparr>socketId := sock + plusSocketId\<rparr>)) s3 = Inr s'"
    using o e by (auto simp: OpenNewSocket_def GetFileDescriptorEmptySlot_def bindR_eq_Inr Let_def split: option.splits)
  have i: "0 \<le> i" "i < 20" "fdt s ! nat i = None" using EmptySlot_from_eq [OF ok _ _ e(1)] e(2) by auto
  have ok1: "Stub_ok s1" by (rule Stub_ok_keeps [OF ok keeps_fds_new [OF n] fdt_new_fd [OF n]])
  have ok2: "Stub_ok s2" using FileSystem_Create_ok [OF ok1 c] by simp
  note fr = FileSystem_Create_frame [OF ok1 c]
  obtain a nm where f: "fd_of s2 (of_file f) = None" "keeps_fds s2 s3" "fdt s3 = fdt s2" "fd_of s3 (of_file f) = Some (FileFd a False 0)"
      "cstr (socket_name (sock + plusSocketId)) = Inr nm" "currentOffset f = 0" "fileName f = Some nm" "fileType f = 1"
    using FileSystem_Open_mode_Inr [OF op] by auto
  let ?f = "f\<lparr>socketId := sock + plusSocketId\<rparr>"
  have "fd_of s3 sock = Some SockFd" using keeps_fds_Sock [OF f(2) fr(1)] nf(3) by simp
  then have fo: "file_ok s3 ?f" using f(4-8) cstr_no_zero [OF f(5)] by (simp add: file_ok_def) (rule exI [of _ False], simp)
  have ok3: "Stub_ok s3" by (rule Stub_ok_keeps [OF ok2 f(2,3)])
  have "Stub_ok (s3\<lparr>fdt := (fdt s3)[nat i := Some ?f]\<rparr>)"
  proof (rule Stub_ok_put [OF ok3 _ fo])
    fix j g assume g: "j < 20" "j \<noteq> nat i" "fdt s3 ! j = Some g"
    then have g2: "fdt s2 ! j = Some g" using f(3) by simp
    then have gs: "fdt s ! j = Some g" using fr(2) [OF g(1)] fdt_new_fd [OF n] by simp
    have "of_file g \<noteq> of_file f" using file_ok_fd [OF Stub_ok_file [OF ok2 g2 g(1)]] f(1) by auto
    moreover have "isSocket g \<Longrightarrow> socketId g \<noteq> sock + plusSocketId"
      using Stub_ok_file [OF ok gs g(1)] nf(1) by (auto simp: file_ok_def)
    moreover have "\<not> isSocket g \<Longrightarrow> socketId g \<noteq> sock + plusSocketId" using nf(2) by (simp add: isSocket_def plusSocketId_def)
    ultimately show "of_file g \<noteq> of_file ?f \<and> (isSocket ?f \<longrightarrow> socketId g \<noteq> socketId ?f)" by auto
  qed (use i in simp)
  then show ?thesis using put put_slot_eq [OF ok3 i(1,2)] by simp
qed

section \<open>All file system calls\<close>

text \<open>
  The calls the exception handler makes on the file system, with the guards of \<open>SysRead\<close> and \<open>SysWrite\<close>
  and the restriction of the open mode to 0 and 1 it applies before.
\<close>

inductive fs_step :: "'z Stub_scheme \<Rightarrow> 'z Stub_scheme \<Rightarrow> bool" where
  create: "SysCreate name s = Inr (r, s') \<Longrightarrow> fs_step s s'"
| remove: "SysRemove (Some name) s = Inr (r, s') \<Longrightarrow> fs_step s s'"
| open_file: "SysOpen (Some name) type s = Inr (r, s') \<Longrightarrow> type = 0 \<or> type = 1 \<Longrightarrow> fs_step s s'"
| close_file: "SysClose n s = Inr (r, s') \<Longrightarrow> fs_step s s'"
| seek: "SysSeek pos n s = Inr (r, s') \<Longrightarrow> fs_step s s'"
| read_file: "2 \<le> n \<Longrightarrow> FileSystem_Read buffer cnt n s = Inr (r, b, s') \<Longrightarrow> fs_step s s'"
| write_file: "2 \<le> n \<Longrightarrow> FileSystem_Write buffer cnt n s = Inr (r, s') \<Longrightarrow> fs_step s s'"
| socket: "OpenNewSocket s = Inr (r, s') \<Longrightarrow> fs_step s s'"

lemma fs_step_ok: "fs_step s s' \<Longrightarrow> Stub_ok s \<Longrightarrow> Stub_ok s'"
proof (induction rule: fs_step.induct)
  case (create name s r s')
  then show ?case using FileSystem_Create_ok by (auto simp: SysCreate_def bindR_eq_Inr split: if_splits)
next
  case (remove name s r s')
  then show ?case using FileSystem_Remove_ok by (auto simp: SysRemove_def bindR_eq_Inr split: if_splits)
next
  case (open_file name type s r s')
  then show ?case using SysOpen_ok by blast
next
  case (close_file n s r s')
  then show ?case using SysClose_ok by blast
next
  case (seek pos n s r s')
  then show ?case using FileSystem_Seek_ok by (auto simp: SysSeek_def bindR_eq_Inr split: if_splits)
next
  case (read_file n buffer cnt s r b s')
  then show ?case using FileSystem_Read_ok by blast
next
  case (write_file n buffer cnt s r s')
  then show ?case using FileSystem_Write_ok by blast
next
  case (socket s r s')
  then show ?case using OpenNewSocket_ok by blast
qed

lemma fs_steps_ok: "fs_step\<^sup>*\<^sup>* s s' \<Longrightarrow> Stub_ok s \<Longrightarrow> Stub_ok s'"
  by (induction rule: rtranclp_induct) (auto intro: fs_step_ok)

lemma console_names:
  "cstr ConsoleInput_name = Inr (map of_char ''ConsoleInput'')" "cstr ConsoleOutput_name = Inr (map of_char ''ConsoleOutput'')"
  "map of_char ''ConsoleInput'' \<noteq> (map of_char ''ConsoleOutput'' :: byte list)"
  by (simp_all add: cstr_def ConsoleInput_name_def ConsoleOutput_name_def)

lemma Stub_ok_empty: "Stub_ok (s\<lparr>fdt := replicate 20 None\<rparr>)"
  by (simp add: Stub_ok_def)

lemma sys_open_existing:
  "h_allow s nm \<Longrightarrow> h_dir s nm = Some i \<Longrightarrow> sys_open nm False w s = new_fd (FileFd i w 0) s"
  by (simp add: sys_open_def)

lemma OpenForWrite_total:
  assumes "cstr name = Inr nm" "h_allow s nm"
  shows "\<exists>n s1 i. OpenForWrite name s = Inr (n, s1) \<and> n = int (first_free (h_fds s)) \<and> h_allow s1 = h_allow s \<and>
    h_dir s1 nm = Some i \<and> (\<forall>k j. h_dir s k = Some j \<longrightarrow> h_dir s1 k \<noteq> None)"
proof -
  obtain n s1 where o: "sys_open nm True True s = (n, s1)" by fastforce
  then have "n = int (first_free (h_fds s))" "h_allow s1 = h_allow s" "h_dir s1 nm \<noteq> None" "\<forall>k j. h_dir s k = Some j \<longrightarrow> h_dir s1 k \<noteq> None"
    using assms(2) by (auto simp: sys_open_def new_fd_def split: option.splits)
  then show ?thesis using o assms(1) by (auto simp: OpenForWrite_def)
qed

lemma FileSystem_Create_total:
  assumes ok: "Stub_ok s" and nm: "cstr name = Inr nm" "h_allow s nm"
  shows "\<exists>s' i. FileSystem_Create name s = Inr (True, s') \<and> Stub_ok s' \<and> h_allow s' = h_allow s \<and> h_dir s' nm = Some i \<and>
    (\<forall>k j. h_dir s k = Some j \<longrightarrow> h_dir s' k \<noteq> None)"
proof -
  obtain n s1 i where o: "OpenForWrite name s = Inr (n, s1)" "h_allow s1 = h_allow s" "h_dir s1 nm = Some i"
      "\<forall>k j. h_dir s k = Some j \<longrightarrow> h_dir s1 k \<noteq> None"
    using OpenForWrite_total [OF nm] by blast
  note p = OpenForWrite_Inr [OF o(1)]
  have ok1: "Stub_ok s1" by (rule Stub_ok_keeps [OF ok]) (use p in simp_all)
  have "\<exists>r s'. FileSystem_Close n s1 = Inr (r, s') \<and> Stub_ok s' \<and> h_allow s' = h_allow s1 \<and> h_dir s' = h_dir s1"
    using Stub_ok_drop [OF ok1, of "nat n"] ok1 by (auto simp: FileSystem_Close_cases [OF ok1])
  then show ?thesis using o p by (auto simp: FileSystem_Create_def)
qed

lemma open_console:
  assumes ok: "Stub_ok s" and nm: "cstr name = Inr nm" "h_allow s nm" "h_dir s nm \<noteq> None" and m: "mode = 0 \<or> mode = 1"
    and i: "i = 0 \<or> i = 1" "fdt s ! nat i = None"
  shows "\<exists>f s1 s'. FileSystem_Open_mode name mode s = Inr (f, s1) \<and> put_slot i f s1 = Inr s' \<and> Stub_ok s' \<and>
    h_allow s' = h_allow s \<and> h_dir s' = h_dir s \<and> (\<forall>j. j \<noteq> nat i \<longrightarrow> fdt s' ! j = fdt s ! j)"
proof -
  obtain a where a: "h_dir s nm = Some a" using nm(3) by blast
  obtain n s1 where n: "new_fd (FileFd a (mode = 0) 0) s = (n, s1)" by fastforce
  note nf = fd_of_new_fd [OF n] new_fd_other [OF n] fdt_new_fd [OF n]
  let ?f = "\<lparr>of_file = n, currentOffset = 0, fileName = Some nm, fileType = mode, socketId = -1\<rparr>"
  have o: "FileSystem_Open_mode name mode s = Inr (Some ?f, s1)"
    using m nm sys_open_existing [OF nm(2) a] n nf(2)
    by (auto simp: FileSystem_Open_mode_def OpenForReadWrite_def OpenForRead_def OpenFile_named_def)
  have "Stub_ok (s1\<lparr>fdt := (fdt s)[nat i := Some ?f]\<rparr>)"
    by (rule opened_ok [OF ok _ i(2), where a = a and w = "mode = 0"])
      (use i(1) nf keeps_fds_new [OF n] cstr_no_zero [OF nm(1)] in \<open>auto simp: isSocket_def\<close>)
  moreover have "put_slot i (Some ?f) s1 = Inr (s1\<lparr>fdt := (fdt s)[nat i := Some ?f]\<rparr>)"
    using i(1) nf(7) Stub_ok_len [OF ok] by (auto simp: put_slot_def)
  ultimately show ?thesis using o nf(4,6) by auto
qed

lemma FileSystem_new_ok:
  assumes "h_allow s (map of_char ''ConsoleInput'')" "h_allow s (map of_char ''ConsoleOutput'')"
  shows "\<exists>s0. FileSystem_new s = Inr s0 \<and> Stub_ok s0"
proof -
  let ?s = "s\<lparr>fdt := replicate 20 None\<rparr>"
  let ?i = "map of_char ''ConsoleInput'' :: byte list" and ?o = "map of_char ''ConsoleOutput'' :: byte list"
  obtain s1 i where 1: "FileSystem_Create ConsoleInput_name ?s = Inr (True, s1)" "Stub_ok s1" "h_allow s1 = h_allow s" "h_dir s1 ?i = Some i"
    using FileSystem_Create_total [OF Stub_ok_empty console_names(1), of s] assms by auto
  obtain s2 j where 2: "FileSystem_Create ConsoleOutput_name s1 = Inr (True, s2)" "Stub_ok s2" "h_allow s2 = h_allow s" "h_dir s2 ?o = Some j"
      "h_dir s2 ?i \<noteq> None"
    using FileSystem_Create_total [OF 1(2) console_names(2)] assms 1 by auto
  have none: "fdt s2 ! k = None" if "k < 20" for k
    using FileSystem_Create_frame(2) [OF Stub_ok_empty 1(1) that] FileSystem_Create_frame(2) [OF 1(2) 2(1) that] that by auto
  obtain f t s3 where 3: "FileSystem_Open_mode ConsoleInput_name 0 s2 = Inr (f, t)" "put_slot 0 f t = Inr s3" "Stub_ok s3"
      "h_allow s3 = h_allow s" "h_dir s3 = h_dir s2" "fdt s3 ! 1 = None"
    using open_console [OF 2(2) console_names(1), where mode = 0 and i = 0] assms 2(3,5) none [of 0] none [of 1] by auto
  obtain g u s4 where 4: "FileSystem_Open_mode ConsoleOutput_name 1 s3 = Inr (g, u)" "put_slot 1 g u = Inr s4" "Stub_ok s4"
    using open_console [OF 3(3) console_names(2), where mode = 1 and i = 1] assms 2(4) 3(4-6) by auto
  show ?thesis unfolding FileSystem_new_def Let_def MAX_FILE_def using 1(1) 2(1) 3(1,2) 4 by simp
qed

text \<open>
  C10. The descriptor table is consistent. The constructor of the file system succeeds when the host lets it create
  the two console files, and after any sequence of file system calls, whatever their arguments, every
  object in the table has a descriptor of its own that is open, is writable unless the file was
  opened read-only, and every socket object has an open socket of its own.
\<close>

theorem descriptor_table_consistent:
  assumes "h_allow s (map of_char ''ConsoleInput'')" "h_allow s (map of_char ''ConsoleOutput'')"
  shows "\<exists>s0. FileSystem_new s = Inr s0 \<and> (\<forall>s'. fs_step\<^sup>*\<^sup>* s0 s' \<longrightarrow> Stub_ok s')"
  using FileSystem_new_ok [OF assms] fs_steps_ok by blast

definition unix0 :: Stub where
  "unix0 = \<lparr>h_dir = Map.empty, h_data = (\<lambda>_. []), h_next = 0, h_fds = [Some (FileFd 0 True 0), Some (FileFd 1 True 0), Some (FileFd 2 True 0)],
     h_allow = (\<lambda>_. True), h_connect = (\<lambda>_ _ _. 0), h_send = (\<lambda>_ m. int (length m)), h_recv = (\<lambda>_. None), fdt = []\<rparr>"

theorem descriptor_table_consistent_witness:
  "\<exists>s0. FileSystem_new unix0 = Inr s0 \<and> Stub_ok s0"
  using descriptor_table_consistent [of unix0] by (auto simp: unix0_def)


definition stub1 :: Stub where
  "stub1 = unix0\<lparr>h_fds := h_fds unix0 @ [Some (FileFd 7 True 0)],
     fdt := replicate 3 None @ [Some \<lparr>of_file = 3, currentOffset = 0, fileName = Some [97], fileType = 0, socketId = -1\<rparr>] @ replicate 16 None\<rparr>"

lemma stub1_fdt: "i < 20 \<Longrightarrow> fdt stub1 ! i =
    (if i = 3 then Some \<lparr>of_file = 3, currentOffset = 0, fileName = Some [97], fileType = 0, socketId = -1\<rparr> else None)"
  by (auto simp: stub1_def nth_append nth_Cons')

lemma stub1_ok: "Stub_ok stub1"
proof -
  have l: "length (fdt stub1) = 20" by (simp add: stub1_def)
  have "fd_of stub1 3 = Some (FileFd 7 True 0)" by (simp add: fd_of_def stub1_def unix0_def)
  then show ?thesis unfolding Stub_ok_def using l by (auto simp: stub1_fdt file_ok_def isSocket_def split: if_splits)
qed


section \<open>Error behaviour\<close>



text \<open>
  C28. \<open>Create\<close> closes somebody's file. The descriptor the host opens for the new file is passed to \<open>Close\<close> of the
  same class, which takes it for a slot of the table. When that slot is in use, creating a file succeeds,
  and the unrelated file open in the slot is closed; the descriptor of the new file stays open.
\<close>

theorem Create_closes_slot:
  assumes ok: "Stub_ok s" and nm: "cstr name = Inr nm" "nm \<noteq> []" "h_allow s nm"
    and k: "first_free (h_fds s) = k" "2 \<le> k" "k < 20" "fdt s ! k = Some f"
  shows "\<exists>s'. SysCreate name s = Inr (1, s') \<and> fdt s' ! k = None \<and> fd_of s' (of_file f) = None \<and> fd_of s' (int k) \<noteq> None"
proof -
  obtain n s1 where o: "OpenForWrite name s = Inr (n, s1)" "n = int k" using OpenForWrite_total [OF nm(1,3)] k(1) by blast
  note p = OpenForWrite_Inr [OF o(1)]
  have ok1: "Stub_ok s1" by (rule Stub_ok_keeps [OF ok]) (use p in simp_all)
  have f1: "fdt s1 ! k = Some f" using p k(4) by simp
  obtain a w off where fd: "fd_of s (of_file f) = Some (FileFd a w off)" using Stub_ok_fd [OF ok, of "int k"] k by auto
  then have ne: "of_file f \<noteq> int k" using p o(2) by auto
  have fd1: "fd_of s1 (of_file f) \<noteq> None" using keeps_fds_File [of s s1, OF _ fd] p by auto
  have "length nm \<noteq> 0" using nm(2) by simp
  then show ?thesis using o p ok1 f1 fd1 ne k nm(1) Stub_ok_len [OF ok1]
    by (auto simp: SysCreate_def strlen_def FileSystem_Create_def FileSystem_Close_cases [OF ok1] fd_of_set_fd)
qed

definition stub2 :: Stub where
  "stub2 = stub1\<lparr>h_fds := [Some (FileFd 0 True 0), Some (FileFd 1 True 0), Some (FileFd 2 True 0), None, Some (FileFd 7 True 0)],
     fdt := replicate 3 None @ [Some \<lparr>of_file = 4, currentOffset = 0, fileName = Some [97], fileType = 0, socketId = -1\<rparr>] @ replicate 16 None\<rparr>"

lemma stub2_fdt: "i < 20 \<Longrightarrow> fdt stub2 ! i =
    (if i = 3 then Some \<lparr>of_file = 4, currentOffset = 0, fileName = Some [97], fileType = 0, socketId = -1\<rparr> else None)"
  by (auto simp: stub2_def nth_append nth_Cons')

lemma stub2_ok: "Stub_ok stub2"
proof -
  have l: "length (fdt stub2) = 20" by (simp add: stub2_def)
  have "fd_of stub2 4 = Some (FileFd 7 True 0)" by (simp add: fd_of_def stub2_def eval_nat_numeral)
  then show ?thesis unfolding Stub_ok_def using l by (auto simp: stub2_fdt file_ok_def isSocket_def split: if_splits)
qed

theorem Create_closes_slot_witness:
  "\<exists>s'. SysCreate [98, 0] stub2 = Inr (1, s') \<and> fdt stub2 ! 3 \<noteq> None \<and> fdt s' ! 3 = None"
proof -
  have "cstr [98, 0] = Inr [98]" by (simp add: cstr_def)
  moreover have "h_allow stub2 [98]" "first_free (h_fds stub2) = 3" by (simp_all add: stub2_def stub1_def unix0_def eval_nat_numeral)
  ultimately show ?thesis using Create_closes_slot [OF stub2_ok, of "[98, 0]" "[98]" 3] by (auto simp: stub2_fdt)
qed



end
