(* ===== verification/Nachos_Prog.thy ===== *)
theory Nachos_Prog
  imports Nachos_Prelude
begin

text \<open>
  Kernel code that can block. A routine runs on the kernel's state until it returns, faults, or makes a call
  that may switch threads (\<open>Semaphore::P\<close>, \<open>Semaphore::V\<close>, \<open>Thread::Fork\<close>, ...); such a call is a node of a
  tree, with the state in which it is made and the rest of the routine as a function of the state in
  which it returns. Between two calls kernel code is not preempted: time slices end only where
  \<open>Interrupt::SetLevel\<close> enables interrupts, which is inside the calls, and in user mode.

  \<^item> \<open>exec\<close> is the execution of one routine among others: the environment relation \<open>E\<close> says what other threads and
    interrupt handlers may do before and after each call takes effect.
  \<^item> \<open>pstep\<close> interleaves several routines on one state; a thread whose call is not enabled waits.
\<close>

section \<open>Routines\<close>

datatype ('o, 's, 'a) prog =
    Ret 'a 's
  | Fault fault
  | Call 'o 's "'s \<Rightarrow> ('o, 's, 'a) prog"

primrec bindP :: "('o, 's, 'a) prog \<Rightarrow> ('a \<Rightarrow> 's \<Rightarrow> ('o, 's, 'b) prog) \<Rightarrow> ('o, 's, 'b) prog" where
  "bindP (Ret x s) f = f x s"
| "bindP (Fault e) f = Fault e"
| "bindP (Call c s k) f = Call c s (\<lambda>s. bindP (k s) f)"

definition callP :: "'o \<Rightarrow> 's \<Rightarrow> ('o, 's, unit) prog" where
  "callP c s = Call c s (Ret ())"

definition liftP :: "('a \<times> 's) res \<Rightarrow> ('o, 's, 'a) prog" where
  "liftP r = (case r of Inl e \<Rightarrow> Fault e | Inr (x, s) \<Rightarrow> Ret x s)"

definition asP :: "'a res \<Rightarrow> 's \<Rightarrow> ('o, 's, 'a) prog" where
  "asP r s = (case r of Inl e \<Rightarrow> Fault e | Inr x \<Rightarrow> Ret x s)"

lemma bindP_assoc: "bindP (bindP m f) g = bindP m (\<lambda>x s. bindP (f x s) g)"
  by (induction m) simp_all

lemma bindP_callP [simp]: "bindP (callP c s) f = Call c s (f ())"
  by (simp add: callP_def)

lemma liftP_simps [simp]: "liftP (Inl e) = Fault e" "liftP (Inr (x, s)) = Ret x s"
  by (simp_all add: liftP_def)

lemma asP_simps [simp]: "asP (Inl e) s = Fault e" "asP (Inr x) s = Ret x s"
  by (simp_all add: asP_def)

text \<open>The loop \<open>for (x in xs) body(x)\<close>.\<close>

fun forP :: "('x \<Rightarrow> 's \<Rightarrow> ('o, 's, unit) prog) \<Rightarrow> 'x list \<Rightarrow> 's \<Rightarrow> ('o, 's, unit) prog" where
  "forP f [] s = Ret () s"
| "forP f (x # xs) s = bindP (f x s) (\<lambda>_. forP f xs)"

section \<open>Execution in an environment\<close>

inductive exec :: "('s \<Rightarrow> 's \<Rightarrow> bool) \<Rightarrow> ('o \<Rightarrow> 's \<Rightarrow> 's \<Rightarrow> bool) \<Rightarrow> ('o, 's, 'a) prog \<Rightarrow> ('a \<times> 's) res \<Rightarrow> bool"
  for E eff where
  ret: "exec E eff (Ret x s) (Inr (x, s))"
| fault: "exec E eff (Fault e) (Inl e)"
| call: "E s s1 \<Longrightarrow> eff c s1 s2 \<Longrightarrow> E s2 s3 \<Longrightarrow> exec E eff (k s3) r \<Longrightarrow> exec E eff (Call c s k) r"

inductive_simps exec_simps [simp]: "exec E eff (Ret x s) r" "exec E eff (Fault e) r"
inductive_cases exec_CallE: "exec E eff (Call c s k) r"

lemma exec_Call: "exec E eff (Call c s k) r \<longleftrightarrow> (\<exists>s1 s2 s3. E s s1 \<and> eff c s1 s2 \<and> E s2 s3 \<and> exec E eff (k s3) r)"
  by (rule iffI, erule exec_CallE, blast, blast intro: exec.call)

lemma exec_bind:
  "exec E eff (bindP m f) r \<longleftrightarrow>
    (\<exists>e. exec E eff m (Inl e) \<and> r = Inl e) \<or> (\<exists>x s. exec E eff m (Inr (x, s)) \<and> exec E eff (f x s) r)"
proof (induction m)
  case (Call c s k)
  then show ?case by (simp add: exec_Call) blast
qed auto

text \<open>A routine without faults in any environment step, from any state with \<open>I\<close>.\<close>

lemma exec_for:
  assumes step: "\<And>x s r. x \<in> set xs \<Longrightarrow> I s \<Longrightarrow> exec E eff (f x s) r \<Longrightarrow> \<exists>s'. r = Inr ((), s') \<and> I s' \<and> T x s s'"
    and "I s" "exec E eff (forP f xs s) r"
  shows "\<exists>s'. r = Inr ((), s') \<and> I s'"
  using assms
proof (induction xs arbitrary: s)
  case (Cons x xs)
  from Cons.prems(3) consider e where "exec E eff (f x s) (Inl e)" "r = Inl e"
    | s1 where "exec E eff (f x s) (Inr ((), s1))" "exec E eff (forP f xs s1) r"
    by (auto simp: exec_bind)
  then show ?case
  proof cases
    case 1
    then show ?thesis using Cons.prems(1) [of x s] Cons.prems(2) by auto
  next
    case 2
    then have "I s1" using Cons.prems(1) [of x s] Cons.prems(2) by auto
    then show ?thesis using Cons.IH [of s1] Cons.prems(1) 2 by (metis list.set_intros(2))
  qed
qed simp

section \<open>Execution without other threads\<close>

text \<open>\<open>None\<close>: the routine waits for a call that is not enabled.\<close>

primrec solo :: "('o \<Rightarrow> 's \<Rightarrow> 's option) \<Rightarrow> ('o, 's, 'a) prog \<Rightarrow> ('a \<times> 's) res option" where
  "solo eff (Ret x s) = Some (Inr (x, s))"
| "solo eff (Fault e) = Some (Inl e)"
| "solo eff (Call c s k) = (case eff c s of None \<Rightarrow> None | Some s' \<Rightarrow> solo eff (k s'))"

lemma solo_bind:
  "solo eff (bindP m f) = (case solo eff m of None \<Rightarrow> None | Some (Inl e) \<Rightarrow> Some (Inl e) | Some (Inr (x, s)) \<Rightarrow> solo eff (f x s))"
  by (induction m) (simp_all split: option.split)

lemma solo_exec: "solo eff m = Some r \<Longrightarrow> exec (=) (\<lambda>c s s'. eff c s = Some s') m r"
proof (induction m)
  case (Call c s k)
  then show ?case by (auto simp: exec_Call split: option.splits)
qed auto

lemma exec_solo: "exec (=) (\<lambda>c s s'. eff c s = Some s') m r \<Longrightarrow> solo eff m = Some r"
  by (induction rule: exec.induct) auto

section \<open>Interleaving\<close>

datatype ('o, 's, 'a) tstate =
    Pending 'o "'s \<Rightarrow> ('o, 's, 'a) prog"   \<comment> \<open>about to make a call\<close>
  | Resume "'s \<Rightarrow> ('o, 's, 'a) prog"       \<comment> \<open>the call took effect; ready to go on\<close>
  | Finished 'a
  | Crashed fault

text \<open>Run a thread up to its next call.\<close>

fun settle :: "'s \<Rightarrow> ('o, 's, 'a) prog \<Rightarrow> 's \<times> ('o, 's, 'a) tstate" where
  "settle s0 (Ret x s) = (s, Finished x)"
| "settle s0 (Fault e) = (s0, Crashed e)"
| "settle s0 (Call c s k) = (s, Pending c k)"

inductive pstep :: "('o \<Rightarrow> 's \<Rightarrow> 's option) \<Rightarrow> 's \<times> (nat \<Rightarrow> ('o, 's, 'a) tstate) \<Rightarrow> 's \<times> (nat \<Rightarrow> ('o, 's, 'a) tstate) \<Rightarrow> bool"
  for eff where
  take_effect: "P t = Pending c k \<Longrightarrow> eff c s = Some s' \<Longrightarrow> pstep eff (s, P) (s', P(t := Resume k))"
| go_on: "P t = Resume k \<Longrightarrow> settle s (k s) = (s', ts) \<Longrightarrow> pstep eff (s, P) (s', P(t := ts))"

end
