(* ===== verification/Nachos_Sys.thy ===== *)
theory Nachos_Sys
  imports Nachos_Stub Nachos_Machine Nachos_Bitmap Nachos_Prog
begin

text \<open>
  The state of the kernel as system calls see it (\<open>threads/kernel.h\<close>): the machine, the map of physical frames, the
  process table (\<open>threads/PTable.h\<close>, \<open>threads/pcb.h\<close>), the table of user semaphores (\<open>threads/STable.h\<close>,
  \<open>threads/sem.h\<close>), the console, on top of the stub file system.

  Semaphores are numbers with a value; how waiting threads are queued and switched is the business of the thread
  system (\<open>Nachos_Threads\<close>, \<open>Nachos_Sched\<close>). The calls of a routine that may switch threads are the type \<open>kop\<close>,
  with the effect \<open>keff\<close>: \<open>P\<close> waits while the value is zero and takes one, \<open>V\<close> adds one, \<open>Fork\<close> creates a thread, the
  console waits for a character or shows one. \<open>heap_room n\<close> is the usable size of the block that \<open>new char[n]\<close> of the C++
  library returns.
\<close>

section \<open>Data\<close>

record AddrSpace =
  as_pageTable :: "TranslationEntry list option"
  numPages :: u32

record PCB =
  joinsem :: nat
  exitsem :: nat
  mutex :: nat
  exitcode :: int
  numwait :: int
  pcb_file :: "byte list option"
  pcb_thread :: "nat option"
  pid :: int
  parentID :: int

record Sem =
  sem_name :: "byte list"
  sem_sem :: nat

record Sys = Stub +
  mach :: Machine
  gPhysPageBitMap :: Bitmap
  addrLock :: nat
  semv :: "nat \<rightharpoonup> int"
  next_semv :: nat
  spaces :: "nat \<rightharpoonup> AddrSpace"
  next_tid :: nat
  forked_args :: "nat \<rightharpoonup> byte list"
  pcb_heap :: "nat \<rightharpoonup> PCB"
  next_pcb :: nat
  pcbs :: "nat option list"
  numProcesses :: int
  slotManager :: Bitmap
  ptable_sem :: nat
  st_bm :: Bitmap
  st_table :: "Sem option list"
  in_lock :: nat
  keyboard :: "byte list"
  out_lock :: nat
  screen :: "byte list"
  heap_room :: "nat \<Rightarrow> nat"

section \<open>Calls that may switch threads\<close>

datatype kop =
    SemP nat
  | SemV nat
  | ForkThread nat "byte list"
  | FinishThread
  | AwaitChar
  | PutCh byte

definition keff :: "kop \<Rightarrow> 'z Sys_scheme \<Rightarrow> 'z Sys_scheme option" where
  "keff c s = (case c of
     SemP k \<Rightarrow> (case semv s k of
         Some v \<Rightarrow> if v = 0 then None else Some (s\<lparr>semv := (semv s)(k \<mapsto> v - 1)\<rparr>)
       | None \<Rightarrow> None)
   | SemV k \<Rightarrow> (case semv s k of Some v \<Rightarrow> Some (s\<lparr>semv := (semv s)(k \<mapsto> v + 1)\<rparr>) | None \<Rightarrow> None)
   | ForkThread t arg \<Rightarrow> Some (s\<lparr>forked_args := (forked_args s)(t \<mapsto> arg)\<rparr>)
   | FinishThread \<Rightarrow> None
   | AwaitChar \<Rightarrow> if keyboard s \<noteq> [] then Some s else None
   | PutCh c \<Rightarrow> Some (s\<lparr>screen := screen s @ [c]\<rparr>))"

lemma keff_simps [simp]:
  "semv s k = Some v \<Longrightarrow> 0 < v \<Longrightarrow> keff (SemP k) s = Some (s\<lparr>semv := (semv s)(k \<mapsto> v - 1)\<rparr>)"
  "semv s k = Some v \<Longrightarrow> keff (SemV k) s = Some (s\<lparr>semv := (semv s)(k \<mapsto> v + 1)\<rparr>)"
  "keff (ForkThread t arg) s = Some (s\<lparr>forked_args := (forked_args s)(t \<mapsto> arg)\<rparr>)"
  "keff FinishThread s = None"
  "keyboard s \<noteq> [] \<Longrightarrow> keff AwaitChar s = Some s"
  "keff (PutCh c) s = Some (s\<lparr>screen := screen s @ [c]\<rparr>)"
  by (simp_all add: keff_def)

type_synonym ('z, 'a) routine = "(kop, 'z Sys_scheme, 'a) prog"

text \<open>\<open>P\<close> and \<open>V\<close> on a semaphore object that may have been deleted; \<open>new Semaphore(name, v)\<close>.\<close>

definition semP :: "nat \<Rightarrow> 'z Sys_scheme \<Rightarrow> ('z, unit) routine" where
  "semP k s = (if semv s k = None then Fault UseAfterFree else callP (SemP k) s)"

definition semV :: "nat \<Rightarrow> 'z Sys_scheme \<Rightarrow> ('z, unit) routine" where
  "semV k s = (if semv s k = None then Fault UseAfterFree else callP (SemV k) s)"

definition new_sem :: "int \<Rightarrow> 'z Sys_scheme \<Rightarrow> nat \<times> 'z Sys_scheme" where
  "new_sem v s = (next_semv s, s\<lparr>semv := (semv s)(next_semv s \<mapsto> v), next_semv := Suc (next_semv s)\<rparr>)"

definition del_sem :: "nat \<Rightarrow> 'z Sys_scheme \<Rightarrow> 'z Sys_scheme res" where
  "del_sem k s = (if semv s k = None then Inl UseAfterFree else Inr (s\<lparr>semv := (semv s)(k := None)\<rparr>))"

text \<open>
  A call in a process. When the processor is given away and comes back, \<open>Scheduler::Run\<close> has saved and
  restored the registers of the process and reinstalled its page table.
\<close>

definition restore_user :: "Machine \<Rightarrow> Machine \<Rightarrow> Machine" where
  "restore_user m m' = m'\<lparr>registers := registers m, pageTable := pageTable m, pageTableSize := pageTableSize m\<rparr>"

definition user_call :: "kop \<Rightarrow> 'z Sys_scheme \<Rightarrow> ('z, unit) routine" where
  "user_call c s = Call c s (\<lambda>s'. Ret () (s'\<lparr>mach := restore_user (mach s) (mach s')\<rparr>))"

definition userP :: "nat \<Rightarrow> 'z Sys_scheme \<Rightarrow> ('z, unit) routine" where
  "userP k s = (if semv s k = None then Fault UseAfterFree else user_call (SemP k) s)"

definition userV :: "nat \<Rightarrow> 'z Sys_scheme \<Rightarrow> ('z, unit) routine" where
  "userV k s = (if semv s k = None then Fault UseAfterFree else user_call (SemV k) s)"

lemma restore_user_same [simp]: "restore_user m m = m"
  by (simp add: restore_user_def)

lemma solo_userP [simp]: "semv s k = Some v \<Longrightarrow> 0 < v \<Longrightarrow>
    solo keff (bindP (userP k s) f) = solo keff (f () (s\<lparr>semv := (semv s)(k \<mapsto> v - 1)\<rparr>))"
  by (simp add: userP_def user_call_def)

lemma solo_userV [simp]: "semv s k = Some v \<Longrightarrow>
    solo keff (bindP (userV k s) f) = solo keff (f () (s\<lparr>semv := (semv s)(k \<mapsto> v + 1)\<rparr>))"
  by (simp add: userV_def user_call_def)

end
