(* ===== verification/Nachos_AddrSpace.thy ===== *)
theory Nachos_AddrSpace
  imports Nachos_Sys
begin

text \<open>
  User address spaces: \<open>userprog/addrspace.cc\<close> and the object file format of \<open>userprog/noff.h\<close>.

  Sizes and addresses of the header are 32-bit words, read as signed numbers where the code has \<open>int\<close>. An
  executable shorter than its header leaves the rest of the local variable as it was; those bytes are the
  parameter \<open>junk\<close>. \<open>AddrSpace::Load\<close> is one routine with two calls (the lock on physical frames); the part between
  them is \<open>Load_frames\<close>.
\<close>

section \<open>NOFF headers\<close>

record Segment =
  virtualAddr :: i32
  inFileAddr :: i32
  seg_size :: i32

record NoffHeader =
  noffMagic :: i32
  code :: Segment
  initData :: Segment
  readonlyData :: Segment
  uninitData :: Segment

definition NOFFMAGIC :: i32 where "NOFFMAGIC = 0xbadfad"
definition UserStackSize :: i32 where "UserStackSize = 1024"
definition sizeof_NoffHeader :: nat where "sizeof_NoffHeader = 52"

definition segment_at :: "byte list \<Rightarrow> nat \<Rightarrow> Segment" where
  "segment_at b i = \<lparr>virtualAddr = word_at b i, inFileAddr = word_at b (i + 4), seg_size = word_at b (i + 8)\<rparr>"

definition noff_of_bytes :: "byte list \<Rightarrow> NoffHeader" where
  "noff_of_bytes b = \<lparr>noffMagic = word_at b 0, code = segment_at b 4, initData = segment_at b 16,
     readonlyData = segment_at b 28, uninitData = segment_at b 40\<rparr>"

definition swap_segment :: "Segment \<Rightarrow> Segment" where
  "swap_segment g = \<lparr>virtualAddr = WordToHost (virtualAddr g), inFileAddr = WordToHost (inFileAddr g), seg_size = WordToHost (seg_size g)\<rparr>"

definition SwapHeader :: "NoffHeader \<Rightarrow> NoffHeader" where
  "SwapHeader n = \<lparr>noffMagic = WordToHost (noffMagic n), code = swap_segment (code n), initData = swap_segment (initData n),
     readonlyData = swap_segment (readonlyData n), uninitData = swap_segment (uninitData n)\<rparr>"

section \<open>Construction and destruction\<close>

definition AddrSpace_new :: AddrSpace where
  "AddrSpace_new = \<lparr>as_pageTable = None, numPages = 0\<rparr>"

definition clear_frames :: "TranslationEntry list \<Rightarrow> Bitmap \<Rightarrow> Bitmap res" where
  "clear_frames pt b = foldR (\<lambda>e b. Bitmap_Clear b (sint (physicalPage e))) pt b"

definition AddrSpace_delete :: "AddrSpace \<Rightarrow> 'z Sys_scheme \<Rightarrow> 'z Sys_scheme res" where
  "AddrSpace_delete sp s =
     (if numPages sp = 0 then Inr s
      else case as_pageTable sp of
        None \<Rightarrow> Inl NullDeref
      | Some pt \<Rightarrow>
          if unat (numPages sp) \<le> length pt
          then bindR (clear_frames (take (unat (numPages sp)) pt) (gPhysPageBitMap s)) (\<lambda>b. Inr (s\<lparr>gPhysPageBitMap := b\<rparr>))
          else Inl OutOfBounds)"

section \<open>Load\<close>

text \<open>\<open>bzero\<close> and \<open>memcpy\<close> into the main memory.\<close>

definition store_mem :: "int \<Rightarrow> byte list \<Rightarrow> Machine \<Rightarrow> Machine res" where
  "store_mem a bs m =
     (if 0 \<le> a \<and> a + int (length bs) \<le> int MemorySize
      then Inr (m\<lparr>mainMemory := (\<lambda>p. if nat a \<le> p \<and> p < nat a + length bs then bs ! (p - nat a) else mainMemory m p)\<rparr>)
      else Inl OutOfBounds)"

text \<open>The loop that gives page \<open>i\<close>, \<open>i + 1\<close>, ... a frame each and zeroes it.\<close>

fun alloc_pages :: "nat \<Rightarrow> nat \<Rightarrow> Bitmap \<Rightarrow> Machine \<Rightarrow> (TranslationEntry list \<times> Bitmap \<times> Machine) res" where
  "alloc_pages i 0 b m = Inr ([], b, m)"
| "alloc_pages i (Suc n) b m =
     bindR (Bitmap_FindAndSet b) (\<lambda>(clearFrame, b).
     bindR (ASSERT (clearFrame \<noteq> -1)) (\<lambda>_.
     bindR (store_mem (clearFrame * int PageSize) (replicate PageSize 0) m) (\<lambda>m.
     bindR (alloc_pages (Suc i) n b m) (\<lambda>(pt, b, m).
     Inr (\<lparr>virtualPage = of_nat i, physicalPage = of_int clearFrame, valid = True, readOnly = False, use_bit = False, dirty = False\<rparr> # pt, b, m)))))"

text \<open>\<open>executable->ReadAt(buffer + vaddr, size, inFileAddr)\<close> for a segment that is not empty.\<close>

definition read_segment :: "OpenFile \<Rightarrow> Segment \<Rightarrow> byte list \<times> 'z Host_scheme \<Rightarrow> (byte list \<times> 'z Host_scheme) res" where
  "read_segment f g = (\<lambda>(buffer, s).
     let vaddr = sint (virtualAddr g); sz = sint (seg_size g) in
     if sz = 0 then Inr (buffer, s)
     else if vaddr < 0 \<or> vaddr > int (length buffer) then Inl OutOfBounds
     else bindR (OpenFile_ReadAt f (drop (nat vaddr) buffer) sz (sint (inFileAddr g)) s) (\<lambda>(_, bs, s).
       Inr (take (nat vaddr) buffer @ bs, s)))"

definition copy_page :: "TranslationEntry list \<Rightarrow> byte list \<Rightarrow> int \<Rightarrow> int \<Rightarrow> int \<Rightarrow> Machine \<Rightarrow> Machine res" where
  "copy_page pt buffer pages lastPage i m =
     bindR (aget pt i) (\<lambda>e.
     let n = (if i = pages - 1 then lastPage else int PageSize) in
     if i * int PageSize + n \<le> int (length buffer)
     then store_mem (sint (physicalPage e) * int PageSize) (take (nat n) (drop (nat i * PageSize) buffer)) m
     else Inl OutOfBounds)"

definition copy_pages :: "TranslationEntry list \<Rightarrow> byte list \<Rightarrow> Machine \<Rightarrow> Machine res" where
  "copy_pages pt buffer m =
     (let actualSize = int (length buffer);
          pages = divRoundUp actualSize (int PageSize);
          rem = actualSize smod int PageSize;
          lastPage = (if rem = 0 then int PageSize else rem)
      in foldR (copy_page pt buffer pages lastPage) (map int [0..<nat pages]) m)"

text \<open>Everything under the lock: \<open>False\<close> when there are not enough frames.\<close>

definition Load_frames :: "OpenFile \<Rightarrow> NoffHeader \<Rightarrow> u32 \<Rightarrow> 'z Sys_scheme \<Rightarrow> ((bool \<times> AddrSpace) \<times> 'z Sys_scheme) res" where
  "Load_frames executable noffH n s =
     bindR (Bitmap_NumClear (gPhysPageBitMap s)) (\<lambda>free.
     if uint n > uint (of_int free :: u32)
     then bindR (OpenFile_delete executable s) (\<lambda>s. Inr ((False, \<lparr>as_pageTable = None, numPages = 0\<rparr>), s))
     else
       bindR (alloc_pages 0 (unat n) (gPhysPageBitMap s) (mach s)) (\<lambda>(pt, b, m).
       let actualSize = sint (seg_size (code noffH) + seg_size (initData noffH) + seg_size (readonlyData noffH)) in
       if actualSize < 0 then Inl AllocFailed
       else
         bindR (foldR (read_segment executable) [code noffH, readonlyData noffH, initData noffH]
                  (replicate (nat actualSize) 0, s\<lparr>gPhysPageBitMap := b\<rparr>)) (\<lambda>(buffer, s).
         bindR (copy_pages pt buffer m) (\<lambda>m.
         Inr ((True, \<lparr>as_pageTable = Some pt, numPages = n\<rparr>), s\<lparr>mach := m\<rparr>)))))"

definition Load_header :: "byte list \<Rightarrow> OpenFile \<Rightarrow> 'z Host_scheme \<Rightarrow> (NoffHeader \<times> 'z Host_scheme) res" where
  "Load_header junk executable s =
     bindR (OpenFile_ReadAt executable junk (int sizeof_NoffHeader) 0 s) (\<lambda>(_, bytes, s).
     let noffH = noff_of_bytes bytes;
         noffH = (if noffMagic noffH \<noteq> NOFFMAGIC \<and> WordToHost (noffMagic noffH) = NOFFMAGIC then SwapHeader noffH else noffH) in
     bindR (ASSERT (noffMagic noffH = NOFFMAGIC)) (\<lambda>_. Inr (noffH, s)))"

definition Load_pages :: "NoffHeader \<Rightarrow> u32" where
  "Load_pages noffH = of_int (divRoundUp (sint (seg_size (code noffH) + seg_size (readonlyData noffH) + seg_size (initData noffH) +
     seg_size (uninitData noffH) + UserStackSize)) (int PageSize))"

definition AddrSpace_Load :: "byte list \<Rightarrow> byte list \<Rightarrow> 'z Sys_scheme \<Rightarrow> ('z, bool \<times> AddrSpace) routine" where
  "AddrSpace_Load junk name s =
     bindP (liftP (FileSystem_Open name s)) (\<lambda>executable s. case executable of
       None \<Rightarrow> Ret (False, AddrSpace_new) s
     | Some f \<Rightarrow>
         bindP (liftP (Load_header junk f s)) (\<lambda>noffH s.
         bindP (semP (addrLock s) s) (\<lambda>_ s.
         bindP (liftP (Load_frames f noffH (Load_pages noffH) s)) (\<lambda>(ok, sp) s.
         bindP (semV (addrLock s) s) (\<lambda>_ s.
         if ok then bindP (liftP (bindR (OpenFile_delete f s) (\<lambda>s. Inr ((), s)))) (\<lambda>_ s. Ret (True, sp) s)
         else Ret (False, sp) s)))))"

section \<open>Registers and translation\<close>

definition InitRegisters :: "AddrSpace \<Rightarrow> Machine \<Rightarrow> Machine res" where
  "InitRegisters sp m =
     bindR (foldR (\<lambda>i m. WriteRegister m (int i) 0) [0..<NumTotalRegs] m) (\<lambda>m.
     bindR (WriteRegister m (int PCReg) 0) (\<lambda>m.
     bindR (WriteRegister m (int NextPCReg) 4) (\<lambda>m.
     WriteRegister m (int StackReg) (numPages sp * of_nat PageSize - 16))))"

definition AddrSpace_RestoreState :: "AddrSpace \<Rightarrow> Machine \<Rightarrow> Machine" where
  "AddrSpace_RestoreState sp m = m\<lparr>pageTable := as_pageTable sp, pageTableSize := numPages sp\<rparr>"

text \<open>\<open>Execute\<close> up to the jump to user code.\<close>

definition AddrSpace_Execute :: "nat \<Rightarrow> AddrSpace \<Rightarrow> 'z Sys_scheme \<Rightarrow> 'z Sys_scheme res" where
  "AddrSpace_Execute t sp s =
     bindR (InitRegisters sp (mach s)) (\<lambda>m.
     Inr (s\<lparr>spaces := (spaces s)(t \<mapsto> sp), mach := AddrSpace_RestoreState sp m\<rparr>))"

definition AddrSpace_Translate :: "AddrSpace \<Rightarrow> u32 \<Rightarrow> bool \<Rightarrow> (ExceptionType + u32 \<times> AddrSpace) res" where
  "AddrSpace_Translate sp vaddr isReadWrite =
     (let vpn = vaddr div of_nat PageSize; offset = vaddr mod of_nat PageSize in
      if vpn \<ge> numPages sp then Inr (Inl AddressErrorException)
      else bindR (case as_pageTable sp of None \<Rightarrow> Inl NullDeref | Some pt \<Rightarrow> Inr pt) (\<lambda>pt.
        bindR (aget pt (uint vpn)) (\<lambda>pte.
        if isReadWrite \<and> readOnly pte then Inr (Inl ReadOnlyException)
        else let pfn = physicalPage pte in
          if sint pfn \<ge> int NumPhysPages then Inr (Inl BusErrorException)
          else let pte = pte\<lparr>use_bit := True, dirty := dirty pte \<or> isReadWrite\<rparr>;
                   paddr = pfn * of_nat PageSize + offset
               in bindR (ASSERT (uint paddr < int MemorySize)) (\<lambda>_.
                  Inr (Inr (paddr, sp\<lparr>as_pageTable := Some (pt[unat vpn := pte])\<rparr>))))))"

section \<open>Frames\<close>

definition frames :: "TranslationEntry list \<Rightarrow> int list" where
  "frames pt = map (\<lambda>e. sint (physicalPage e)) pt"

lemma frames_simps [simp]: "frames [] = []" "frames (e # pt) = sint (physicalPage e) # frames pt" "length (frames pt) = length pt"
  by (simp_all add: frames_def)

lemma frames_nth: "k < length pt \<Longrightarrow> frames pt ! k = sint (physicalPage (pt ! k))"
  by (simp add: frames_def)

text \<open>The machine with some memory changed.\<close>

definition in_frame :: "int \<Rightarrow> nat \<Rightarrow> bool" where
  "in_frame f p \<longleftrightarrow> int p div 128 = f"

lemma in_frame_range: "0 \<le> f \<Longrightarrow> in_frame f p \<longleftrightarrow> nat (f * 128) \<le> p \<and> p < nat (f * 128) + 128"
  unfolding in_frame_def by linarith

lemma store_frame:
  assumes "0 \<le> f" "f < 128" "length bs \<le> 128"
  shows "store_mem (f * int PageSize) bs m = Inr (m\<lparr>mainMemory := (\<lambda>p. if nat (f * 128) \<le> p \<and> p < nat (f * 128) + length bs then bs ! (p - nat (f * 128)) else mainMemory m p)\<rparr>)"
  using assms by (simp add: store_mem_def PageSize_def MemorySize_def NumPhysPages_def)

lemma zero_frame:
  assumes "0 \<le> f" "f < 128"
  shows "store_mem (f * int PageSize) (replicate PageSize 0) m = Inr (m\<lparr>mainMemory := (\<lambda>p. if in_frame f p then 0 else mainMemory m p)\<rparr>)"
proof -
  define z where "z = replicate PageSize (0 :: byte)"
  have z: "length z = 128" "i < 128 \<Longrightarrow> z ! i = 0" for i by (simp_all add: z_def PageSize_def)
  have "(\<lambda>p. if nat (f * 128) \<le> p \<and> p < nat (f * 128) + length z then z ! (p - nat (f * 128)) else mainMemory m p) =
      (\<lambda>p. if in_frame f p then 0 else mainMemory m p)"
  proof (rule ext)
    fix p
    have "p - nat (f * 128) < 128" if "nat (f * 128) \<le> p \<and> p < nat (f * 128) + 128" using that by linarith
    then show "(if nat (f * 128) \<le> p \<and> p < nat (f * 128) + length z then z ! (p - nat (f * 128)) else mainMemory m p) =
        (if in_frame f p then 0 else mainMemory m p)"
      unfolding in_frame_range [OF assms(1)] z(1) using z(2) by presburger
  qed
  then show ?thesis using store_frame [OF assms, of z m] z(1) by (simp add: z_def)
qed

lemma sint_frame: "0 \<le> f \<Longrightarrow> f < 128 \<Longrightarrow> sint (of_int f :: i32) = f"
  by (simp add: signed_of_int signed_take_bit_int_eq_self)

lemma alloc_pages_ok:
  assumes "Bitmap_ok b" "numBits b = 128" "int n \<le> int (card ({0..<128} - Bitmap_used b))"
  shows "\<exists>pt b' m'. alloc_pages i n b m = Inr (pt, b', m') \<and> length pt = n \<and> distinct (frames pt) \<and>
    set (frames pt) \<subseteq> {0..<128} - Bitmap_used b \<and> Bitmap_ok b' \<and> numBits b' = 128 \<and>
    Bitmap_used b' = Bitmap_used b \<union> set (frames pt) \<and> (\<forall>e\<in>set pt. valid e \<and> \<not> readOnly e) \<and>
    m' = m\<lparr>mainMemory := (\<lambda>p. if int p div 128 \<in> set (frames pt) then 0 else mainMemory m p)\<rparr>"
  using assms
proof (induction n arbitrary: i b m)
  case 0
  then show ?case by simp
next
  case (Suc n)
  have "Bitmap_used b \<noteq> {0..<numBits b}" using Suc.prems by auto
  then obtain f b1 where f: "Bitmap_FindAndSet b = Inr (f, b1)" "0 \<le> f" "f < 128"
    "f \<notin> Bitmap_used b" "Bitmap_ok b1" "numBits b1 = 128" "Bitmap_used b1 = insert f (Bitmap_used b)"
    using bm.find_free [OF Suc.prems(1)] Suc.prems(2) by auto
  have "{0..<128} - Bitmap_used b1 = ({0..<128} - Bitmap_used b) - {f}" using f by auto
  then have "int (card ({0..<128} - Bitmap_used b1)) = int (card ({0..<128} - Bitmap_used b)) - 1"
    using f card_Suc_Diff1 [of "{0..<128} - Bitmap_used b" f] by simp
  with Suc.prems have c: "int n \<le> int (card ({0..<128} - Bitmap_used b1))" by simp
  let ?m = "m\<lparr>mainMemory := (\<lambda>p. if in_frame f p then 0 else mainMemory m p)\<rparr>"
  obtain pt b' m' where IH: "alloc_pages (Suc i) n b1 ?m = Inr (pt, b', m')" "length pt = n" "distinct (frames pt)"
      "set (frames pt) \<subseteq> {0..<128} - Bitmap_used b1" "Bitmap_ok b'" "numBits b' = 128"
      "Bitmap_used b' = Bitmap_used b1 \<union> set (frames pt)" "\<forall>e\<in>set pt. valid e \<and> \<not> readOnly e"
      "m' = ?m\<lparr>mainMemory := (\<lambda>p. if int p div 128 \<in> set (frames pt) then 0 else mainMemory ?m p)\<rparr>"
    using Suc.IH [OF f(5,6) c, of "Suc i" ?m] by blast
  let ?e = "\<lparr>virtualPage = of_nat i, physicalPage = of_int f, valid = True, readOnly = False, use_bit = False, dirty = False\<rparr>"
  have "alloc_pages i (Suc n) b m = Inr (?e # pt, b', m')"
    using f(1-3) IH(1) zero_frame [OF f(2,3), of m] by simp
  moreover have "m' = m\<lparr>mainMemory := (\<lambda>p. if int p div 128 \<in> set (frames (?e # pt)) then 0 else mainMemory m p)\<rparr>"
    unfolding IH(9) by (simp add: sint_frame [OF f(2,3)] in_frame_def fun_eq_iff cong: Machine.fold_congs)
  ultimately show ?case using f IH(2-8) sint_frame [OF f(2,3)]
    by (intro exI [of _ "?e # pt"] exI [of _ b'] exI [of _ m']) auto
qed

text \<open>Where the byte at virtual address \<open>v\<close> is.\<close>

definition phys :: "TranslationEntry list \<Rightarrow> nat \<Rightarrow> nat" where
  "phys pt v = nat (frames pt ! (v div 128)) * 128 + v mod 128"

lemma phys_frame: "v div 128 < length pt \<Longrightarrow> 0 \<le> frames pt ! (v div 128) \<Longrightarrow> int (phys pt v) div 128 = frames pt ! (v div 128)"
proof -
  assume "0 \<le> frames pt ! (v div 128)"
  then have "int (phys pt v) = frames pt ! (v div 128) * 128 + int (v mod 128)" by (simp add: phys_def)
  moreover have "0 \<le> int (v mod 128)" "int (v mod 128) < 128" by simp_all
  ultimately show ?thesis by linarith
qed

lemma phys_inj:
  assumes "distinct (frames pt)" "set (frames pt) \<subseteq> {0..<128}" "v div 128 < length pt" "w div 128 < length pt" "phys pt v = phys pt w"
  shows "v = w"
proof -
  have nn: "0 \<le> frames pt ! (v div 128)" "0 \<le> frames pt ! (w div 128)" using assms(2-4) nth_mem [of _ "frames pt"] by force+
  have "frames pt ! (v div 128) = frames pt ! (w div 128)" using phys_frame [OF assms(3) nn(1)] phys_frame [OF assms(4) nn(2)] assms(5) by simp
  then have d: "v div 128 = w div 128" using assms(1,3,4) by (simp add: nth_eq_iff_index_eq)
  then have "v mod 128 = w mod 128" using assms(5) by (simp add: phys_def)
  with d show ?thesis by (metis div_mult_mod_eq)
qed

lemma frames_range: "set (frames pt) \<subseteq> {0..<128} \<Longrightarrow> k < length pt \<Longrightarrow> 0 \<le> frames pt ! k \<and> frames pt ! k < 128"
  using subsetD [of "set (frames pt)" "{0..<128}" "frames pt ! k"] nth_mem [of k "frames pt"] by simp

lemma phys_page: "j < 128 \<Longrightarrow> phys pt (k * 128 + j) = nat (frames pt ! k) * 128 + j"
  by (simp add: phys_def)

text \<open>The first \<open>n\<close> bytes of the buffer are in place and nothing else has changed.\<close>

definition placed :: "TranslationEntry list \<Rightarrow> byte list \<Rightarrow> nat \<Rightarrow> Machine \<Rightarrow> Machine \<Rightarrow> bool" where
  "placed pt buffer n m m' \<longleftrightarrow> m' = m\<lparr>mainMemory := mainMemory m'\<rparr> \<and> (\<forall>v<n. mainMemory m' (phys pt v) = buffer ! v) \<and>
     (\<forall>p. (\<forall>v<n. p \<noteq> phys pt v) \<longrightarrow> mainMemory m' p = mainMemory m p)"

lemma mem_over: "m = m0\<lparr>mainMemory := Y\<rparr> \<Longrightarrow> m\<lparr>mainMemory := X\<rparr> = m0\<lparr>mainMemory := X\<rparr>" for m m0 :: Machine
  by simp

lemma pages_bound:
  assumes "pages = divRoundUp (int L) 128" "r0 = int L smod 128" "lst = (if r0 = 0 then 128 else r0)" "0 \<le> i" "i < pages"
  shows "i * 128 + (if i = pages - 1 then lst else 128) = int (min ((nat i + 1) * 128) L) \<and>
    0 < (if i = pages - 1 then lst else 128) \<and> (if i = pages - 1 then lst else 128) \<le> 128"
proof -
  have p: "pages = int L div 128 + (if int L mod 128 > 0 then 1 else 0)" "r0 = int L mod 128"
    using assms(1,2) by (simp_all add: divRoundUp_eq smod_nonneg)
  define q r where "q = int L div 128" and "r = int L mod 128"
  have L: "int L = q * 128 + r" "0 \<le> r" "r < 128" by (simp_all add: q_def r_def)
  have m: "int (min ((nat i + 1) * 128) L) = min ((i + 1) * 128) (int L)" using assms(4) by (simp add: of_nat_min)
  show ?thesis
  proof (cases "r = 0")
    case True
    then show ?thesis using p assms(3-5) L unfolding m q_def [symmetric] r_def [symmetric] by (simp add: min_def)
  next
    case False
    then have "pages = q + 1" "lst = r" using p assms(3) L by (simp_all add: q_def [symmetric] r_def [symmetric])
    then show ?thesis using assms(4,5) L False unfolding m by (simp add: min_def)
  qed
qed

lemma copy_page_ok:
  assumes d: "distinct (frames pt)" "set (frames pt) \<subseteq> {0..<128}" and L: "length buffer \<le> length pt * 128"
    and p: "pages = divRoundUp (int (length buffer)) 128" "r0 = int (length buffer) smod 128" "lst = (if r0 = 0 then 128 else r0)"
    and k: "int k < pages" and m: "placed pt buffer (min (k * 128) (length buffer)) m0 m"
  shows "\<exists>m'. copy_page pt buffer pages lst (int k) m = Inr m' \<and> placed pt buffer (min (Suc k * 128) (length buffer)) m0 m'"
proof -
  let ?L = "length buffer"
  define n where "n = (if int k = pages - 1 then lst else 128)"
  have b: "int k * 128 + n = int (min ((k + 1) * 128) ?L)" "0 < n" "n \<le> 128" using pages_bound [OF p, of "int k"] k unfolding n_def by simp_all
  then have kL: "k * 128 < ?L" by linarith
  then have kp: "k < length pt" using L by linarith
  define f where "f = frames pt ! k"
  have f: "0 \<le> f" "f < 128" using frames_range [OF d(2) kp] by (simp_all add: f_def)
  define bs where "bs = take (nat n) (drop (k * 128) buffer)"
  have lb: "length bs = nat n" using b by (auto simp: bs_def)
  have nth: "j < nat n \<Longrightarrow> bs ! j = buffer ! (k * 128 + j)" for j using b kL by (simp add: bs_def)
  define m' where "m' = m\<lparr>mainMemory := (\<lambda>p. if nat (f * 128) \<le> p \<and> p < nat (f * 128) + length bs then bs ! (p - nat (f * 128)) else mainMemory m p)\<rparr>"
  have "int k * 128 + n \<le> int ?L" using b(1) by simp
  moreover have "aget pt (int k) = Inr (pt ! k)" using kp by simp
  moreover have "store_mem (f * int PageSize) bs m = Inr m'" using store_frame [OF f, of bs m] lb b(3) by (simp add: m'_def)
  ultimately have r: "copy_page pt buffer pages lst (int k) m = Inr m'"
    unfolding copy_page_def Let_def PageSize_def of_nat_numeral n_def [symmetric] f_def frames_nth [OF kp] bs_def by simp
  have N: "min (Suc k * 128) ?L = k * 128 + nat n"
  proof -
    have "int (min (Suc k * 128) ?L) = int (k * 128 + nat n)" using b by simp
    then show ?thesis by (simp only: of_nat_eq_iff)
  qed
  have M: "min (k * 128) ?L = k * 128" using kL by simp
  have new: "mainMemory m' (phys pt (k * 128 + j)) = buffer ! (k * 128 + j)" if "j < nat n" for j
  proof -
    have "phys pt (k * 128 + j) = nat (f * 128) + j" using that b(3) f(1) phys_page [of j pt k] by (simp add: f_def nat_mult_distrib)
    then show ?thesis using that lb nth [OF that] by (simp add: m'_def)
  qed
  have old: "mainMemory m' p = mainMemory m p" if "\<forall>j<nat n. p \<noteq> phys pt (k * 128 + j)" for p
  proof -
    have "\<not> (nat (f * 128) \<le> p \<and> p < nat (f * 128) + length bs)"
    proof
      assume a: "nat (f * 128) \<le> p \<and> p < nat (f * 128) + length bs"
      define j where "j = p - nat (f * 128)"
      have j: "j < nat n" "p = nat (f * 128) + j" using a lb by (auto simp: j_def)
      then have "p = phys pt (k * 128 + j)" using b(3) f(1) phys_page [of j pt k] by (simp add: f_def nat_mult_distrib)
      then show False using that j(1) by blast
    qed
    then show ?thesis unfolding m'_def by auto
  qed
  have inj: "phys pt v \<noteq> phys pt (k * 128 + j)" if "v < k * 128" "j < nat n" for v j
  proof
    assume "phys pt v = phys pt (k * 128 + j)"
    moreover have "v div 128 < length pt" "(k * 128 + j) div 128 < length pt" using that kp b(3) by auto
    ultimately have "v = k * 128 + j" using phys_inj [OF d] by blast
    then show False using that(1) by simp
  qed
  have "placed pt buffer (k * 128 + nat n) m0 m'" unfolding placed_def
  proof (intro conjI allI impI)
    have "m = m0\<lparr>mainMemory := mainMemory m\<rparr>" using m by (simp only: placed_def)
    note e = mem_over [OF this]
    show "m' = m0\<lparr>mainMemory := mainMemory m'\<rparr>" by (simp add: m'_def e)
  next
    fix v assume v: "v < k * 128 + nat n"
    show "mainMemory m' (phys pt v) = buffer ! v"
    proof (cases "v < k * 128")
      case True
      then have "mainMemory m' (phys pt v) = mainMemory m (phys pt v)" using old inj by blast
      then show ?thesis using m True unfolding placed_def M by simp
    next
      case False
      then obtain j where "v = k * 128 + j" using le_Suc_ex by (metis not_less)
      then show ?thesis using new v by simp
    qed
  next
    fix p assume p: "\<forall>v<k * 128 + nat n. p \<noteq> phys pt v"
    then have "mainMemory m' p = mainMemory m p" using old by simp
    moreover have "mainMemory m p = mainMemory m0 p" using m p unfolding placed_def M by simp
    ultimately show "mainMemory m' p = mainMemory m0 p" by simp
  qed
  then show ?thesis using r N by auto
qed

lemma copy_pages_ok:
  assumes d: "distinct (frames pt)" "set (frames pt) \<subseteq> {0..<128}" and L: "length buffer \<le> length pt * 128"
  shows "\<exists>m'. copy_pages pt buffer m = Inr m' \<and> placed pt buffer (length buffer) m m'"
proof -
  define pages where "pages = divRoundUp (int (length buffer)) 128"
  define r0 where "r0 = int (length buffer) smod 128"
  define lst where "lst = (if r0 = 0 then 128 else r0)"
  have "\<exists>m'. foldR (copy_page pt buffer pages lst) (map int [0..<k]) m = Inr m' \<and> placed pt buffer (min (k * 128) (length buffer)) m m'"
    if "k \<le> nat pages" for k
    using that
  proof (induction k)
    case 0
    then show ?case by (simp add: placed_def)
  next
    case (Suc k)
    then obtain m1 where m1: "foldR (copy_page pt buffer pages lst) (map int [0..<k]) m = Inr m1" "placed pt buffer (min (k * 128) (length buffer)) m m1"
      by auto
    have "int k < pages" using Suc.prems by linarith
    then obtain m' where "copy_page pt buffer pages lst (int k) m1 = Inr m'" "placed pt buffer (min (Suc k * 128) (length buffer)) m m'"
      using copy_page_ok [OF d L pages_def r0_def lst_def _ m1(2)] by blast
    then show ?case using m1(1) by (simp add: foldR_append)
  qed
  from this [of "nat pages"] obtain m' where "foldR (copy_page pt buffer pages lst) (map int [0..<nat pages]) m = Inr m'"
      "placed pt buffer (min (nat pages * 128) (length buffer)) m m'" by blast
  moreover have "length buffer \<le> nat pages * 128" using divRoundUp_ge [of "int (length buffer)" 128] by (simp add: pages_def nat_le_iff)
  moreover have "copy_pages pt buffer m = foldR (copy_page pt buffer pages lst) (map int [0..<nat pages]) m"
    unfolding copy_pages_def Let_def PageSize_def pages_def lst_def r0_def of_nat_numeral by (rule refl)
  ultimately show ?thesis by (simp add: min_absorb2)
qed

section \<open>The image of a program\<close>

definition seg_in :: "Segment \<Rightarrow> nat \<Rightarrow> byte list \<Rightarrow> bool" where
  "seg_in g n d \<longleftrightarrow> sint (seg_size g) = 0 \<or> 0 < sint (seg_size g) \<and> 0 \<le> sint (virtualAddr g) \<and> 0 \<le> sint (inFileAddr g) \<and>
     sint (virtualAddr g) + sint (seg_size g) \<le> int n \<and> sint (inFileAddr g) + sint (seg_size g) \<le> int (length d)"

definition covers :: "Segment \<Rightarrow> nat \<Rightarrow> bool" where
  "covers g v \<longleftrightarrow> sint (virtualAddr g) \<le> int v \<and> int v < sint (virtualAddr g) + sint (seg_size g)"

definition seg_byte :: "Segment \<Rightarrow> byte list \<Rightarrow> nat \<Rightarrow> byte" where
  "seg_byte g d v = d ! (nat (sint (inFileAddr g)) + v - nat (sint (virtualAddr g)))"

definition place :: "Segment \<Rightarrow> byte list \<Rightarrow> byte list \<Rightarrow> byte list" where
  "place g d buffer = (if sint (seg_size g) = 0 then buffer
     else take (nat (sint (virtualAddr g))) buffer @ take (nat (sint (seg_size g))) (drop (nat (sint (inFileAddr g))) d) @
       drop (nat (sint (virtualAddr g)) + nat (sint (seg_size g))) buffer)"

lemma length_place: "seg_in g (length buffer) d \<Longrightarrow> length (place g d buffer) = length buffer"
  by (auto simp: seg_in_def place_def)

lemma nth_place:
  assumes g: "seg_in g (length buffer) d" and v: "v < length buffer"
  shows "place g d buffer ! v = (if covers g v then seg_byte g d v else buffer ! v)"
proof (cases "sint (seg_size g) = 0")
  case True
  then show ?thesis by (auto simp: place_def covers_def)
next
  case False
  define a z i where "a = nat (sint (virtualAddr g))" and "z = nat (sint (seg_size g))" and "i = nat (sint (inFileAddr g))"
  have b: "a + z \<le> length buffer" "i + z \<le> length d" using g False by (auto simp: seg_in_def a_def z_def i_def)
  have c: "covers g v \<longleftrightarrow> a \<le> v \<and> v < a + z" using g False by (auto simp: covers_def seg_in_def a_def z_def)
  have p: "place g d buffer = take a buffer @ take z (drop i d) @ drop (a + z) buffer" using False by (simp add: place_def a_def z_def i_def)
  show ?thesis
  proof (cases "a \<le> v \<and> v < a + z")
    case True
    moreover from this have "v - a < z" by linarith
    ultimately have "place g d buffer ! v = d ! (i + (v - a))" using b by (simp add: p nth_append min_absorb2)
    then show ?thesis using True c by (simp add: seg_byte_def a_def [symmetric] i_def [symmetric])
  next
    case False
    then have "place g d buffer ! v = buffer ! v" using b v by (auto simp: p nth_append min_absorb2)
    then show ?thesis using False c by auto
  qed
qed

lemma set_fd_same: "fd_of s n = Some d \<Longrightarrow> set_fd n (Some d) s = s"
proof -
  assume "fd_of s n = Some d"
  then have "(h_fds s)[nat n := Some d] = h_fds s" by (auto simp: fd_of_def list_update_same_conv split: if_splits)
  then show ?thesis by (cases s) (simp add: set_fd_def)
qed

lemma read_segment_ok:
  assumes fd: "fd_of s (of_file f) = Some (FileFd a w off)" and d: "h_data s a = d" and g: "seg_in g (length buffer) d"
  shows "\<exists>off'. read_segment f g (buffer, s) = Inr (place g d buffer, set_fd (of_file f) (Some (FileFd a w off')) s)"
proof (cases "sint (seg_size g) = 0")
  case True
  then show ?thesis using set_fd_same [OF fd] by (intro exI [of _ off]) (simp add: read_segment_def place_def)
next
  case False
  define va z i where "va = sint (virtualAddr g)" and "z = sint (seg_size g)" and "i = sint (inFileAddr g)"
  have b: "0 \<le> va" "0 < z" "0 \<le> i" "va + z \<le> int (length buffer)" "i + z \<le> int (length d)"
    using g False by (auto simp: seg_in_def va_def z_def i_def)
  let ?bs = "take (nat z) (drop (nat i) d)"
  have l: "length ?bs = nat z" using b by auto
  have "OpenFile_ReadAt f (drop (nat va) buffer) z i s =
      Inr (int (length ?bs), ?bs @ drop (length ?bs) (drop (nat va) buffer), set_fd (of_file f) (Some (FileFd a w (nat i + length ?bs))) s)"
    using b l OpenFile_ReadAt_eq [OF fd, of "drop (nat va) buffer" z i] unfolding d Let_def by auto
  then show ?thesis using b False l
    by (auto simp: read_segment_def Let_def va_def [symmetric] z_def [symmetric] i_def [symmetric] place_def add.commute)
qed

definition segments :: "NoffHeader \<Rightarrow> Segment list" where
  "segments n = [code n, readonlyData n, initData n]"

definition image_size :: "NoffHeader \<Rightarrow> int" where
  "image_size n = sint (seg_size (code n)) + sint (seg_size (readonlyData n)) + sint (seg_size (initData n))"

text \<open>An executable the linker would produce, with contents \<open>d\<close>.\<close>

definition noff_ok :: "NoffHeader \<Rightarrow> byte list \<Rightarrow> bool" where
  "noff_ok n d \<longleftrightarrow> noffMagic n = NOFFMAGIC \<and> 0 \<le> sint (seg_size (uninitData n)) \<and>
     image_size n + sint (seg_size (uninitData n)) + 1024 < 2 ^ 31 \<and>
     (\<forall>g\<in>set (segments n). 0 \<le> sint (seg_size g) \<and> seg_in g (nat (image_size n)) d) \<and>
     (\<forall>v. \<forall>g\<in>set (segments n). \<forall>h\<in>set (segments n). covers g v \<longrightarrow> covers h v \<longrightarrow> seg_byte g d v = seg_byte h d v)"

definition program_image :: "NoffHeader \<Rightarrow> byte list \<Rightarrow> byte list" where
  "program_image n d = place (initData n) d (place (readonlyData n) d (place (code n) d (replicate (nat (image_size n)) 0)))"

lemma noff_segments:
  assumes "noff_ok n d" "length buffer = nat (image_size n)"
  shows "seg_in (code n) (length buffer) d" "seg_in (readonlyData n) (length buffer) d" "seg_in (initData n) (length buffer) d"
  using assms by (simp_all add: noff_ok_def segments_def)

lemma image_lengths:
  assumes ok: "noff_ok n d"
  shows "length (place (code n) d (replicate (nat (image_size n)) 0)) = nat (image_size n)" (is "length ?c = _")
    and "length (place (readonlyData n) d (place (code n) d (replicate (nat (image_size n)) 0))) = nat (image_size n)" (is "length ?r = _")
    and "length (program_image n d) = nat (image_size n)"
proof -
  have l: "length (replicate (nat (image_size n)) (0 :: byte)) = nat (image_size n)" by simp
  show c: "length ?c = nat (image_size n)" using length_place [OF noff_segments(1) [OF ok l]] l by simp
  show r: "length ?r = nat (image_size n)" using length_place [OF noff_segments(2) [OF ok c]] c by simp
  show "length (program_image n d) = nat (image_size n)" using length_place [OF noff_segments(3) [OF ok r]] r by (simp add: program_image_def)
qed

lemma image_byte:
  assumes ok: "noff_ok n d" and v: "v < nat (image_size n)"
  shows "g \<in> set (segments n) \<Longrightarrow> covers g v \<Longrightarrow> program_image n d ! v = seg_byte g d v"
    and "\<forall>g\<in>set (segments n). \<not> covers g v \<Longrightarrow> program_image n d ! v = 0"
proof -
  let ?z = "replicate (nat (image_size n)) (0 :: byte)"
  let ?c = "place (code n) d ?z"
  let ?r = "place (readonlyData n) d ?c"
  have l: "length ?z = nat (image_size n)" "length ?c = nat (image_size n)" "length ?r = nat (image_size n)"
    using image_lengths [OF ok] by simp_all
  have e: "program_image n d ! v = (if covers (initData n) v then seg_byte (initData n) d v else if covers (readonlyData n) v then seg_byte (readonlyData n) d v
      else if covers (code n) v then seg_byte (code n) d v else 0)"
    using v l noff_segments [OF ok l(1)] noff_segments [OF ok l(2)] noff_segments [OF ok l(3)]
    by (simp add: program_image_def nth_place)
  show "program_image n d ! v = seg_byte g d v" if "g \<in> set (segments n)" "covers g v"
  proof -
    have s: "seg_byte h d v = seg_byte g d v" if "h \<in> set (segments n)" "covers h v" for h
      using ok that \<open>g \<in> set (segments n)\<close> \<open>covers g v\<close> unfolding noff_ok_def by blast
    have m: "code n \<in> set (segments n)" "readonlyData n \<in> set (segments n)" "initData n \<in> set (segments n)" by (simp_all add: segments_def)
    have "covers (code n) v \<or> covers (readonlyData n) v \<or> covers (initData n) v" using that unfolding segments_def by auto
    then show ?thesis unfolding e using s [OF m(1)] s [OF m(2)] s [OF m(3)] by presburger
  qed
  show "program_image n d ! v = 0" if "\<forall>g\<in>set (segments n). \<not> covers g v" using e that by (simp add: segments_def)
qed

section \<open>Loading a program\<close>

lemma sint_add_small: "0 \<le> sint a \<Longrightarrow> 0 \<le> sint b \<Longrightarrow> sint a + sint b < 2 ^ 31 \<Longrightarrow> sint (a + b) = sint (a :: i32) + sint b"
  by (simp add: sint_add)

lemma noff_sizes:
  assumes "noff_ok n d"
  shows "sint (seg_size (code n) + seg_size (initData n) + seg_size (readonlyData n)) = image_size n" (is ?A)
    and "int (unat (Load_pages n)) = divRoundUp (image_size n + sint (seg_size (uninitData n)) + 1024) 128" (is ?B)
    and "image_size n + sint (seg_size (uninitData n)) + 1024 \<le> int (unat (Load_pages n)) * 128" (is ?C)
    and "0 \<le> image_size n"
proof -
  define c r i u where "c = seg_size (code n)" and "r = seg_size (readonlyData n)" and "i = seg_size (initData n)" and "u = seg_size (uninitData n)"
  have b: "0 \<le> sint c" "0 \<le> sint r" "0 \<le> sint i" "0 \<le> sint u" "sint c + sint r + sint i + sint u + 1024 < 2 ^ 31"
    using assms by (simp_all add: noff_ok_def segments_def image_size_def c_def r_def i_def u_def)
  have "sint (c + i) = sint c + sint i" using b by (intro sint_add_small) linarith+
  then have "sint (c + i + r) = sint c + sint i + sint r" using b by (subst sint_add_small) linarith+
  then show ?A by (simp add: image_size_def c_def r_def i_def)
  have 1: "sint (c + r) = sint c + sint r" using b by (intro sint_add_small) linarith+
  have 2: "sint (c + r + i) = sint c + sint r + sint i" using b 1 by (subst sint_add_small) linarith+
  have 3: "sint (c + r + i + u) = sint c + sint r + sint i + sint u" using b 2 by (subst sint_add_small) linarith+
  have 4: "sint (c + r + i + u + UserStackSize) = sint c + sint r + sint i + sint u + 1024"
    using b 3 by (subst sint_add_small) (simp_all add: UserStackSize_def)
  define t where "t = image_size n + sint u + 1024"
  have t: "0 \<le> t" "t < 2 ^ 31" using b by (simp_all add: t_def image_size_def c_def r_def i_def u_def)
  have "divRoundUp t 128 * 128 < t + 128" "0 \<le> divRoundUp t 128" using divRoundUp_less [of t 128] divRoundUp_nonneg [of t 128] t(1) by simp_all
  moreover have "t < 2147483648" using t(2) by simp
  ultimately have p: "0 \<le> divRoundUp t 128" "divRoundUp t 128 < 4294967296" by linarith+
  have "Load_pages n = of_int (divRoundUp t 128)"
    using 4 by (simp add: Load_pages_def PageSize_def t_def image_size_def c_def r_def i_def u_def)
  then have "uint (Load_pages n) = divRoundUp t 128" using p by (simp add: uint_word_of_int_eq take_bit_int_eq_self)
  then show B: ?B by (simp add: t_def u_def)
  show ?C unfolding B using divRoundUp_ge [of t 128] t by (simp add: t_def u_def)
  show "0 \<le> image_size n" using b by (simp add: image_size_def c_def r_def i_def)
qed

text \<open>What the routine under the lock delivers.\<close>

definition loaded :: "NoffHeader \<Rightarrow> byte list \<Rightarrow> TranslationEntry list \<Rightarrow> 'z Sys_scheme \<Rightarrow> 'z Sys_scheme \<Rightarrow> bool" where
  "loaded n d pt s s' \<longleftrightarrow> length pt = unat (Load_pages n) \<and> distinct (frames pt) \<and>
     set (frames pt) \<subseteq> {0..<128} - Bitmap_used (gPhysPageBitMap s) \<and> Bitmap_ok (gPhysPageBitMap s') \<and>
     Bitmap_used (gPhysPageBitMap s') = Bitmap_used (gPhysPageBitMap s) \<union> set (frames pt) \<and>
     (\<forall>g\<in>set (segments n). \<forall>v. covers g v \<longrightarrow> mainMemory (mach s') (phys pt v) = seg_byte g d v) \<and>
     (\<forall>v<length pt * 128. (\<forall>g\<in>set (segments n). \<not> covers g v) \<longrightarrow> mainMemory (mach s') (phys pt v) = 0) \<and>
     (\<forall>p. int p div 128 \<notin> set (frames pt) \<longrightarrow> mainMemory (mach s') p = mainMemory (mach s) p)"

lemma numclear_word: "Bitmap_ok b \<Longrightarrow> numBits b = 128 \<Longrightarrow>
    uint (of_int (int (card ({0..<128} - Bitmap_used b))) :: u32) = int (card ({0..<128} - Bitmap_used b))"
proof -
  assume "Bitmap_ok b" "numBits b = 128"
  have "card ({0..<128 :: int} - Bitmap_used b) \<le> card {0..<128 :: int}" by (intro card_mono) auto
  then show ?thesis by (simp add: unsigned_of_nat take_bit_nat_eq_self)
qed

lemma covers_size: "noff_ok n d \<Longrightarrow> g \<in> set (segments n) \<Longrightarrow> covers g v \<Longrightarrow> v < nat (image_size n)"
proof -
  assume ok: "noff_ok n d" and g: "g \<in> set (segments n)" and c: "covers g v"
  have "seg_in g (nat (image_size n)) d" using ok g unfolding noff_ok_def by blast
  then have "int v < int (nat (image_size n))" using c unfolding seg_in_def covers_def by linarith
  then show ?thesis by (simp only: of_nat_less_iff)
qed

lemma placed_memory:
  assumes ok: "noff_ok n d" and pt: "distinct (frames pt)" "set (frames pt) \<subseteq> {0..<128}" "nat (image_size n) \<le> length pt * 128"
    and pl: "placed pt (program_image n d) (length (program_image n d)) (m\<lparr>mainMemory := (\<lambda>p. if int p div 128 \<in> set (frames pt) then 0 else mainMemory m p)\<rparr>) m'"
  shows "\<forall>g\<in>set (segments n). \<forall>v. covers g v \<longrightarrow> mainMemory m' (phys pt v) = seg_byte g d v"
    and "\<forall>v<length pt * 128. (\<forall>g\<in>set (segments n). \<not> covers g v) \<longrightarrow> mainMemory m' (phys pt v) = 0"
    and "\<forall>p. int p div 128 \<notin> set (frames pt) \<longrightarrow> mainMemory m' p = mainMemory m p"
proof -
  let ?N = "nat (image_size n)"
  have L: "length (program_image n d) = ?N" by (rule image_lengths(3) [OF ok])
  have put: "v < ?N \<Longrightarrow> mainMemory m' (phys pt v) = program_image n d ! v" for v using pl unfolding placed_def L by blast
  have rest: "\<forall>v<?N. p \<noteq> phys pt v \<Longrightarrow> mainMemory m' p = (if int p div 128 \<in> set (frames pt) then 0 else mainMemory m p)" for p
    using pl unfolding placed_def L by simp
  have fr: "int (phys pt v) div 128 = frames pt ! (v div 128)" "v div 128 < length pt" if "v < length pt * 128" for v
  proof -
    show "v div 128 < length pt" using that by (simp add: less_mult_imp_div_less)
    then show "int (phys pt v) div 128 = frames pt ! (v div 128)" using phys_frame frames_range [OF pt(2)] by blast
  qed
  show "\<forall>g\<in>set (segments n). \<forall>v. covers g v \<longrightarrow> mainMemory m' (phys pt v) = seg_byte g d v"
    using put image_byte(1) [OF ok] covers_size [OF ok] by metis
  show "\<forall>v<length pt * 128. (\<forall>g\<in>set (segments n). \<not> covers g v) \<longrightarrow> mainMemory m' (phys pt v) = 0"
  proof (intro allI impI)
    fix v assume v: "v < length pt * 128" and n: "\<forall>g\<in>set (segments n). \<not> covers g v"
    show "mainMemory m' (phys pt v) = 0"
    proof (cases "v < ?N")
      case True
      then show ?thesis using put image_byte(2) [OF ok True n] by simp
    next
      case False
      have "phys pt v \<noteq> phys pt w" if "w < ?N" for w
        using phys_inj [OF pt(1,2) fr(2) [OF v] fr(2), of w] that pt(3) False by auto
      then show ?thesis using rest [of "phys pt v"] fr [OF v] by simp
    qed
  qed
  show "\<forall>p. int p div 128 \<notin> set (frames pt) \<longrightarrow> mainMemory m' p = mainMemory m p"
  proof (intro allI impI)
    fix p assume p: "int p div 128 \<notin> set (frames pt)"
    have "p \<noteq> phys pt v" if "v < ?N" for v
      using fr [of v] that pt(3) p nth_mem [of "v div 128" "frames pt"] by auto
    then show "mainMemory m' p = mainMemory m p" using rest [of p] p by simp
  qed
qed

lemma fd_of_sys [simp]: "fd_of (s\<lparr>gPhysPageBitMap := b\<rparr>) n = fd_of s n" "fd_of (s\<lparr>mach := m\<rparr>) n = fd_of s n"
  "fd_of (s\<lparr>semv := v\<rparr>) n = fd_of s n"
  by (simp_all add: fd_of_def)

lemma read_segments_ok:
  assumes ok: "noff_ok n d" and fd: "fd_of s (of_file f) = Some (FileFd a w off)" and d: "h_data s a = d"
  shows "\<exists>off'. foldR (read_segment f) [code n, readonlyData n, initData n] (replicate (nat (image_size n)) 0, s) =
    Inr (program_image n d, set_fd (of_file f) (Some (FileFd a w off')) s)"
proof -
  let ?z = "replicate (nat (image_size n)) (0 :: byte)"
  note len = image_lengths [OF ok]
  obtain o1 where 1: "read_segment f (code n) (?z, s) = Inr (place (code n) d ?z, set_fd (of_file f) (Some (FileFd a w o1)) s)"
    using read_segment_ok [OF fd d noff_segments(1) [OF ok]] by (metis length_replicate)
  let ?s1 = "set_fd (of_file f) (Some (FileFd a w o1)) s"
  have fd1: "fd_of ?s1 (of_file f) = Some (FileFd a w o1)" using fd by (simp add: fd_of_set_fd)
  have d1: "h_data ?s1 a = d" using d by simp
  obtain o2 where 2: "read_segment f (readonlyData n) (place (code n) d ?z, ?s1) =
      Inr (place (readonlyData n) d (place (code n) d ?z), set_fd (of_file f) (Some (FileFd a w o2)) s)"
    using read_segment_ok [OF fd1 d1 noff_segments(2) [OF ok len(1)]] by auto
  let ?s2 = "set_fd (of_file f) (Some (FileFd a w o2)) s"
  have fd2: "fd_of ?s2 (of_file f) = Some (FileFd a w o2)" using fd by (simp add: fd_of_set_fd)
  have d2: "h_data ?s2 a = d" using d by simp
  obtain o3 where 3: "read_segment f (initData n) (place (readonlyData n) d (place (code n) d ?z), ?s2) =
      Inr (program_image n d, set_fd (of_file f) (Some (FileFd a w o3)) s)"
    using read_segment_ok [OF fd2 d2 noff_segments(3) [OF ok len(2)]] by (auto simp: program_image_def)
  show ?thesis using 1 2 3 by (intro exI [of _ o3]) simp
qed

lemma Load_frames_ok:
  assumes ok: "noff_ok n d" and fd: "fd_of s (of_file f) = Some (FileFd a w off)" and d: "h_data s a = d"
    and b: "Bitmap_ok (gPhysPageBitMap s)" "numBits (gPhysPageBitMap s) = 128"
    and room: "int (unat (Load_pages n)) \<le> int (card ({0..<128} - Bitmap_used (gPhysPageBitMap s)))"
  shows "\<exists>pt s' off'. Load_frames f n (Load_pages n) s = Inr ((True, \<lparr>as_pageTable = Some pt, numPages = Load_pages n\<rparr>), s') \<and>
    loaded n d pt s s' \<and> semv s' = semv s \<and> addrLock s' = addrLock s \<and> fd_of s' (of_file f) = Some (FileFd a w off')"
proof -
  have free: "Bitmap_NumClear (gPhysPageBitMap s) = Inr (int (card ({0..<128} - Bitmap_used (gPhysPageBitMap s))))"
    using bm.num_clear_law [OF b(1)] b(2) by simp
  have enough: "\<not> uint (Load_pages n) > uint (of_int (int (card ({0..<128} - Bitmap_used (gPhysPageBitMap s)))) :: u32)"
    using room unfolding numclear_word [OF b] by simp
  obtain pt b' m' where al: "alloc_pages 0 (unat (Load_pages n)) (gPhysPageBitMap s) (mach s) = Inr (pt, b', m')"
      "length pt = unat (Load_pages n)" "distinct (frames pt)" "set (frames pt) \<subseteq> {0..<128} - Bitmap_used (gPhysPageBitMap s)"
      "Bitmap_ok b'" "Bitmap_used b' = Bitmap_used (gPhysPageBitMap s) \<union> set (frames pt)"
      "m' = (mach s)\<lparr>mainMemory := (\<lambda>p. if int p div 128 \<in> set (frames pt) then 0 else mainMemory (mach s) p)\<rparr>"
    using alloc_pages_ok [OF b room, of 0 "mach s"] by blast
  have r: "set (frames pt) \<subseteq> {0..<128}" using al(4) by blast
  let ?s = "s\<lparr>gPhysPageBitMap := b'\<rparr>"
  have fd': "fd_of ?s (of_file f) = Some (FileFd a w off)" "h_data ?s a = d" using fd d by simp_all
  obtain off' where rs: "foldR (read_segment f) [code n, readonlyData n, initData n] (replicate (nat (image_size n)) 0, ?s) =
      Inr (program_image n d, set_fd (of_file f) (Some (FileFd a w off')) ?s)"
    using read_segments_ok [OF ok fd'] by blast
  have fit: "nat (image_size n) \<le> length pt * 128" using noff_sizes(3) [OF ok] ok al(2) unfolding noff_ok_def by linarith
  then have "length (program_image n d) \<le> length pt * 128" using image_lengths(3) [OF ok] by simp
  then obtain m2 where cp: "copy_pages pt (program_image n d) m' = Inr m2" "placed pt (program_image n d) (length (program_image n d)) m' m2"
    using copy_pages_ok [OF al(3) r] by blast
  let ?s2 = "(set_fd (of_file f) (Some (FileFd a w off')) ?s)\<lparr>mach := m2\<rparr>"
  have "\<not> image_size n < 0" using noff_sizes(4) [OF ok] by simp
  then have "Load_frames f n (Load_pages n) s = Inr ((True, \<lparr>as_pageTable = Some pt, numPages = Load_pages n\<rparr>), ?s2)"
    unfolding Load_frames_def free bindR_simps Let_def noff_sizes(1) [OF ok] if_not_P [OF enough] al(1) using rs cp(1) by simp
  moreover have "loaded n d pt s ?s2"
    using al(2-6) placed_memory [OF ok al(3) r fit cp(2) [unfolded al(7)]] by (simp add: loaded_def set_fd_def)
  moreover have "fd_of ?s2 (of_file f) = Some (FileFd a w off')" using fd' by (simp add: fd_of_def set_fd_def split: if_splits)
  ultimately show ?thesis by (intro exI [of _ pt] exI [of _ ?s2] exI [of _ off']) (simp add: set_fd_def)
qed

lemma Load_header_ok:
  assumes fd: "fd_of s (of_file f) = Some (FileFd a w off)" and d: "52 \<le> length (h_data s a)" and j: "length junk = 52"
    and ok: "noffMagic (noff_of_bytes (take 52 (h_data s a))) = NOFFMAGIC"
  shows "Load_header junk f s = Inr (noff_of_bytes (take 52 (h_data s a)), set_fd (of_file f) (Some (FileFd a w 52)) s)"
proof -
  have "OpenFile_ReadAt f junk (int sizeof_NoffHeader) 0 s = Inr (52, take 52 (h_data s a), set_fd (of_file f) (Some (FileFd a w 52)) s)"
    using OpenFile_ReadAt_eq [OF fd, of junk "int sizeof_NoffHeader" 0] d j by (simp add: sizeof_NoffHeader_def Let_def min_absorb2)
  then show ?thesis using ok by (simp add: Load_header_def)
qed

lemma FileSystem_Open_existing:
  assumes "cstr name = Inr nm" "h_allow s nm" "h_dir s nm = Some a"
  shows "\<exists>k s1. FileSystem_Open name s = Inr (Some (OpenFile_new k), s1) \<and> fd_of s1 k = Some (FileFd a True 0) \<and>
    s1 = s\<lparr>h_fds := h_fds s1\<rparr> \<and> fd_of s k = None \<and> (\<forall>i. i \<noteq> k \<longrightarrow> fd_of s1 i = fd_of s i)"
proof -
  obtain k s1 where n: "new_fd (FileFd a True 0) s = (k, s1)" by fastforce
  note nf = fd_of_new_fd [OF n]
  have "FileSystem_Open name s = Inr (Some (OpenFile_new k), s1)"
    using assms(1) n nf(2) sys_open_existing [OF assms(2,3)] by (simp add: FileSystem_Open_def OpenForReadWrite_def)
  moreover have "s1 = s\<lparr>h_fds := h_fds s1\<rparr>" using n by (auto simp: new_fd_def)
  ultimately show ?thesis using nf by auto
qed

text \<open>
  C4. Loading a program. When the executable exists and is well-formed, the lock on the frames is free and
  there are enough frames, \<open>AddrSpace::Load\<close> returns true with a page table of as many pages as the
  segments and the stack need. Its frames are distinct and were free; through the page table every
  byte of the code, read-only and initialised data segments is the byte of the file, every other byte
  of the address space is zero, and the memory of all other frames is unchanged.
\<close>

theorem Load_program:
  assumes name: "cstr name = Inr nm" "h_allow s nm" "h_dir s nm = Some a" and d: "h_data s a = d" "52 \<le> length d"
    and n: "n = noff_of_bytes (take 52 d)" "noff_ok n d" and lock: "semv s (addrLock s) = Some v" "0 < v" and j: "length junk = 52"
    and b: "Bitmap_ok (gPhysPageBitMap s)" "numBits (gPhysPageBitMap s) = 128"
    and room: "int (unat (Load_pages n)) \<le> int (card ({0..<128} - Bitmap_used (gPhysPageBitMap s)))"
  shows "\<exists>pt s'. solo keff (AddrSpace_Load junk name s) = Some (Inr ((True, \<lparr>as_pageTable = Some pt, numPages = Load_pages n\<rparr>), s')) \<and>
    loaded n d pt s s' \<and> semv s' = semv s \<and>
    image_size n + sint (seg_size (uninitData n)) + 1024 \<le> int (unat (Load_pages n)) * 128"
proof -
  obtain k s1 where o: "FileSystem_Open name s = Inr (Some (OpenFile_new k), s1)" "fd_of s1 k = Some (FileFd a True 0)" "s1 = s\<lparr>h_fds := h_fds s1\<rparr>"
    using FileSystem_Open_existing [OF name] by blast
  let ?f = "OpenFile_new k"
  have f: "of_file ?f = k" by (simp add: OpenFile_new_def)
  obtain fds where s1: "s1 = s\<lparr>h_fds := fds\<rparr>" using o(3) by blast
  have mg: "noffMagic (noff_of_bytes (take 52 (h_data s1 a))) = NOFFMAGIC" using n d(1) by (simp add: s1 noff_ok_def)
  define s2 where "s2 = set_fd k (Some (FileFd a True 52)) s1"
  have h: "Load_header junk ?f s1 = Inr (n, s2)"
    using Load_header_ok [of s1 ?f a True 0 junk, OF _ _ j mg] o(2) f d n(1) by (simp add: s1 s2_def)
  define s3 where "s3 = s2\<lparr>semv := (semv s)(addrLock s \<mapsto> v - 1)\<rparr>"
  have s3: "fd_of s3 k = Some (FileFd a True 52)" "h_data s3 a = d" "gPhysPageBitMap s3 = gPhysPageBitMap s" "mach s3 = mach s"
      "addrLock s3 = addrLock s" "semv s3 = (semv s)(addrLock s \<mapsto> v - 1)" "semv s2 = semv s" "addrLock s2 = addrLock s"
    using o(2) d(1) by (simp_all add: s3_def s2_def fd_of_set_fd) (simp_all add: s1 set_fd_def)
  have "fd_of s3 (of_file ?f) = Some (FileFd a True 52)" using s3(1) f by simp
  then obtain pt s4 off where l: "Load_frames ?f n (Load_pages n) s3 = Inr ((True, \<lparr>as_pageTable = Some pt, numPages = Load_pages n\<rparr>), s4)"
      "loaded n d pt s3 s4" "semv s4 = semv s3" "addrLock s4 = addrLock s3" "fd_of s4 (of_file ?f) = Some (FileFd a True off)"
    using Load_frames_ok [OF n(2) _ s3(2), of ?f True 52] b room unfolding s3(3) by blast
  let ?s5 = "s4\<lparr>semv := (semv s4)(addrLock s \<mapsto> v)\<rparr>"
  let ?s6 = "set_fd k None ?s5"
  have sv: "semv s2 (addrLock s) = Some v" "semv s4 (addrLock s) = Some (v - 1)" using s3 l(3) lock(1) by simp_all
  have "fd_of ?s5 k \<noteq> None" using l(5) f by simp
  then have del: "OpenFile_delete ?f ?s5 = Inr ?s6" by (simp add: OpenFile_delete_def f Close_eq)
  have "solo keff (AddrSpace_Load junk name s) = Some (Inr ((True, \<lparr>as_pageTable = Some pt, numPages = Load_pages n\<rparr>), ?s6))"
    using o(1) h l(1) sv s3(7,8) l(4) s3(5) lock(2) del by (simp add: AddrSpace_Load_def semP_def semV_def s3_def [symmetric])
  moreover have "loaded n d pt s ?s6" using l(2) s3(3,4) by (simp add: loaded_def set_fd_def)
  moreover have "semv ?s6 = semv s" using l(3) s3(6) lock(1) by (auto simp: set_fd_def)
  ultimately show ?thesis using noff_sizes(3) [OF n(2)] by blast
qed

text \<open>A program of one word of code and no data, and a kernel whose Unix directory has just this file.\<close>

definition tiny_noff :: "byte list" where
  "tiny_noff = [0xad, 0xdf, 0xba, 0,  0, 0, 0, 0, 52, 0, 0, 0, 4, 0, 0, 0,  0, 0, 0, 0, 0, 0, 0, 0, 0, 0, 0, 0,
     0, 0, 0, 0, 0, 0, 0, 0, 0, 0, 0, 0,  0, 0, 0, 0, 0, 0, 0, 0, 0, 0, 0, 0,  1, 2, 3, 4]"

lemma tiny_header: "noff_of_bytes (take 52 tiny_noff) =
    \<lparr>noffMagic = NOFFMAGIC, code = \<lparr>virtualAddr = 0, inFileAddr = 52, seg_size = 4\<rparr>, initData = \<lparr>virtualAddr = 0, inFileAddr = 0, seg_size = 0\<rparr>,
     readonlyData = \<lparr>virtualAddr = 0, inFileAddr = 0, seg_size = 0\<rparr>, uninitData = \<lparr>virtualAddr = 0, inFileAddr = 0, seg_size = 0\<rparr>\<rparr>"
  by (simp add: tiny_noff_def noff_of_bytes_def segment_at_def word_at_def u32_of_bytes_def NOFFMAGIC_def push_bit_eq_mult)

lemma tiny_ok: "noff_ok (noff_of_bytes (take 52 tiny_noff)) tiny_noff"
  unfolding tiny_header by (simp add: noff_ok_def segments_def seg_in_def image_size_def covers_def tiny_noff_def)

definition sys0 :: Sys where
  "sys0 = \<lparr>h_dir = [[97] \<mapsto> 5], h_data = (\<lambda>a. if a = 5 then tiny_noff else []), h_next = 8,
     h_fds = [Some (FileFd 0 True 0), Some (FileFd 1 True 0), Some (FileFd 2 True 0)], h_allow = (\<lambda>_. True), h_connect = (\<lambda>_ _ _. 0),
     h_send = (\<lambda>_ _. 0), h_recv = (\<lambda>_. None), fdt = replicate 20 None, mach = Machine_new 0 0 False,
     gPhysPageBitMap = \<lparr>numBits = 128, numWords = 4, map_words = [0, 0, 0, 0]\<rparr>, addrLock = 0, semv = [0 \<mapsto> 1, 1 \<mapsto> 1, 2 \<mapsto> 1, 3 \<mapsto> 1], next_semv = 4,
     spaces = Map.empty, next_tid = 1, forked_args = Map.empty, pcb_heap = Map.empty, next_pcb = 0, pcbs = replicate 10 None,
     numProcesses = 0, slotManager = \<lparr>numBits = 10, numWords = 1, map_words = [0]\<rparr>, ptable_sem = 1,
     st_bm = \<lparr>numBits = 10, numWords = 1, map_words = [0]\<rparr>, st_table = replicate 10 None, in_lock = 2, keyboard = [], out_lock = 3, screen = [],
     heap_room = (\<lambda>n. n + 4)\<rparr>"

lemma sys0_frames: "Bitmap_ok (gPhysPageBitMap sys0)" "numBits (gPhysPageBitMap sys0) = 128" "Bitmap_used (gPhysPageBitMap sys0) = {}"
proof -
  show "Bitmap_ok (gPhysPageBitMap sys0)" "numBits (gPhysPageBitMap sys0) = 128"
    by (simp_all add: sys0_def Bitmap_ok_def BitsInWord_32 divRoundUp_eq)
  have "\<not> bit_at \<lparr>numBits = 128, numWords = 4, map_words = [0, 0, 0, 0]\<rparr> i" if "0 \<le> i" "i < 128" for i
  proof -
    have "nat (i div 32) < 4" using that by linarith
    then have "[0, 0, 0, 0 :: u32] ! nat (i div 32) = 0" by (auto simp: less_Suc_eq numeral_eq_Suc)
    then show ?thesis by (simp add: bit_at_def BitsInWord_32)
  qed
  then show "Bitmap_used (gPhysPageBitMap sys0) = {}" by (auto simp: sys0_def Bitmap_used_def)
qed

theorem Load_program_witness:
  "\<exists>pt s'. solo keff (AddrSpace_Load (replicate 52 0) [97, 0] sys0) =
      Some (Inr ((True, \<lparr>as_pageTable = Some pt, numPages = Load_pages (noff_of_bytes (take 52 tiny_noff))\<rparr>), s')) \<and>
    loaded (noff_of_bytes (take 52 tiny_noff)) tiny_noff pt sys0 s'"
proof -
  have p: "Load_pages (noff_of_bytes (take 52 tiny_noff)) = 9"
    unfolding tiny_header by (simp add: Load_pages_def UserStackSize_def PageSize_def divRoundUp_eq)
  have n: "cstr [97, 0] = Inr [97]" "h_allow sys0 [97]" "h_dir sys0 [97] = Some 5" "h_data sys0 5 = tiny_noff" "52 \<le> length tiny_noff"
      "semv sys0 (addrLock sys0) = Some 1"
    by (simp_all add: cstr_def sys0_def tiny_noff_def)
  show ?thesis
    using Load_program [OF n(1-5) refl tiny_ok n(6), of "replicate 52 0"] sys0_frames p by auto
qed



lemma Load_refuses_cases:
  assumes name: "cstr name = Inr nm"
  shows "h_dir s nm = None \<Longrightarrow> solo keff (AddrSpace_Load junk name s) = Some (Inr ((False, AddrSpace_new), s))"
    and "h_allow s nm \<Longrightarrow> h_dir s nm = Some a \<Longrightarrow> 52 \<le> length (h_data s a) \<Longrightarrow> length junk = 52 \<Longrightarrow> n = noff_of_bytes (take 52 (h_data s a)) \<Longrightarrow>
      noffMagic n = NOFFMAGIC \<Longrightarrow> semv s (addrLock s) = Some v \<Longrightarrow> 0 < v \<Longrightarrow> Bitmap_ok (gPhysPageBitMap s) \<Longrightarrow> numBits (gPhysPageBitMap s) = 128 \<Longrightarrow>
      int (card ({0..<128} - Bitmap_used (gPhysPageBitMap s))) < uint (Load_pages n) \<Longrightarrow>
      \<exists>s'. solo keff (AddrSpace_Load junk name s) = Some (Inr ((False, AddrSpace_new), s')) \<and> s' = s\<lparr>h_fds := h_fds s'\<rparr> \<and> (\<forall>k. fd_of s' k = fd_of s k)"
    and "h_allow s nm \<Longrightarrow> h_dir s nm = Some a \<Longrightarrow> 52 \<le> length (h_data s a) \<Longrightarrow> length junk = 52 \<Longrightarrow>
      noffMagic (noff_of_bytes (take 52 (h_data s a))) \<noteq> NOFFMAGIC \<Longrightarrow> solo keff (AddrSpace_Load junk name s) = Some (Inl AssertFailed)"
proof -
  assume "h_dir s nm = None"
  then have "sys_open nm False True s = (-1, s)" by (simp add: sys_open_def)
  then show "solo keff (AddrSpace_Load junk name s) = Some (Inr ((False, AddrSpace_new), s))"
    using name by (simp add: AddrSpace_Load_def FileSystem_Open_def OpenForReadWrite_def)
next
  assume ex: "h_allow s nm" "h_dir s nm = Some a" and d: "52 \<le> length (h_data s a)" and j: "length junk = 52"
    and n: "n = noff_of_bytes (take 52 (h_data s a))" "noffMagic n = NOFFMAGIC" and lock: "semv s (addrLock s) = Some v" "0 < v"
    and b: "Bitmap_ok (gPhysPageBitMap s)" "numBits (gPhysPageBitMap s) = 128" and room: "int (card ({0..<128} - Bitmap_used (gPhysPageBitMap s))) < uint (Load_pages n)"
  obtain k s1 where o: "FileSystem_Open name s = Inr (Some (OpenFile_new k), s1)" "fd_of s1 k = Some (FileFd a True 0)" "s1 = s\<lparr>h_fds := h_fds s1\<rparr>"
      "fd_of s k = None" "\<And>i. i \<noteq> k \<Longrightarrow> fd_of s1 i = fd_of s i"
    using FileSystem_Open_existing [OF name ex] by blast
  let ?f = "OpenFile_new k"
  obtain fds where s1: "s1 = s\<lparr>h_fds := fds\<rparr>" using o(3) by blast
  define s2 where "s2 = set_fd k (Some (FileFd a True 52)) s1"
  have h: "Load_header junk ?f s1 = Inr (n, s2)"
    using Load_header_ok [of s1 ?f a True 0 junk] o(2) d j n by (simp add: s1 s2_def OpenFile_new_def)
  define s3 where "s3 = s2\<lparr>semv := (semv s)(addrLock s \<mapsto> v - 1)\<rparr>"
  have f3: "fd_of s3 k = Some (FileFd a True 52)" "\<And>i. i \<noteq> k \<Longrightarrow> fd_of s3 i = fd_of s i" using o(2,5) by (simp_all add: s3_def s2_def fd_of_set_fd)
  have s3: "gPhysPageBitMap s3 = gPhysPageBitMap s" "addrLock s3 = addrLock s" "semv s3 = (semv s)(addrLock s \<mapsto> v - 1)" "semv s2 = semv s" "addrLock s2 = addrLock s"
    by (simp_all add: s3_def s2_def s1 set_fd_def)
  let ?s4 = "set_fd k None s3"
  have "OpenFile_delete ?f s3 = Inr ?s4" using f3(1) by (simp add: OpenFile_delete_def OpenFile_new_def Close_eq)
  then have l: "Load_frames ?f n (Load_pages n) s3 = Inr ((False, AddrSpace_new), ?s4)"
    using bm.num_clear_law [OF b(1)] numclear_word [OF b] room b(2) by (simp add: Load_frames_def s3(1) AddrSpace_new_def)
  let ?s5 = "?s4\<lparr>semv := (semv ?s4)(addrLock s \<mapsto> v)\<rparr>"
  have lk: "semv ?s4 (addrLock s) = Some (v - 1)" "addrLock ?s4 = addrLock s" using s3 by (simp_all add: set_fd_def)
  have "solo keff (AddrSpace_Load junk name s) = Some (Inr ((False, AddrSpace_new), ?s5))"
    using o(1) h l lk s3(4,5) lock by (simp add: AddrSpace_Load_def semP_def semV_def s3_def [symmetric])
  moreover have "?s5 = s\<lparr>h_fds := h_fds ?s5\<rparr>" using lock(1) s3(3) by (auto simp: s3_def s2_def s1 set_fd_def fun_upd_idem)
  moreover have "fd_of ?s5 i = fd_of s i" for i using f3 o(4) by (simp add: fd_of_set_fd)
  ultimately show "\<exists>s'. solo keff (AddrSpace_Load junk name s) = Some (Inr ((False, AddrSpace_new), s')) \<and> s' = s\<lparr>h_fds := h_fds s'\<rparr> \<and> (\<forall>k. fd_of s' k = fd_of s k)"
    by blast
next
  assume ex: "h_allow s nm" "h_dir s nm = Some a" and d: "52 \<le> length (h_data s a)" and j: "length junk = 52"
    and n: "noffMagic (noff_of_bytes (take 52 (h_data s a))) \<noteq> NOFFMAGIC"
  obtain k s1 where o: "FileSystem_Open name s = Inr (Some (OpenFile_new k), s1)" "fd_of s1 k = Some (FileFd a True 0)" "s1 = s\<lparr>h_fds := h_fds s1\<rparr>"
    using FileSystem_Open_existing [OF name ex] by blast
  obtain fds where s1: "s1 = s\<lparr>h_fds := fds\<rparr>" using o(3) by blast
  have "OpenFile_ReadAt (OpenFile_new k) junk (int sizeof_NoffHeader) 0 s1 = Inr (52, take 52 (h_data s a), set_fd k (Some (FileFd a True 52)) s1)"
    using OpenFile_ReadAt_eq [of s1 "OpenFile_new k" a True 0 junk "int sizeof_NoffHeader" 0] o(2) d j
    by (simp add: sizeof_NoffHeader_def Let_def min_absorb2 OpenFile_new_def s1)
  then have "Load_header junk (OpenFile_new k) s1 = Inl AssertFailed" using n by (simp add: Load_header_def Let_def WordToHost_def)
  then show "solo keff (AddrSpace_Load junk name s) = Some (Inl AssertFailed)" using o(1) by (simp add: AddrSpace_Load_def)
qed

text \<open>
  C20. How loading fails. When the file does not exist, \<open>Load\<close> returns false and changes nothing. When the executable
  needs more pages than there are free frames, it returns false with an empty address space; no frame, no byte of memory, no
  semaphore and no open file has changed. When the file exists but does not begin with the magic number, the assertion in \<open>Load\<close>
  stops the kernel.
\<close>

theorem Load_refuses:
  assumes name: "cstr name = Inr nm" and j: "length junk = 52"
  shows "(h_dir s nm = None \<longrightarrow> solo keff (AddrSpace_Load junk name s) = Some (Inr ((False, AddrSpace_new), s))) \<and>
    (\<forall>a n v. h_allow s nm \<and> h_dir s nm = Some a \<and> 52 \<le> length (h_data s a) \<and> n = noff_of_bytes (take 52 (h_data s a)) \<longrightarrow>
      (noffMagic n = NOFFMAGIC \<and> semv s (addrLock s) = Some v \<and> 0 < v \<and> Bitmap_ok (gPhysPageBitMap s) \<and> numBits (gPhysPageBitMap s) = 128 \<and>
         int (card ({0..<128} - Bitmap_used (gPhysPageBitMap s))) < uint (Load_pages n) \<longrightarrow>
       (\<exists>s'. solo keff (AddrSpace_Load junk name s) = Some (Inr ((False, AddrSpace_new), s')) \<and> s' = s\<lparr>h_fds := h_fds s'\<rparr> \<and>
          (\<forall>k. fd_of s' k = fd_of s k))) \<and>
      (noffMagic n \<noteq> NOFFMAGIC \<longrightarrow> solo keff (AddrSpace_Load junk name s) = Some (Inl AssertFailed)))"
proof (intro conjI allI impI)
  show "solo keff (AddrSpace_Load junk name s) = Some (Inr ((False, AddrSpace_new), s))" if "h_dir s nm = None"
    using Load_refuses_cases(1) [OF name that] .
  fix a n v assume 1: "h_allow s nm \<and> h_dir s nm = Some a \<and> 52 \<le> length (h_data s a) \<and> n = noff_of_bytes (take 52 (h_data s a))"
  show "solo keff (AddrSpace_Load junk name s) = Some (Inl AssertFailed)" if "noffMagic n \<noteq> NOFFMAGIC"
    by (rule Load_refuses_cases(3) [OF name, of _ a]) (use 1 that j in simp_all)
  assume 2: "noffMagic n = NOFFMAGIC \<and> semv s (addrLock s) = Some v \<and> 0 < v \<and> Bitmap_ok (gPhysPageBitMap s) \<and> numBits (gPhysPageBitMap s) = 128 \<and>
      int (card ({0..<128} - Bitmap_used (gPhysPageBitMap s))) < uint (Load_pages n)"
  show "\<exists>s'. solo keff (AddrSpace_Load junk name s) = Some (Inr ((False, AddrSpace_new), s')) \<and> s' = s\<lparr>h_fds := h_fds s'\<rparr> \<and> (\<forall>k. fd_of s' k = fd_of s k)"
    by (rule Load_refuses_cases(2) [OF name, of _ a _ n v]) (use 1 2 j in simp_all)
qed

theorem Load_refuses_witness:
  "solo keff (AddrSpace_Load (replicate 52 0) [98, 0] sys0) = Some (Inr ((False, AddrSpace_new), sys0)) \<and>
   solo keff (AddrSpace_Load (replicate 52 0) [97, 0] (sys0\<lparr>h_data := (\<lambda>_. replicate 60 0)\<rparr>)) = Some (Inl AssertFailed)"
proof
  show "solo keff (AddrSpace_Load (replicate 52 0) [98, 0] sys0) = Some (Inr ((False, AddrSpace_new), sys0))"
    using Load_refuses [of "[98, 0]" "[98]" "replicate 52 0" sys0] by (simp add: cstr_def sys0_def)
  let ?s = "sys0\<lparr>h_data := (\<lambda>_. replicate 60 0)\<rparr>"
  have n: "noffMagic (noff_of_bytes (take 52 (h_data ?s 5))) \<noteq> NOFFMAGIC"
    by (simp add: noff_of_bytes_def word_at_def u32_of_bytes_def NOFFMAGIC_def)
  have e: "h_allow ?s [97]" "h_dir ?s [97] = Some 5" "52 \<le> length (h_data ?s 5)" "cstr [97, 0] = Inr [97]" by (simp_all add: sys0_def cstr_def)
  show "solo keff (AddrSpace_Load (replicate 52 0) [97, 0] ?s) = Some (Inl AssertFailed)"
    using Load_refuses [OF e(4), of "replicate 52 0" ?s] e(1-3) n by (metis length_replicate)
qed

end
