(* ===== verification/Nachos_Isolation.thy ===== *)
theory Nachos_Isolation
  imports Nachos_AddrSpace Nachos_Mips
begin

text \<open>
  Memory isolation between processes: the composition of the address spaces (\<open>userprog/addrspace.cc\<close>) with the MIPS
  simulator (\<open>machine/mipssim.cc\<close>, \<open>machine/translate.cc\<close>). A user instruction, run with the page table of an address
  space, changes main memory only in the frames of that page table; loading and deleting address spaces keeps the
  frames of different address spaces disjoint.
\<close>

section \<open>A user instruction stays in its frames\<close>

text \<open>The machine \<open>m\<close> was reached from \<open>m0\<close> with changes to registers, to the use and dirty bits, and to memory in the frames of the page table of \<open>m0\<close>.\<close>

definition confined :: "Machine \<Rightarrow> Machine \<Rightarrow> bool" where
  "confined m0 m \<longleftrightarrow> tlb m = None \<and> pageTableSize m = pageTableSize m0 \<and>
     (\<exists>pt0 pt. pageTable m0 = Some pt0 \<and> pageTable m = Some pt \<and> frames pt = frames pt0 \<and>
       (\<forall>p. int p div 128 \<notin> set (frames pt0) \<longrightarrow> mainMemory m p = mainMemory m0 p))"

lemma confined_refl: "tlb m = None \<Longrightarrow> pageTable m = Some pt \<Longrightarrow> confined m m"
  by (simp add: confined_def)

lemma confined_setReg [simp]: "confined m0 (setReg m n v) = confined m0 m"
  by (simp add: confined_def)

lemma confined_DelayedLoad: "DelayedLoad m a b = Inr m' \<Longrightarrow> confined m0 m \<Longrightarrow> confined m0 m'"
  by (auto simp: DelayedLoad_def bindR_eq_Inr split: if_splits)

lemma confined_RaiseException: "RaiseException m a = Inr m' \<Longrightarrow> confined m0 m \<Longrightarrow> confined m0 m'"
  by (auto simp: RaiseException_def intro: confined_DelayedLoad)

lemma frames_update: "e = pt ! k \<Longrightarrow> k < length pt \<Longrightarrow> frames (pt[k := e\<lparr>use_bit := u, dirty := d\<rparr>]) = frames pt"
  by (simp add: frames_def map_update list_update_same_conv)

lemma Translate_frame:
  assumes c: "confined m0 m" and t: "Translate m va sz w = Inr (Inr (pa, m'))"
  shows "confined m0 m'" "mainMemory m' = mainMemory m" "\<exists>pt0. pageTable m0 = Some pt0 \<and> int (unat pa) div 128 \<in> set (frames pt0)"
proof -
  obtain e put where e: "lookup_entry m (va div 128) = Inr (Inr (e, put))" "physicalPage e < 128"
      "pa = physicalPage e * 128 + va mod 128" "m' = put (e\<lparr>use_bit := True, dirty := dirty e \<or> w\<rparr>)"
    using Translate_Inr [OF t] by blast
  obtain pt0 pt where pt: "tlb m = None" "pageTable m0 = Some pt0" "pageTable m = Some pt" "frames pt = frames pt0"
    using c by (auto simp: confined_def)
  let ?k = "unat (va div 128 :: i32)"
  have k: "?k < length pt" "e = pt ! ?k" "put = (\<lambda>e'. m\<lparr>pageTable := Some (pt[?k := e'])\<rparr>)"
    using e(1) pt(1,3) by (auto simp: lookup_entry_def bindR_eq_Inr aget_def split: if_splits)
  have m': "m' = m\<lparr>pageTable := Some (pt[?k := e\<lparr>use_bit := True, dirty := dirty e \<or> w\<rparr>])\<rparr>" using e(4) k(3) by simp
  show "mainMemory m' = mainMemory m" by (simp add: m')
  show "confined m0 m'" using c pt frames_update [OF k(2,1)] by (simp add: m' confined_def)
  have "unat (physicalPage e) < 128" using e(2) by (simp add: word_less_nat_alt)
  then have "sint (physicalPage e) = int (unat (physicalPage e))" by (intro sint_small) simp
  then have "frames pt ! ?k = int (unat (physicalPage e))" using k by (simp add: frames_nth)
  moreover have "unat pa div 128 = unat (physicalPage e)" using physAddr_value [OF e(2), of va] e(3) by simp
  then have "int (unat pa) div 128 = int (unat (physicalPage e))" by (metis of_nat_numeral zdiv_int)
  ultimately show "\<exists>pt0. pageTable m0 = Some pt0 \<and> int (unat pa) div 128 \<in> set (frames pt0)"
    using pt k(1) by (metis frames_simps(3) nth_mem)
qed

lemma confined_ReadMem:
  assumes "confined m0 m" "ReadMem m va sz = Inr r"
  shows "case r of Inl (ex, m') \<Rightarrow> confined m0 m' | Inr (v, m') \<Rightarrow> confined m0 m'"
proof -
  obtain q where q: "Translate m va sz False = Inr q" using assms(2) by (auto simp: ReadMem_def bindR_eq_Inr)
  show ?thesis
  proof (cases q)
    case (Inl ex)
    then show ?thesis using assms q by (auto simp: ReadMem_def bindR_eq_Inr dest: confined_RaiseException)
  next
    case (Inr p)
    then obtain pa m' where p: "q = Inr (pa, m')" by (cases p) auto
    then have "confined m0 m'" using Translate_frame [OF assms(1)] q by blast
    then show ?thesis using assms(2) q p by (auto simp: ReadMem_def bindR_eq_Inr Let_def split: if_splits)
  qed
qed

lemma same_frame:
  assumes "(a :: nat) mod 128 + n \<le> 128" "a \<le> b" "b < a + n"
  shows "b div 128 = a div 128"
proof -
  have "a = a div 128 * 128 + a mod 128" by simp
  then have "a div 128 * 128 \<le> b" "b < a div 128 * 128 + 128" using assms by linarith+
  then show ?thesis by (metis add.commute div_nat_eqI mult.commute mult_Suc)
qed


lemma aligned_offset:
  assumes "sz \<in> {1, 2, 4}" "\<not> ((sz = 4 \<and> (va :: i32) AND 3 \<noteq> 0) \<or> (sz = 2 \<and> va AND 1 \<noteq> 0))"
  shows "unat va mod 128 + sz \<le> 128"
proof -
  have "sz = 4 \<Longrightarrow> unat va mod 4 = 0" "sz = 2 \<Longrightarrow> unat va mod 2 = 0" using assms(2) unat_and_3 [of va] unat_and_1 [of va] by auto
  then have "sz = 4 \<Longrightarrow> unat va mod 128 mod 4 = 0" "sz = 2 \<Longrightarrow> unat va mod 128 mod 2 = 0" by (simp_all add: mod_mod_cancel)
  moreover have "x < 128 \<Longrightarrow> x mod 4 = 0 \<Longrightarrow> x + 4 \<le> 128" "x < 128 \<Longrightarrow> x mod 2 = 0 \<Longrightarrow> x + 2 \<le> 128" for x :: nat by presburger+
  ultimately show ?thesis using assms(1) mod_less_divisor [of 128 "unat va"] by (elim insertE) simp_all
qed

lemma confined_WriteMem:
  assumes c: "confined m0 m" and sz: "sz \<in> {1, 2, 4}" and w: "WriteMem m va sz v = Inr r"
  shows "case r of Inl (ex, m') \<Rightarrow> confined m0 m' | Inr m' \<Rightarrow> confined m0 m'"
proof (cases r)
  case (Inl p)
  obtain q where q: "Translate m va sz True = Inr q" using w by (auto simp: WriteMem_def bindR_eq_Inr)
  have "\<exists>ex. q = Inl ex"
  proof (cases q)
    case (Inr p')
    then obtain pa m' where p: "q = Inr (pa, m')" by (cases p') auto
    from Translate_Inr [OF q [unfolded p]] have "unat pa + sz \<le> MemorySize" using physAddr_bounds(1) [OF _ sz] by auto
    from WriteMem_eq [OF q [unfolded p] sz this] w Inl show ?thesis by simp
  qed simp
  then show ?thesis using q w c Inl by (auto simp: WriteMem_def bindR_eq_Inr dest: confined_RaiseException)
next
  case (Inr m1)
  from WriteMem_Inr [OF w [unfolded Inr] sz] obtain pa m' where t: "Translate m va sz True = Inr (Inr (pa, m'))"
      and m1: "m1 = m'\<lparr>mainMemory := put_bytes (mainMemory m') (unat pa) (store_bytes sz v)\<rparr>" by blast
  note f = Translate_frame [OF c t]
  from Translate_Inr [OF t] obtain e :: TranslationEntry where e: "physicalPage e < 128" "pa = physicalPage e * 128 + va mod 128"
    "\<not> ((sz = 4 \<and> va AND 3 \<noteq> 0) \<or> (sz = 2 \<and> va AND 1 \<noteq> 0))" by blast
  then have off: "unat pa mod 128 + sz \<le> 128" using physAddr_value [OF e(1), of va] aligned_offset [OF sz e(3)] by simp
  have len: "length (store_bytes sz v) = sz" using sz by (auto simp: store_bytes_def)
  obtain pt0 where pt0: "pageTable m0 = Some pt0" "int (unat pa) div 128 \<in> set (frames pt0)" using f(3) by blast
  have "mainMemory m1 p = mainMemory m' p" if "int p div 128 \<notin> set (frames pt0)" for p
  proof -
    have "\<not> (unat pa \<le> p \<and> p < unat pa + sz)"
    proof
      assume "unat pa \<le> p \<and> p < unat pa + sz"
      then have "p div 128 = unat pa div 128" using same_frame [OF off] by blast
      then have "int p div 128 = int (unat pa) div 128" by (metis of_nat_numeral zdiv_int)
      then show False using that pt0(2) by simp
    qed
    then show ?thesis unfolding m1 using put_bytes_outside [of p "unat pa" "store_bytes sz v"] len by (simp add: not_le not_less)
  qed
  then show ?thesis using f(1) pt0(1) Inr by (auto simp: confined_def m1)
qed

fun kept_in :: "Machine \<Rightarrow> outcome res \<Rightarrow> bool" where
  "kept_in m0 (Inl e) = True"
| "kept_in m0 (Inr (Done m _ _ _)) = confined m0 m"
| "kept_in m0 (Inr (Trap _ m)) = confined m0 m"

lemma kept_raise [simp]: "confined m0 m \<Longrightarrow> kept_in m0 (raise ex bad m)"
  by (cases "RaiseException m bad") (auto simp: raise_def intro: confined_RaiseException)

lemma kept_set_done [simp]: "confined m0 m \<Longrightarrow> kept_in m0 (set_done m n v pc)"
  by (simp add: set_done_def)

lemma kept_do_load: "confined m0 m \<Longrightarrow> (\<And>v m'. confined m0 m' \<Longrightarrow> kept_in m0 (k v m')) \<Longrightarrow> kept_in m0 (do_load m a sz k)"
  using confined_ReadMem [of m0 m a sz] by (cases "ReadMem m a sz") (auto simp: do_load_def split: sum.splits)

lemma kept_do_store: "confined m0 m \<Longrightarrow> sz \<in> {1, 2, 4} \<Longrightarrow> kept_in m0 (do_store m a sz v pc)"
  using confined_WriteMem [of m0 m sz a v] by (cases "WriteMem m a sz v") (auto simp: do_store_def split: sum.splits)

lemma groups_kept:
  assumes "confined m0 m"
  shows "exec_add_and i m pc = Some r \<Longrightarrow> kept_in m0 r" "exec_branch i m pc = Some r \<Longrightarrow> kept_in m0 r"
    "exec_div_jump i m pc = Some r \<Longrightarrow> kept_in m0 r" "exec_load i m pc = Some r \<Longrightarrow> kept_in m0 r"
    "exec_lwl_lwr i m pc = Some r \<Longrightarrow> kept_in m0 r" "exec_hilo_or i m pc = Some r \<Longrightarrow> kept_in m0 r"
    "exec_store_shift i m pc = Some r \<Longrightarrow> kept_in m0 r" "exec_swl_swr i m pc = Some r \<Longrightarrow> kept_in m0 r"
    "kept_in m0 (exec_rest i m pc)"
  using assms by (auto simp: exec_defs exec_rest_def Let_def split_beta intro!: kept_do_load kept_do_store split: if_splits)

lemma execute_kept:
  assumes "confined m0 m"
  shows "kept_in m0 (execute i m pc)"
  unfolding execute_def
proof (rule first_case_cases)
  fix c r
  assume "c \<in> set [exec_add_and i m pc, exec_branch i m pc, exec_div_jump i m pc, exec_load i m pc, exec_lwl_lwr i m pc, exec_hilo_or i m pc,
      exec_store_shift i m pc, exec_swl_swr i m pc]" and "c = Some r"
  then show "kept_in m0 r" using groups_kept(1-8) [OF assms, of i pc r] by auto
qed (rule groups_kept(9) [OF assms])

lemma OneInstruction_confined:
  assumes "tlb m = None" "pageTable m = Some pt" "OneInstruction m = Inr r"
  shows "case r of Inl (ex, m') \<Rightarrow> confined m m' | Inr m' \<Rightarrow> confined m m'"
proof -
  obtain q where q: "ReadMem m (registers m PCReg) 4 = Inr q" using assms(3) by (auto simp: OneInstruction_def bindR_eq_Inr)
  note c = confined_ReadMem [OF confined_refl [OF assms(1,2)] q]
  show ?thesis
  proof (cases q)
    case (Inl p)
    then show ?thesis using c assms(3) q by (auto simp: OneInstruction_def)
  next
    case (Inr p)
    then obtain raw m1 where p: "q = Inr (raw, m1)" by (cases p) auto
    let ?e = "execute (Decode raw) m1 (registers m1 NextPCReg + 4)"
    obtain out where out: "?e = Inr out" using assms(3) q p by (auto simp: OneInstruction_def bindR_eq_Inr)
    have "kept_in m (Inr out)" using execute_kept [of m m1 "Decode raw"] c p unfolding out [symmetric] by simp
    then show ?thesis using assms(3) q p out
      by (cases out) (auto simp: OneInstruction_def bindR_eq_Inr Let_def dest: confined_DelayedLoad)
  qed
qed

section \<open>Loading any executable\<close>

text \<open>The file system calls of \<open>Load\<close> change nothing but the table of Unix descriptors.\<close>

definition fds_only :: "'z Sys_scheme \<Rightarrow> 'z Sys_scheme \<Rightarrow> bool" where
  "fds_only s s' \<longleftrightarrow> (\<exists>fds. s' = s\<lparr>h_fds := fds\<rparr>)"

lemma fds_only_refl [simp]: "fds_only s s"
  by (auto simp: fds_only_def intro: exI [of _ "h_fds s"])

lemma fds_only_trans: "fds_only s s1 \<Longrightarrow> fds_only s1 s2 \<Longrightarrow> fds_only s s2"
  by (auto simp: fds_only_def)

lemma fds_only_fields: "fds_only s s' \<Longrightarrow> gPhysPageBitMap s' = gPhysPageBitMap s \<and> mach s' = mach s \<and> spaces s' = spaces s \<and> semv s' = semv s \<and> addrLock s' = addrLock s"
  by (auto simp: fds_only_def)

lemma fds_only_set_fd [simp]: "fds_only s (set_fd n v s)"
  by (auto simp: fds_only_def set_fd_def)

lemma fds_only_new_fd: "new_fd f s = (n, s') \<Longrightarrow> fds_only s s'"
  by (auto simp: fds_only_def new_fd_def)

lemma FileSystem_Open_fds: "FileSystem_Open name s = Inr (f, s') \<Longrightarrow> fds_only s s'"
  by (auto simp: FileSystem_Open_def OpenForReadWrite_def sys_open_def bindR_eq_Inr split: prod.splits if_splits option.splits intro: fds_only_new_fd)

lemma OpenFile_delete_fds: "OpenFile_delete f s = Inr s' \<Longrightarrow> fds_only s s'"
  by (auto simp: OpenFile_delete_def Close_def sys_close_def bindR_eq_Inr split: if_splits)

lemma ReadAt_fds:
  assumes "OpenFile_ReadAt f b n p s = Inr (k, bs, s')"
  shows "fds_only s s'"
proof -
  obtain s1 where 1: "Lseek (of_file f) p 0 s = Inr s1" using assms by (auto simp: OpenFile_ReadAt_def bindR_eq_Inr)
  then have a: "fds_only s s1" by (auto simp: Lseek_def sys_lseek_def Let_def bindR_eq_Inr split: option.splits fd.splits if_splits)
  obtain n' bs' where "ReadPartial (of_file f) n s1 = ((n', bs'), s')" using assms 1 by (auto simp: OpenFile_ReadAt_def bindR_eq_Inr split: prod.splits)
  then have "fds_only s1 s'" by (auto simp: ReadPartial_def sys_read_def Let_def split: option.splits fd.splits if_splits)
  with a show ?thesis by (rule fds_only_trans)
qed

lemma read_segments_fds: "foldR (read_segment f) gs (b, s) = Inr (b', s') \<Longrightarrow> fds_only s s'"
proof (induction gs arbitrary: b s)
  case (Cons g gs)
  from Cons.prems obtain b1 s1 where r: "read_segment f g (b, s) = Inr (b1, s1)" "foldR (read_segment f) gs (b1, s1) = Inr (b', s')"
    by (auto simp: bindR_eq_Inr)
  have "fds_only s s1" using r(1) ReadAt_fds by (auto simp: read_segment_def Let_def bindR_eq_Inr split: if_splits)
  then show ?case using Cons.IH [OF r(2)] fds_only_trans by blast
qed simp

lemma Load_header_fds: "Load_header junk f s = Inr (n, s') \<Longrightarrow> fds_only s s'"
  by (auto simp: Load_header_def Let_def bindR_eq_Inr dest: ReadAt_fds split: if_splits)

text \<open>Whatever the buffer, only the frames of the page table are written.\<close>

lemma copy_page_outside:
  assumes "set (frames pt) \<subseteq> {0..<128}" "lst \<le> 128" "copy_page pt buffer pages lst i m = Inr m'" "int p div 128 \<notin> set (frames pt)"
  shows "mainMemory m' p = mainMemory m p"
proof -
  from assms(3) obtain e where e: "0 \<le> i" "nat i < length pt" "e = pt ! nat i" by (auto simp: copy_page_def bindR_eq_Inr aget_def split: if_splits)
  define n where "n = (if i = pages - 1 then lst else int PageSize)"
  define bs where "bs = take (nat n) (drop (nat i * PageSize) buffer)"
  let ?f = "sint (physicalPage e)"
  have f: "?f \<in> set (frames pt)" using e nth_mem [of "nat i" "frames pt"] by (simp add: frames_nth)
  then have r: "0 \<le> ?f" "?f < 128" using assms(1) by auto
  have st: "store_mem (?f * int PageSize) bs m = Inr m'"
    using assms(3) e by (auto simp: copy_page_def bindR_eq_Inr aget_def n_def bs_def Let_def split: if_splits)
  have "n \<le> 128" using assms(2) by (simp add: n_def PageSize_def)
  then have len: "length bs \<le> 128" by (simp add: bs_def)
  have "\<not> (nat (?f * 128) \<le> p \<and> p < nat (?f * 128) + length bs)"
  proof
    assume "nat (?f * 128) \<le> p \<and> p < nat (?f * 128) + length bs"
    then have "in_frame ?f p" using in_frame_range [OF r(1), of p] len by linarith
    then show False using f assms(4) by (simp add: in_frame_def)
  qed
  then show ?thesis using st store_frame [OF r len, of m] by auto
qed

lemma foldR_kept:
  assumes "foldR f xs s = Inr s'" "P s" "\<And>x s s'. x \<in> set xs \<Longrightarrow> P s \<Longrightarrow> f x s = Inr s' \<Longrightarrow> P s'"
  shows "P s'"
  using assms
proof (induction xs arbitrary: s)
  case (Cons x xs)
  from Cons.prems(1) obtain s1 where "f x s = Inr s1" "foldR f xs s1 = Inr s'" by (auto simp: bindR_eq_Inr)
  then show ?case using Cons.IH [of s1] Cons.prems(2,3) by (meson list.set_intros)
qed simp

lemma copy_pages_outside:
  assumes "set (frames pt) \<subseteq> {0..<128}" "copy_pages pt buffer m = Inr m'" "int p div 128 \<notin> set (frames pt)"
  shows "mainMemory m' p = mainMemory m p"
proof -
  define lst where "lst = (if int (length buffer) smod int PageSize = 0 then int PageSize else int (length buffer) smod int PageSize)"
  have "lst \<le> 128" by (simp add: lst_def PageSize_def smod_nonneg pos_mod_bound less_imp_le)
  then show ?thesis
    using foldR_kept [of _ _ m m' "\<lambda>x. mainMemory x p = mainMemory m p"] assms(2) copy_page_outside [OF assms(1) _ _ assms(3)]
    unfolding copy_pages_def Let_def lst_def [symmetric] by (metis (no_types, lifting))
qed

lemma alloc_pages_any:
  assumes "Bitmap_ok b" "numBits b = 128" "Bitmap_NumClear b = Inr free" "\<not> uint (k :: u32) > uint (of_int free :: u32)" "alloc_pages i (unat k) b m = Inr (pt, b', m')"
  shows "length pt = unat k \<and> distinct (frames pt) \<and> set (frames pt) \<subseteq> {0..<128} - Bitmap_used b \<and> Bitmap_ok b' \<and> numBits b' = 128 \<and>
    Bitmap_used b' = Bitmap_used b \<union> set (frames pt) \<and>
    m' = m\<lparr>mainMemory := (\<lambda>p. if int p div 128 \<in> set (frames pt) then 0 else mainMemory m p)\<rparr>"
proof -
  have "free = int (card ({0..<128} - Bitmap_used b))" using bm.num_clear_law [OF assms(1)] assms(2,3) by simp
  then have "int (unat k) \<le> int (card ({0..<128} - Bitmap_used b))" using assms(4) numclear_word [OF assms(1,2)] by simp
  from alloc_pages_ok [OF assms(1,2) this, of i m] show ?thesis using assms(5) by auto
qed

text \<open>\<open>Load_frames\<close> of any header: when it succeeds the frames of the new page table were free, and no other memory has changed.\<close>

lemma Load_frames_any:
  assumes b: "Bitmap_ok (gPhysPageBitMap s)" "numBits (gPhysPageBitMap s) = 128" and l: "Load_frames f n k s = Inr ((True, sp), s')"
  shows "\<exists>pt. sp = \<lparr>as_pageTable = Some pt, numPages = k\<rparr> \<and> length pt = unat k \<and> distinct (frames pt) \<and>
    set (frames pt) \<subseteq> {0..<128} - Bitmap_used (gPhysPageBitMap s) \<and> Bitmap_ok (gPhysPageBitMap s') \<and> numBits (gPhysPageBitMap s') = 128 \<and>
    Bitmap_used (gPhysPageBitMap s') = Bitmap_used (gPhysPageBitMap s) \<union> set (frames pt) \<and> spaces s' = spaces s \<and> tlb (mach s') = tlb (mach s) \<and>
    (\<forall>p. int p div 128 \<notin> set (frames pt) \<longrightarrow> mainMemory (mach s') p = mainMemory (mach s) p)"
proof -
  obtain free where free: "Bitmap_NumClear (gPhysPageBitMap s) = Inr free" using l by (auto simp: Load_frames_def bindR_eq_Inr)
  have room: "\<not> uint k > uint (of_int free :: u32)" using l free by (auto simp: Load_frames_def bindR_eq_Inr split: if_splits)
  obtain pt b' m' where al: "alloc_pages 0 (unat k) (gPhysPageBitMap s) (mach s) = Inr (pt, b', m')"
    using l room unfolding Load_frames_def free bindR_simps if_not_P [OF room] by (auto simp: bindR_eq_Inr)
  note ok = alloc_pages_any [OF b free room al]
  have r: "set (frames pt) \<subseteq> {0..<128}" using ok by blast
  define gs where "gs = [code n, readonlyData n, initData n]"
  obtain buffer s1 m2 where rs: "\<exists>z. foldR (read_segment f) gs (z, s\<lparr>gPhysPageBitMap := b'\<rparr>) = Inr (buffer, s1)"
      and cp: "copy_pages pt buffer m' = Inr m2" and e: "sp = \<lparr>as_pageTable = Some pt, numPages = k\<rparr>" "s' = s1\<lparr>mach := m2\<rparr>"
    using l unfolding Load_frames_def free bindR_simps if_not_P [OF room] al gs_def [symmetric] by (auto simp: bindR_eq_Inr Let_def split: if_splits)
  from rs have fo: "fds_only (s\<lparr>gPhysPageBitMap := b'\<rparr>) s1" using read_segments_fds by blast
  have "tlb m2 = tlb m'"
    using cp unfolding copy_pages_def Let_def by (rule foldR_kept [where P = "\<lambda>x. tlb x = tlb m'"])
      (auto simp: copy_page_def store_mem_def bindR_eq_Inr Let_def split: if_splits)
  moreover have "mainMemory m2 p = mainMemory m' p" if "int p div 128 \<notin> set (frames pt)" for p
    using copy_pages_outside [OF r cp that] .
  ultimately show ?thesis using ok e fds_only_fields [OF fo] by simp
qed

lemma Load_frames_refused: "Load_frames f n k s = Inr ((False, sp), s') \<Longrightarrow> fds_only s s'"
  by (auto simp: Load_frames_def bindR_eq_Inr Let_def dest: OpenFile_delete_fds split: if_splits)

text \<open>Deleting an address space gives back its frames.\<close>

lemma clear_frames_ok:
  assumes "Bitmap_ok b" "set (frames pt) \<subseteq> {0..<numBits b}"
  shows "\<exists>b'. clear_frames pt b = Inr b' \<and> Bitmap_ok b' \<and> numBits b' = numBits b \<and> Bitmap_used b' = Bitmap_used b - set (frames pt)"
  using assms
proof (induction pt arbitrary: b)
  case (Cons e pt)
  have "0 \<le> sint (physicalPage e)" "sint (physicalPage e) < numBits b" using Cons.prems(2) by auto
  from bm.clear_law [OF Cons.prems(1) this] obtain b1 where 1: "Bitmap_Clear b (sint (physicalPage e)) = Inr b1" "Bitmap_ok b1" "numBits b1 = numBits b"
    "Bitmap_used b1 = Bitmap_used b - {sint (physicalPage e)}" by blast
  then obtain b' where "clear_frames pt b1 = Inr b'" "Bitmap_ok b'" "numBits b' = numBits b1" "Bitmap_used b' = Bitmap_used b1 - set (frames pt)"
    using Cons.IH [of b1] Cons.prems(2) by auto
  with 1 show ?case by (auto simp: clear_frames_def)
qed (simp add: clear_frames_def)

section \<open>The system of address spaces\<close>

text \<open>
  What can happen to the memory of processes: process \<open>t\<close> loads an executable (any header, any file) under the lock, is refused,
  starts to execute, is switched to, runs one instruction with its page table, or its address space is deleted. The simulator
  works on the page table of the address space itself, so the use and dirty bits it sets are those of the address space.
  An address space is entered in \<open>spaces\<close> as soon as it owns frames.
\<close>

inductive space_step :: "nat \<Rightarrow> 'z Sys_scheme \<Rightarrow> 'z Sys_scheme \<Rightarrow> bool" where
  load: "spaces s t = None \<Longrightarrow> Load_frames f n k s = Inr ((True, sp), s') \<Longrightarrow> space_step t s (s'\<lparr>spaces := (spaces s')(t \<mapsto> sp)\<rparr>)"
| refused: "Load_frames f n k s = Inr ((False, sp), s') \<Longrightarrow> space_step t s s'"
| execute: "spaces s t = Some sp \<Longrightarrow> AddrSpace_Execute t sp s = Inr s' \<Longrightarrow> space_step t s s'"
| switch: "spaces s t = Some sp \<Longrightarrow> space_step t s (s\<lparr>mach := AddrSpace_RestoreState sp (mach s)\<rparr>)"
| instruction: "spaces s t = Some sp \<Longrightarrow> pageTable (mach s) = as_pageTable sp \<Longrightarrow> pageTableSize (mach s) = numPages sp \<Longrightarrow>
    OneInstruction (mach s) = Inr r \<Longrightarrow> m' = (case r of Inl (ex, m) \<Rightarrow> m | Inr m \<Rightarrow> m) \<Longrightarrow>
    space_step t s (s\<lparr>mach := m', spaces := (spaces s)(t \<mapsto> sp\<lparr>as_pageTable := pageTable m'\<rparr>)\<rparr>)"
| delete: "spaces s t = Some sp \<Longrightarrow> AddrSpace_delete sp s = Inr s' \<Longrightarrow> space_step t s (s'\<lparr>spaces := (spaces s')(t := None)\<rparr>)"

inductive space_run :: "nat list \<Rightarrow> 'z Sys_scheme \<Rightarrow> 'z Sys_scheme \<Rightarrow> bool" where
  stop: "space_run [] s s"
| next_step: "space_step t s s1 \<Longrightarrow> space_run ts s1 s2 \<Longrightarrow> space_run (t # ts) s s2"

inductive_cases space_stepE: "space_step t s s'"

definition frames_of :: "'z Sys_scheme \<Rightarrow> nat \<Rightarrow> int list" where
  "frames_of s t = (case spaces s t of None \<Rightarrow> [] | Some sp \<Rightarrow> (case as_pageTable sp of None \<Rightarrow> [] | Some pt \<Rightarrow> frames pt))"

definition Spaces_ok :: "'z Sys_scheme \<Rightarrow> bool" where
  "Spaces_ok s \<longleftrightarrow> Bitmap_ok (gPhysPageBitMap s) \<and> numBits (gPhysPageBitMap s) = 128 \<and> tlb (mach s) = None \<and>
     (\<forall>t sp. spaces s t = Some sp \<longrightarrow> (\<exists>pt. as_pageTable sp = Some pt \<and> length pt = unat (numPages sp)) \<and> distinct (frames_of s t) \<and>
       set (frames_of s t) \<subseteq> Bitmap_used (gPhysPageBitMap s)) \<and>
     (\<forall>t u. t \<noteq> u \<longrightarrow> set (frames_of s t) \<inter> set (frames_of s u) = {})"

text \<open>The other processes keep their frames and what is in them.\<close>

definition others_kept :: "nat \<Rightarrow> 'z Sys_scheme \<Rightarrow> 'z Sys_scheme \<Rightarrow> bool" where
  "others_kept t s s' \<longleftrightarrow> (\<forall>u. u \<noteq> t \<longrightarrow> spaces s' u = spaces s u \<and>
     (\<forall>p. int p div 128 \<in> set (frames_of s u) \<longrightarrow> mainMemory (mach s') p = mainMemory (mach s) p))"

lemma frames_of_simps [simp]:
  "frames_of (s\<lparr>mach := m\<rparr>) = frames_of s" "frames_of (s\<lparr>gPhysPageBitMap := b\<rparr>) = frames_of s"
  "u \<noteq> t \<Longrightarrow> frames_of (s\<lparr>spaces := (spaces s)(t := x)\<rparr>) u = frames_of s u"
  "frames_of (s\<lparr>spaces := (spaces s)(t := None)\<rparr>) t = []"
  "frames_of (s\<lparr>spaces := (spaces s)(t \<mapsto> \<lparr>as_pageTable = Some pt, numPages = k\<rparr>)\<rparr>) t = frames pt"
  by (simp_all add: frames_of_def fun_eq_iff)

lemma frames_of_cong: "spaces s' u = spaces s u \<Longrightarrow> frames_of s' u = frames_of s u"
  by (simp add: frames_of_def)

lemma Spaces_okD:
  assumes "Spaces_ok s" "spaces s t = Some sp"
  obtains pt where "as_pageTable sp = Some pt" "length pt = unat (numPages sp)" "frames_of s t = frames pt" "distinct (frames pt)"
    "set (frames pt) \<subseteq> Bitmap_used (gPhysPageBitMap s)"
proof -
  have 1: "(\<exists>pt. as_pageTable sp = Some pt \<and> length pt = unat (numPages sp)) \<and> distinct (frames_of s t) \<and>
      set (frames_of s t) \<subseteq> Bitmap_used (gPhysPageBitMap s)"
    using assms unfolding Spaces_ok_def by blast
  then obtain pt where pt: "as_pageTable sp = Some pt" "length pt = unat (numPages sp)" by blast
  then have "frames_of s t = frames pt" using assms(2) by (simp add: frames_of_def)
  with 1 pt show ?thesis using that by simp
qed

text \<open>One process changes its address space: what has to be checked.\<close>

lemma Spaces_update:
  assumes ok: "Spaces_ok s" and sp: "\<And>u. u \<noteq> t \<Longrightarrow> spaces s' u = spaces s u"
    and b: "Bitmap_ok (gPhysPageBitMap s')" "numBits (gPhysPageBitMap s') = 128" "tlb (mach s') = None"
    and mine: "\<And>sp. spaces s' t = Some sp \<Longrightarrow> \<exists>pt. as_pageTable sp = Some pt \<and> length pt = unat (numPages sp) \<and> distinct (frames pt)"
    and used: "set (frames_of s' t) \<subseteq> Bitmap_used (gPhysPageBitMap s')" "\<And>u. u \<noteq> t \<Longrightarrow> set (frames_of s u) \<subseteq> Bitmap_used (gPhysPageBitMap s')"
    and disj: "\<And>u. u \<noteq> t \<Longrightarrow> set (frames_of s' t) \<inter> set (frames_of s u) = {}"
  shows "Spaces_ok s'"
  unfolding Spaces_ok_def
proof (intro conjI allI impI)
  have fo: "frames_of s' u = frames_of s u" if "u \<noteq> t" for u using frames_of_cong [of s' u s] sp [OF that] .
  show "Bitmap_ok (gPhysPageBitMap s')" "numBits (gPhysPageBitMap s') = 128" "tlb (mach s') = None" by (rule b)+
  fix u v :: nat
  show "set (frames_of s' u) \<inter> set (frames_of s' v) = {}" if "u \<noteq> v"
  proof -
    have "set (frames_of s u) \<inter> set (frames_of s v) = {}" using ok that unfolding Spaces_ok_def by blast
    then show ?thesis using fo disj [of u] disj [of v] that by (cases "u = t"; cases "v = t") auto
  qed
next
  fix u sp' assume u: "spaces s' u = Some sp'"
  have fo: "u \<noteq> t \<Longrightarrow> frames_of s' u = frames_of s u" using frames_of_cong [of s' u s] sp by blast
  show "\<exists>pt. as_pageTable sp' = Some pt \<and> length pt = unat (numPages sp')"
    using u mine [of sp'] ok sp [of u] unfolding Spaces_ok_def by (cases "u = t") auto
  show "distinct (frames_of s' u)"
  proof (cases "u = t")
    case True
    then show ?thesis using u mine [of sp'] by (auto simp: frames_of_def)
  next
    case False
    then show ?thesis using u ok sp [of u] fo unfolding Spaces_ok_def by auto
  qed
  show "set (frames_of s' u) \<subseteq> Bitmap_used (gPhysPageBitMap s')" using used fo by (cases "u = t") auto
qed

lemma frames_disjoint: "Spaces_ok s \<Longrightarrow> u \<noteq> t \<Longrightarrow> set (frames_of s t) \<inter> set (frames_of s u) = {}"
  unfolding Spaces_ok_def by blast

lemma frames_used: "Spaces_ok s \<Longrightarrow> set (frames_of s u) \<subseteq> Bitmap_used (gPhysPageBitMap s)"
  unfolding Spaces_ok_def by (cases "spaces s u") (auto simp: frames_of_def)

lemma step_load:
  fixes t :: nat
  assumes ok: "Spaces_ok s" and l: "Load_frames f n k s = Inr ((True, sp), s')"
  defines "s2 \<equiv> s'\<lparr>spaces := (spaces s')(t \<mapsto> sp)\<rparr>"
  shows "Spaces_ok s2 \<and> others_kept t s s2"
proof -
  have b: "Bitmap_ok (gPhysPageBitMap s)" "numBits (gPhysPageBitMap s) = 128" "tlb (mach s) = None" using ok by (simp_all add: Spaces_ok_def)
  obtain pt where pt: "sp = \<lparr>as_pageTable = Some pt, numPages = k\<rparr>" "length pt = unat k" "distinct (frames pt)"
      "set (frames pt) \<subseteq> {0..<128} - Bitmap_used (gPhysPageBitMap s)" "Bitmap_ok (gPhysPageBitMap s')" "numBits (gPhysPageBitMap s') = 128"
      "Bitmap_used (gPhysPageBitMap s') = Bitmap_used (gPhysPageBitMap s) \<union> set (frames pt)" "spaces s' = spaces s" "tlb (mach s') = tlb (mach s)"
      "\<forall>p. int p div 128 \<notin> set (frames pt) \<longrightarrow> mainMemory (mach s') p = mainMemory (mach s) p"
    using Load_frames_any [OF b(1,2) l] by blast
  have ft: "frames_of s2 t = frames pt" unfolding s2_def pt(1) by simp
  have dj: "set (frames pt) \<inter> set (frames_of s u) = {}" for u using frames_used [OF ok, of u] pt(4) by blast
  have "Spaces_ok s2"
  proof (rule Spaces_update [OF ok, of t])
    show "spaces s2 u = spaces s u" if "u \<noteq> t" for u using that pt(8) by (simp add: s2_def)
    show "set (frames_of s u) \<subseteq> Bitmap_used (gPhysPageBitMap s2)" for u using frames_used [OF ok, of u] pt(7) by (auto simp: s2_def)
  qed (use pt b(3) ft dj in \<open>simp_all add: s2_def\<close>)
  moreover have "others_kept t s s2" unfolding others_kept_def using pt(8,10) dj by (auto simp: s2_def)
  ultimately show ?thesis ..
qed

lemma step_delete:
  assumes ok: "Spaces_ok s" and t: "spaces s t = Some sp" and d: "AddrSpace_delete sp s = Inr s'"
  defines "s2 \<equiv> s'\<lparr>spaces := (spaces s')(t := None)\<rparr>"
  shows "Spaces_ok s2 \<and> others_kept t s s2"
proof -
  have b: "Bitmap_ok (gPhysPageBitMap s)" "numBits (gPhysPageBitMap s) = 128" "tlb (mach s) = None" using ok by (simp_all add: Spaces_ok_def)
  obtain pt where pt: "as_pageTable sp = Some pt" "length pt = unat (numPages sp)" "frames_of s t = frames pt" "distinct (frames pt)"
    "set (frames pt) \<subseteq> Bitmap_used (gPhysPageBitMap s)" using Spaces_okD [OF ok t] by blast
  have "set (frames pt) \<subseteq> {0..<numBits (gPhysPageBitMap s)}" using pt(5) Bitmap_used_range by blast
  from clear_frames_ok [OF b(1) this] obtain b' where b': "clear_frames pt (gPhysPageBitMap s) = Inr b'" "Bitmap_ok b'" "numBits b' = 128"
    "Bitmap_used b' = Bitmap_used (gPhysPageBitMap s) - set (frames pt)" using b(2) by auto
  have e: "s' = s\<lparr>gPhysPageBitMap := b'\<rparr>"
  proof (cases "numPages sp = 0")
    case True
    then have "pt = []" using pt(2) by simp
    then have "b' = gPhysPageBitMap s" using b'(1) by (simp add: clear_frames_def)
    then show ?thesis using d True by (simp add: AddrSpace_delete_def)
  qed (use d pt(1,2) b'(1) in \<open>simp add: AddrSpace_delete_def\<close>)
  have "Spaces_ok s2"
  proof (rule Spaces_update [OF ok, of t])
    show "set (frames_of s u) \<subseteq> Bitmap_used (gPhysPageBitMap s2)" if "u \<noteq> t" for u
      using frames_used [OF ok, of u] frames_disjoint [OF ok that] b'(4) pt(3) by (auto simp: s2_def e)
    have "frames_of s2 t = []" by (simp add: frames_of_def s2_def)
    then show "set (frames_of s2 t) \<subseteq> Bitmap_used (gPhysPageBitMap s2)" "\<And>u. u \<noteq> t \<Longrightarrow> set (frames_of s2 t) \<inter> set (frames_of s u) = {}" by simp_all
  qed (use b' b(3) in \<open>simp_all add: s2_def e\<close>)
  moreover have "others_kept t s s2" by (simp add: others_kept_def s2_def e)
  ultimately show ?thesis ..
qed

lemma step_instruction:
  assumes ok: "Spaces_ok s" and t: "spaces s t = Some sp" and pt: "pageTable (mach s) = as_pageTable sp"
    and i: "OneInstruction (mach s) = Inr r" "m' = (case r of Inl (ex, m) \<Rightarrow> m | Inr m \<Rightarrow> m)"
  defines "s2 \<equiv> s\<lparr>mach := m', spaces := (spaces s)(t \<mapsto> sp\<lparr>as_pageTable := pageTable m'\<rparr>)\<rparr>"
  shows "Spaces_ok s2 \<and> others_kept t s s2"
proof -
  have b: "Bitmap_ok (gPhysPageBitMap s)" "numBits (gPhysPageBitMap s) = 128" "tlb (mach s) = None" using ok by (simp_all add: Spaces_ok_def)
  obtain pt0 where pt0: "as_pageTable sp = Some pt0" "length pt0 = unat (numPages sp)" "frames_of s t = frames pt0" "distinct (frames pt0)"
    "set (frames pt0) \<subseteq> Bitmap_used (gPhysPageBitMap s)" using Spaces_okD [OF ok t] by blast
  have p: "pageTable (mach s) = Some pt0" using pt pt0(1) by simp
  have "confined (mach s) m'" using OneInstruction_confined [OF b(3) p i(1)] i(2) by (auto split: sum.splits)
  then obtain pt1 where c: "tlb m' = None" "pageTable m' = Some pt1" "frames pt1 = frames pt0"
      "\<And>q. int q div 128 \<notin> set (frames pt0) \<Longrightarrow> mainMemory m' q = mainMemory (mach s) q" using p by (auto simp: confined_def)
  have len: "length pt1 = length pt0" using arg_cong [OF c(3), of length] by simp
  have ft: "frames_of s2 t = frames pt0" by (simp add: frames_of_def s2_def c(2,3))
  have "Spaces_ok s2"
  proof (rule Spaces_update [OF ok, of t])
    show "set (frames_of s u) \<subseteq> Bitmap_used (gPhysPageBitMap s2)" for u using frames_used [OF ok, of u] by (simp add: s2_def)
    show "set (frames_of s2 t) \<inter> set (frames_of s u) = {}" if "u \<noteq> t" for u using frames_disjoint [OF ok that] ft pt0(3) by simp
    show "set (frames_of s2 t) \<subseteq> Bitmap_used (gPhysPageBitMap s2)" using ft pt0(5) by (simp add: s2_def)
  qed (use c b len pt0(2,4) in \<open>auto simp: s2_def\<close>)
  moreover have "mainMemory m' q = mainMemory (mach s) q" if "u \<noteq> t" "int q div 128 \<in> set (frames_of s u)" for u q
    using c(4) [of q] frames_disjoint [OF ok that(1)] that(2) pt0(3) by auto
  then have "others_kept t s s2" by (simp add: others_kept_def s2_def)
  ultimately show ?thesis ..
qed

lemma space_step_ok:
  assumes ok: "Spaces_ok s" and st: "space_step t s s'"
  shows "Spaces_ok s' \<and> others_kept t s s'"
  using st
proof cases
  case (load f n k sp s1)
  then show ?thesis using step_load [OF ok] by blast
next
  case (refused f n k sp)
  note e = fds_only_fields [OF Load_frames_refused [OF refused]]
  then have "frames_of s' = frames_of s" by (simp add: frames_of_def fun_eq_iff)
  with e show ?thesis using ok by (simp add: Spaces_ok_def others_kept_def)
next
  case (execute sp)
  then obtain m where m: "InitRegisters sp (mach s) = Inr m" "s' = s\<lparr>spaces := (spaces s)(t \<mapsto> sp), mach := AddrSpace_RestoreState sp m\<rparr>"
    by (auto simp: AddrSpace_Execute_def bindR_eq_Inr)
  then have sp: "spaces s' = spaces s" using execute(1) by (simp add: fun_upd_idem)
  have "tlb m = tlb (mach s) \<and> mainMemory m = mainMemory (mach s)"
  proof -
    obtain m1 where f: "foldR (\<lambda>i m. WriteRegister m (int i) 0) [0..<NumTotalRegs] (mach s) = Inr m1"
        and r: "m = setReg (setReg (setReg m1 PCReg 0) NextPCReg 4) StackReg (numPages sp * of_nat PageSize - 16)"
      using m(1) by (auto simp: InitRegisters_def bindR_eq_Inr WriteRegister_def split: if_splits)
    from f have "tlb m1 = tlb (mach s) \<and> mainMemory m1 = mainMemory (mach s)"
      by (rule foldR_kept) (auto simp: WriteRegister_def bindR_eq_Inr)
    with r show ?thesis by simp
  qed
  moreover have "frames_of s' = frames_of s" using sp by (simp add: frames_of_def fun_eq_iff)
  ultimately show ?thesis using ok sp by (simp add: Spaces_ok_def others_kept_def m(2) AddrSpace_RestoreState_def)
next
  case (switch sp)
  then show ?thesis using ok by (simp add: Spaces_ok_def others_kept_def AddrSpace_RestoreState_def)
next
  case (instruction sp r m')
  then show ?thesis using step_instruction [OF ok] by blast
next
  case (delete sp s1)
  then show ?thesis using step_delete [OF ok] by blast
qed

text \<open>
  C2. Processes are isolated. From a state in which every address space has its own frames, any sequence of
  steps (loading any executable, refused loads, starting, switching, single user instructions of any program, deleting address
  spaces) again leads to such a state; and a process that takes no step keeps its page table and every byte of its memory.
\<close>

theorem process_isolation:
  assumes "Spaces_ok s" "space_run ts s s'"
  shows "Spaces_ok s' \<and> (\<forall>u. u \<notin> set ts \<longrightarrow> spaces s' u = spaces s u \<and>
    (\<forall>p. int p div 128 \<in> set (frames_of s u) \<longrightarrow> mainMemory (mach s') p = mainMemory (mach s) p))"
  using assms(2,1)
proof (induction rule: space_run.induct)
  case (next_step t s s1 ts s2)
  have 1: "Spaces_ok s1" "others_kept t s s1" using space_step_ok [OF next_step.prems next_step.hyps(1)] by blast+
  note IH = next_step.IH [OF 1(1)]
  have "spaces s2 u = spaces s u \<and> (\<forall>p. int p div 128 \<in> set (frames_of s u) \<longrightarrow> mainMemory (mach s2) p = mainMemory (mach s) p)"
    if u: "u \<notin> set (t # ts)" for u
  proof -
    have a: "spaces s1 u = spaces s u" "\<forall>p. int p div 128 \<in> set (frames_of s u) \<longrightarrow> mainMemory (mach s1) p = mainMemory (mach s) p"
      using 1(2) u unfolding others_kept_def by auto
    then show ?thesis using IH u frames_of_cong [OF a(1)] by auto
  qed
  then show ?case using IH by blast
qed simp

text \<open>Two processes with a page each.\<close>

definition page_in :: "u32 \<Rightarrow> AddrSpace" where
  "page_in f = \<lparr>as_pageTable = Some [\<lparr>virtualPage = 0, physicalPage = f, valid = True, readOnly = False, use_bit = False, dirty = False\<rparr>], numPages = 1\<rparr>"

definition sys_two :: Sys where
  "sys_two = sys0\<lparr>gPhysPageBitMap := \<lparr>numBits = 128, numWords = 4, map_words = [3, 0, 0, 0]\<rparr>, spaces := [1 \<mapsto> page_in 0, 2 \<mapsto> page_in 1]\<rparr>"

lemma sys_two_frames: "frames_of sys_two t = (if t = 1 then [0] else if t = 2 then [1] else [])"
  by (simp add: frames_of_def sys_two_def page_in_def frames_def)

lemma sys_two_ok: "Spaces_ok sys_two"
proof -
  have "bit (3 :: u32) 1" using bit_numeral_iff by (simp add: bit_numeral_rec)
  then have u: "0 \<in> Bitmap_used (gPhysPageBitMap sys_two)" "1 \<in> Bitmap_used (gPhysPageBitMap sys_two)"
    by (simp_all add: Bitmap_used_def sys_two_def bit_at_def BitsInWord_32)
  have "Bitmap_ok (gPhysPageBitMap sys_two) \<and> numBits (gPhysPageBitMap sys_two) = 128 \<and> tlb (mach sys_two) = None"
    by (simp add: sys_two_def Bitmap_ok_def BitsInWord_32 divRoundUp_eq sys0_def Machine_new_def)
  moreover have "spaces sys_two t = Some sp \<Longrightarrow> \<exists>pt. as_pageTable sp = Some pt \<and> length pt = unat (numPages sp)" for t sp
    by (auto simp: sys_two_def page_in_def split: if_splits)
  ultimately show ?thesis unfolding Spaces_ok_def using u by (auto simp: sys_two_frames)
qed

theorem process_isolation_witness:
  "\<exists>s'. space_run [1] sys_two s' \<and> spaces s' 2 = Some (page_in 1) \<and> mainMemory (mach s') 130 = mainMemory (mach sys_two) 130"
proof -
  let ?s = "sys_two\<lparr>mach := AddrSpace_RestoreState (page_in 0) (mach sys_two)\<rparr>"
  have run: "space_run [1] sys_two ?s"
    by (rule space_run.next_step [OF space_step.switch space_run.stop]) (simp add: sys_two_def)
  then have r: "(2 :: nat) \<notin> set [1] \<longrightarrow> spaces ?s 2 = spaces sys_two 2 \<and>
      (\<forall>p. int p div 128 \<in> set (frames_of sys_two 2) \<longrightarrow> mainMemory (mach ?s) p = mainMemory (mach sys_two) p)"
    using process_isolation [OF sys_two_ok] by (metis (no_types, lifting))
  have "int 130 div 128 \<in> set (frames_of sys_two 2)" by (simp add: sys_two_frames)
  then have "mainMemory (mach ?s) 130 = mainMemory (mach sys_two) 130" using r by simp
  moreover have "spaces ?s 2 = Some (page_in 1)" using r by (simp add: sys_two_def)
  ultimately show ?thesis using run by blast
qed

end
