(* ===== verification/Nachos_Process.thy ===== *)
theory Nachos_Process
  imports Nachos_AddrSpace
begin

text \<open>
  Processes and user semaphores: \<open>threads/pcb.cc\<close>, \<open>threads/PTable.cc\<close>, \<open>threads/sem.cc\<close> and \<open>threads/STable.cc\<close>.

  A process control block lives on a heap and the table holds pointers to it. Every method that waits on a semaphore is a
  routine; \<open>self\<close> is the thread that executes it. The destructor of a control block calls \<open>Thread::Finish\<close>, from which the
  thread never returns: the call \<open>FinishThread\<close> has no effect on the state and is never resumed.
\<close>

section \<open>Process control blocks\<close>

definition MAX_PROCESSES :: int where "MAX_PROCESSES = 10"

definition PCB_new :: "'z Sys_scheme \<Rightarrow> nat \<times> 'z Sys_scheme" where
  "PCB_new s =
     (let (j, s) = new_sem 0 s; (e, s) = new_sem 0 s; (m, s) = new_sem 1 s;
          b = \<lparr>joinsem = j, exitsem = e, mutex = m, exitcode = 0, numwait = 0, pcb_file = None, pcb_thread = None, pid = -1, parentID = -1\<rparr>
      in (next_pcb s, s\<lparr>pcb_heap := (pcb_heap s)(next_pcb s \<mapsto> b), next_pcb := Suc (next_pcb s)\<rparr>))"

definition pcb :: "nat \<Rightarrow> 'z Sys_scheme \<Rightarrow> PCB res" where
  "pcb a s = (case pcb_heap s a of None \<Rightarrow> Inl UseAfterFree | Some b \<Rightarrow> Inr b)"

definition put_pcb :: "nat \<Rightarrow> (PCB \<Rightarrow> PCB) \<Rightarrow> 'z Sys_scheme \<Rightarrow> 'z Sys_scheme res" where
  "put_pcb a f s = bindR (pcb a s) (\<lambda>b. Inr (s\<lparr>pcb_heap := (pcb_heap s)(a \<mapsto> f b)\<rparr>))"

definition PCB_new_first :: "byte list \<Rightarrow> nat \<Rightarrow> 'z Sys_scheme \<Rightarrow> (nat \<times> 'z Sys_scheme) res" where
  "PCB_new_first fname t s =
     (let (a, s) = PCB_new s in
      bindR (cstr fname) (\<lambda>nm.
      bindR (put_pcb a (\<lambda>b. b\<lparr>pid := 0, pcb_file := Some (nm @ [0]), pcb_thread := Some t\<rparr>) s) (\<lambda>s. Inr (a, s))))"

text \<open>A deleted name is treated like a null pointer: reading it is a fault.\<close>

definition PCB_delete :: "nat \<Rightarrow> nat \<Rightarrow> 'z Sys_scheme \<Rightarrow> ('z, unit) routine" where
  "PCB_delete self a s =
     bindP (asP (pcb a s) s) (\<lambda>b s.
     bindP (asP (bindR (put_pcb a (\<lambda>b. b\<lparr>pcb_file := None\<rparr>) s) (\<lambda>s.
            bindR (del_sem (joinsem b) s) (\<lambda>s. bindR (del_sem (exitsem b) s) (del_sem (mutex b))))) s) (\<lambda>s _.
     case pcb_thread b of
       None \<Rightarrow> Ret () (s\<lparr>pcb_heap := (pcb_heap s)(a := None)\<rparr>)
     | Some t \<Rightarrow>
         if t \<noteq> self then Fault AssertFailed
         else bindP (callP FinishThread s) (\<lambda>_ s. Fault AssertFailed)))"

text \<open>
  \<open>Exec\<close> copies the name and its terminating zero into \<open>new char[strlen(fname)]\<close>, one byte more than it asked for.
\<close>

definition copy_name :: "byte list \<Rightarrow> 'z Sys_scheme \<Rightarrow> byte list res" where
  "copy_name fname s = bindR (cstr fname) (\<lambda>nm. if length nm + 1 \<le> heap_room s (length nm) then Inr (nm @ [0]) else Inl OutOfBounds)"

definition PCB_Exec :: "nat \<Rightarrow> byte list \<Rightarrow> int \<Rightarrow> 'z Sys_scheme \<Rightarrow> ('z, int) routine" where
  "PCB_Exec a fname p s =
     bindP (asP (pcb a s) s) (\<lambda>b s.
     bindP (userP (mutex b) s) (\<lambda>_ s.
     bindP (asP (put_pcb a (\<lambda>b. b\<lparr>pid := p\<rparr>) s) s) (\<lambda>s _.
     bindP (asP (copy_name fname s) s) (\<lambda>file s.
     let t = next_tid s in
     bindP (asP (put_pcb a (\<lambda>b. b\<lparr>pcb_file := Some file, pcb_thread := Some t\<rparr>) (s\<lparr>next_tid := Suc t\<rparr>)) s) (\<lambda>s _.
     bindP (user_call (ForkThread t file) s) (\<lambda>_ s.
     bindP (userV (mutex b) s) (\<lambda>_ s. Ret p s)))))))"

text \<open>The methods that only read or write a field, wait for or signal a semaphore of the block.\<close>

definition PCB_JoinWait :: "nat \<Rightarrow> 'z Sys_scheme \<Rightarrow> ('z, unit) routine" where
  "PCB_JoinWait a s = bindP (asP (pcb a s) s) (\<lambda>b. userP (joinsem b))"

definition PCB_JoinRelease :: "nat \<Rightarrow> 'z Sys_scheme \<Rightarrow> ('z, unit) routine" where
  "PCB_JoinRelease a s = bindP (asP (pcb a s) s) (\<lambda>b. userV (joinsem b))"

definition PCB_ExitWait :: "nat \<Rightarrow> 'z Sys_scheme \<Rightarrow> ('z, unit) routine" where
  "PCB_ExitWait a s = bindP (asP (pcb a s) s) (\<lambda>b. userP (exitsem b))"

definition PCB_ExitRelease :: "nat \<Rightarrow> 'z Sys_scheme \<Rightarrow> ('z, unit) routine" where
  "PCB_ExitRelease a s = bindP (asP (pcb a s) s) (\<lambda>b. userV (exitsem b))"

definition PCB_IncNumWait :: "nat \<Rightarrow> 'z Sys_scheme \<Rightarrow> ('z, unit) routine" where
  "PCB_IncNumWait a s =
     bindP (asP (pcb a s) s) (\<lambda>b s. bindP (userP (mutex b) s) (\<lambda>_ s.
     bindP (asP (put_pcb a (\<lambda>b. b\<lparr>numwait := numwait b + 1\<rparr>) s) s) (\<lambda>s _. userV (mutex b) s)))"

definition PCB_DecNumWait :: "nat \<Rightarrow> 'z Sys_scheme \<Rightarrow> ('z, unit) routine" where
  "PCB_DecNumWait a s =
     bindP (asP (pcb a s) s) (\<lambda>b s. bindP (userP (mutex b) s) (\<lambda>_ s.
     bindP (asP (put_pcb a (\<lambda>b. b\<lparr>numwait := numwait b - 1\<rparr>) s) s) (\<lambda>s _. userV (mutex b) s)))"

definition PCB_SetExitCode :: "nat \<Rightarrow> int \<Rightarrow> 'z Sys_scheme \<Rightarrow> 'z Sys_scheme res" where
  "PCB_SetExitCode a ec s = put_pcb a (\<lambda>b. b\<lparr>exitcode := ec\<rparr>) s"

definition PCB_GetExitCode :: "nat \<Rightarrow> 'z Sys_scheme \<Rightarrow> int res" where
  "PCB_GetExitCode a s = bindR (pcb a s) (\<lambda>b. Inr (exitcode b))"

text \<open>The body of the thread of a new process, up to the first user instruction.\<close>

definition StartProcess :: "byte list \<Rightarrow> nat \<Rightarrow> byte list \<Rightarrow> 'z Sys_scheme \<Rightarrow> ('z, unit) routine" where
  "StartProcess junk self fname s =
     bindP (AddrSpace_Load junk fname s) (\<lambda>(ok, sp) s.
     if ok then bindP (asP (AddrSpace_Execute self sp s) s) (\<lambda>s _. Ret () s)
     else Fault AssertFailed)"

section \<open>The process table\<close>

definition PTable_new :: "int \<Rightarrow> 'z Sys_scheme \<Rightarrow> 'z Sys_scheme res" where
  "PTable_new sz s =
     bindR (Bitmap_new sz) (\<lambda>b.
     let (k, s) = new_sem 1 s
     in Inr (s\<lparr>numProcesses := sz, slotManager := b, ptable_sem := k, pcbs := replicate (nat MAX_PROCESSES) None\<rparr>))"

text \<open>The destructor deletes as many entries as \<open>numProcesses\<close>, which the constructor has set to the size of the table, says.\<close>

definition PTable_delete :: "nat \<Rightarrow> 'z Sys_scheme \<Rightarrow> ('z, unit) routine" where
  "PTable_delete self s =
     bindP (asP (del_sem (ptable_sem s) s) s) (\<lambda>s _.
     forP (\<lambda>i s. bindP (asP (aget (pcbs s) i) s) (\<lambda>p s. case p of None \<Rightarrow> Ret () s | Some a \<Rightarrow> PCB_delete self a s))
       (map int [0..<nat (numProcesses s)]) s)"

text \<open>\<open>pcbs[i]->\<close>\<close>

definition pcb_ptr :: "int \<Rightarrow> 'z Sys_scheme \<Rightarrow> nat res" where
  "pcb_ptr i s = bindR (aget (pcbs s) i) (\<lambda>p. case p of None \<Rightarrow> Inl NullDeref | Some a \<Rightarrow> Inr a)"

definition InitFirstProcess :: "byte list \<Rightarrow> nat \<Rightarrow> 'z Sys_scheme \<Rightarrow> 'z Sys_scheme res" where
  "InitFirstProcess fname t s =
     bindR (PCB_new_first fname t s) (\<lambda>(a, s).
     bindR (aset (pcbs s) 0 (Some a)) (\<lambda>ps.
     bindR (Bitmap_Mark (slotManager s) 0) (\<lambda>b.
     Inr (s\<lparr>pcbs := ps, numProcesses := numProcesses s + 1, slotManager := b\<rparr>))))"

fun find_thread :: "nat \<Rightarrow> int list \<Rightarrow> 'z Sys_scheme \<Rightarrow> int res" where
  "find_thread self [] s = Inr (-1)"
| "find_thread self (i # is) s =
     bindR (aget (pcbs s) i) (\<lambda>p. case p of
       None \<Rightarrow> find_thread self is s
     | Some a \<Rightarrow> bindR (pcb a s) (\<lambda>b. if pcb_thread b = Some self then Inr (pid b) else find_thread self is s))"

definition GetCurrentThreadId :: "nat \<Rightarrow> 'z Sys_scheme \<Rightarrow> int res" where
  "GetCurrentThreadId self s = find_thread self (map int [0..<nat MAX_PROCESSES]) s"

definition GetFreeSlot :: "'z Sys_scheme \<Rightarrow> (int \<times> 'z Sys_scheme) res" where
  "GetFreeSlot s = bindR (Bitmap_FindAndSet (slotManager s)) (\<lambda>(i, b). Inr (i, s\<lparr>slotManager := b\<rparr>))"

definition IsExist :: "int \<Rightarrow> 'z Sys_scheme \<Rightarrow> bool res" where
  "IsExist p s = (if p < 0 \<or> p \<ge> MAX_PROCESSES then Inr False else bindR (aget (pcbs s) p) (\<lambda>x. Inr (x \<noteq> None)))"

definition PTable_Remove :: "nat \<Rightarrow> int \<Rightarrow> 'z Sys_scheme \<Rightarrow> ('z, unit) routine" where
  "PTable_Remove self p s =
     bindP (asP (IsExist p s) s) (\<lambda>ex s.
     if \<not> ex then Ret () s
     else
       bindP (asP (bindR (Bitmap_Clear (slotManager s) p) (\<lambda>b. Inr (s\<lparr>numProcesses := numProcesses s - 1, slotManager := b\<rparr>))) s) (\<lambda>s _.
       bindP (asP (pcb_ptr p s) s) (\<lambda>a s.
       bindP (PCB_delete self a s) (\<lambda>_ s.
       bindP (asP (aset (pcbs s) p None) s) (\<lambda>ps s. Ret () (s\<lparr>pcbs := ps\<rparr>))))))"

definition ExecUpdate :: "nat \<Rightarrow> byte list \<Rightarrow> 'z Sys_scheme \<Rightarrow> ('z, int) routine" where
  "ExecUpdate self fname s =
     bindP (userP (ptable_sem s) s) (\<lambda>_ s.
     bindP (asP (GetCurrentThreadId self s) s) (\<lambda>cur s.
     bindP (asP (bindR (pcb_ptr cur s) (\<lambda>a. bindR (pcb a s) (\<lambda>b.
              case pcb_file b of None \<Rightarrow> Inl NullDeref | Some f \<Rightarrow> strcmp_eq f fname))) s) (\<lambda>same s.
     if same then bindP (userV (ptable_sem s) s) (\<lambda>_ s. Ret (-1) s)
     else
       bindP (liftP (GetFreeSlot s)) (\<lambda>slot s.
       if slot = -1 then bindP (userV (ptable_sem s) s) (\<lambda>_ s. Ret (-1) s)
       else
         let (a, s) = PCB_new s in
         bindP (asP (bindR (aset (pcbs s) slot (Some a)) (\<lambda>ps. put_pcb a (\<lambda>b. b\<lparr>parentID := cur\<rparr>) (s\<lparr>pcbs := ps\<rparr>))) s) (\<lambda>s _.
         bindP (PCB_Exec a fname slot s) (\<lambda>result s.
         let s = s\<lparr>numProcesses := numProcesses s + 1\<rparr> in
         bindP (userV (ptable_sem s) s) (\<lambda>_ s. Ret result s)))))))"

text \<open>\<open>ExitUpdate\<close> has no return statement.\<close>

definition ExitUpdate :: "nat \<Rightarrow> int \<Rightarrow> 'z Sys_scheme \<Rightarrow> ('z, int) routine" where
  "ExitUpdate self ec s =
     bindP (asP (GetCurrentThreadId self s) s) (\<lambda>cur s.
     if cur = 0 then Fault MachineHalted
     else
       bindP (asP (pcb_ptr cur s) s) (\<lambda>a s. bindP (asP (PCB_SetExitCode a ec s) s) (\<lambda>s _.
       bindP (asP (pcb_ptr cur s) s) (\<lambda>a s. bindP (PCB_JoinRelease a s) (\<lambda>_ s.
       bindP (asP (pcb_ptr cur s) s) (\<lambda>a s. bindP (PCB_ExitWait a s) (\<lambda>_ s.
       bindP (PTable_Remove self cur s) (\<lambda>_ s. Fault NoReturnValue))))))))"

definition JoinUpdate :: "nat \<Rightarrow> int \<Rightarrow> 'z Sys_scheme \<Rightarrow> ('z, int) routine" where
  "JoinUpdate self c s =
     bindP (asP (GetCurrentThreadId self s) s) (\<lambda>cur s.
     bindP (asP (IsExist c s) s) (\<lambda>ex s.
     if \<not> ex then Ret (-1) s
     else if c = cur then Ret (-2) s
     else
       bindP (asP (bindR (pcb_ptr c s) (\<lambda>a. pcb a s)) s) (\<lambda>b s.
       if parentID b \<noteq> cur then Ret (-3) s
       else
         bindP (asP (pcb_ptr cur s) s) (\<lambda>a s. bindP (PCB_IncNumWait a s) (\<lambda>_ s.
         bindP (asP (pcb_ptr c s) s) (\<lambda>a s. bindP (PCB_JoinWait a s) (\<lambda>_ s.
         bindP (asP (pcb_ptr cur s) s) (\<lambda>a s. bindP (PCB_DecNumWait a s) (\<lambda>_ s.
         bindP (asP (pcb_ptr c s) s) (\<lambda>a s. bindP (PCB_ExitRelease a s) (\<lambda>_ s.
         bindP (asP (bindR (pcb_ptr c s) (\<lambda>a. PCB_GetExitCode a s)) s) (\<lambda>ec s. Ret ec s))))))))))))"

section \<open>User semaphores\<close>

definition MAX_SEMAPHORE :: int where "MAX_SEMAPHORE = 10"

text \<open>The name is copied into an array of 50 bytes.\<close>

definition Sem_new :: "byte list \<Rightarrow> int \<Rightarrow> 'z Sys_scheme \<Rightarrow> (Sem \<times> 'z Sys_scheme) res" where
  "Sem_new na i s =
     bindR (cstr na) (\<lambda>nm.
     if length nm + 1 > 50 then Inl OutOfBounds
     else let (k, s) = new_sem i s in Inr (\<lparr>sem_name = nm @ [0], sem_sem = k\<rparr>, s))"

definition Sem_delete :: "Sem \<Rightarrow> 'z Sys_scheme \<Rightarrow> 'z Sys_scheme res" where
  "Sem_delete x s = del_sem (sem_sem x) s"

definition Sem_Wait :: "Sem \<Rightarrow> 'z Sys_scheme \<Rightarrow> ('z, unit) routine" where
  "Sem_Wait x s = userP (sem_sem x) s"

definition Sem_Signal :: "Sem \<Rightarrow> 'z Sys_scheme \<Rightarrow> ('z, unit) routine" where
  "Sem_Signal x s = userV (sem_sem x) s"

definition STable_new :: "'z Sys_scheme \<Rightarrow> 'z Sys_scheme res" where
  "STable_new s = bindR (Bitmap_new MAX_SEMAPHORE) (\<lambda>b. Inr (s\<lparr>st_bm := b, st_table := replicate (nat MAX_SEMAPHORE) None\<rparr>))"

definition STable_delete :: "'z Sys_scheme \<Rightarrow> 'z Sys_scheme res" where
  "STable_delete s =
     foldR (\<lambda>i s. bindR (aget (st_table s) (int i)) (\<lambda>x. case x of
         None \<Rightarrow> Inr s
       | Some m \<Rightarrow> bindR (Sem_delete m s) (\<lambda>s. bindR (aset (st_table s) (int i) None) (\<lambda>tb. Inr (s\<lparr>st_table := tb\<rparr>)))))
       [0..<nat MAX_SEMAPHORE] s"

text \<open>The loop that looks for a semaphore by name.\<close>

fun find_sem :: "byte list \<Rightarrow> int list \<Rightarrow> 'z Sys_scheme \<Rightarrow> Sem option res" where
  "find_sem name [] s = Inr None"
| "find_sem name (i # is) s =
     bindR (Bitmap_Test (st_bm s) i) (\<lambda>used.
     if used then
       bindR (aget (st_table s) i) (\<lambda>x. case x of
         None \<Rightarrow> Inl NullDeref
       | Some m \<Rightarrow> bindR (strcmp_eq name (sem_name m)) (\<lambda>eq. if eq then Inr (Some m) else find_sem name is s))
     else find_sem name is s)"

definition STable_find :: "byte list \<Rightarrow> 'z Sys_scheme \<Rightarrow> Sem option res" where
  "STable_find name s = find_sem name (map int [0..<nat MAX_SEMAPHORE]) s"

definition FindFreeSlot :: "'z Sys_scheme \<Rightarrow> (int \<times> 'z Sys_scheme) res" where
  "FindFreeSlot s = bindR (Bitmap_FindAndSet (st_bm s)) (\<lambda>(i, b). Inr (i, s\<lparr>st_bm := b\<rparr>))"

definition STable_Create :: "byte list \<Rightarrow> int \<Rightarrow> 'z Sys_scheme \<Rightarrow> (int \<times> 'z Sys_scheme) res" where
  "STable_Create name v s =
     bindR (STable_find name s) (\<lambda>x. case x of
       Some _ \<Rightarrow> Inr (-1, s)
     | None \<Rightarrow>
         bindR (FindFreeSlot s) (\<lambda>(i, s).
         if i < 0 then Inr (-1, s)
         else bindR (Sem_new name v s) (\<lambda>(m, s).
              bindR (aset (st_table s) i (Some m)) (\<lambda>tb. Inr (0, s\<lparr>st_table := tb\<rparr>)))))"

definition STable_Wait :: "byte list \<Rightarrow> 'z Sys_scheme \<Rightarrow> ('z, int) routine" where
  "STable_Wait name s =
     bindP (asP (STable_find name s) s) (\<lambda>x s. case x of
       None \<Rightarrow> Ret (-1) s
     | Some m \<Rightarrow> bindP (Sem_Wait m s) (\<lambda>_ s. Ret 0 s))"

definition STable_Signal :: "byte list \<Rightarrow> 'z Sys_scheme \<Rightarrow> ('z, int) routine" where
  "STable_Signal name s =
     bindP (asP (STable_find name s) s) (\<lambda>x s. case x of
       None \<Rightarrow> Ret (-1) s
     | Some m \<Rightarrow> bindP (Sem_Signal m s) (\<lambda>_ s. Ret 0 s))"

section \<open>Computation rules\<close>

lemma bindP_asP [simp]: "bindP (asP (Inr x) s) f = f x s" "bindP (asP (Inl e) s) f = Fault e"
  by simp_all

lemma pcb_Some [simp]: "pcb_heap s a = Some b \<Longrightarrow> pcb a s = Inr b"
  by (simp add: pcb_def)

lemma put_pcb_Some [simp]: "pcb_heap s a = Some b \<Longrightarrow> put_pcb a f s = Inr (s\<lparr>pcb_heap := (pcb_heap s)(a \<mapsto> f b)\<rparr>)"
  by (simp add: put_pcb_def)

lemma pcb_ptr_Some: "0 \<le> i \<Longrightarrow> nat i < length (pcbs s) \<Longrightarrow> pcbs s ! nat i = Some a \<Longrightarrow> pcb_ptr i s = Inr a"
  by (simp add: pcb_ptr_def aget_def)

lemma bind_userP [simp]: "semv s k = Some v \<Longrightarrow>
    bindP (userP k s) f = Call (SemP k) s (\<lambda>s'. f () (s'\<lparr>mach := restore_user (mach s) (mach s')\<rparr>))"
  by (simp add: userP_def user_call_def)

lemma bind_userV [simp]: "semv s k = Some v \<Longrightarrow>
    bindP (userV k s) f = Call (SemV k) s (\<lambda>s'. f () (s'\<lparr>mach := restore_user (mach s) (mach s')\<rparr>))"
  by (simp add: userV_def user_call_def)

text \<open>The number of the current process depends only on the table, and on the thread and number in each block.\<close>

definition same_ids :: "'z Sys_scheme \<Rightarrow> 'z Sys_scheme \<Rightarrow> bool" where
  "same_ids s s' \<longleftrightarrow> pcbs s' = pcbs s \<and>
     (\<forall>a. map_option (\<lambda>b. (pcb_thread b, pid b)) (pcb_heap s' a) = map_option (\<lambda>b. (pcb_thread b, pid b)) (pcb_heap s a))"

lemma find_thread_cong: "same_ids s s' \<Longrightarrow> find_thread self xs s' = find_thread self xs s"
proof (induction xs)
  case (Cons i xs)
  have "pcbs s' = pcbs s" using Cons.prems by (simp add: same_ids_def)
  moreover have "bindR (pcb a s') (\<lambda>b. if pcb_thread b = Some self then Inr (pid b) else find_thread self xs s') =
      bindR (pcb a s) (\<lambda>b. if pcb_thread b = Some self then Inr (pid b) else find_thread self xs s)" for a
  proof -
    have "map_option (\<lambda>b. (pcb_thread b, pid b)) (pcb_heap s' a) = map_option (\<lambda>b. (pcb_thread b, pid b)) (pcb_heap s a)"
      using Cons.prems by (simp add: same_ids_def)
    then show ?thesis using Cons by (cases "pcb_heap s' a"; cases "pcb_heap s a") (simp_all add: pcb_def)
  qed
  ultimately show ?case using Cons.IH [OF Cons.prems] by simp
qed simp

lemma GetCurrentThreadId_cong: "same_ids s s' \<Longrightarrow> GetCurrentThreadId self s' = GetCurrentThreadId self s"
  unfolding GetCurrentThreadId_def by (rule find_thread_cong)

section \<open>Join and exit\<close>

text \<open>A parent that joins its child, and the child that exits with code \<open>r_ec\<close>.\<close>

record Meeting =
  par :: nat
  chi :: nat
  pi_no :: int
  ci_no :: int
  r_ec :: int
  pa :: nat
  pb :: nat
  blkA :: PCB
  blkB :: PCB

definition meets :: "Meeting \<Rightarrow> 'z Sys_scheme \<Rightarrow> bool" where
  "meets x s \<longleftrightarrow> par x \<noteq> chi x \<and> pa x \<noteq> pb x \<and> pi_no x \<noteq> ci_no x \<and> length (pcbs s) = 10 \<and>
     0 \<le> pi_no x \<and> pi_no x < 10 \<and> 0 < ci_no x \<and> ci_no x < 10 \<and> pcbs s ! nat (pi_no x) = Some (pa x) \<and> pcbs s ! nat (ci_no x) = Some (pb x) \<and>
     pcb_heap s (pa x) = Some (blkA x) \<and> pcb_heap s (pb x) = Some (blkB x) \<and> pcb_thread (blkB x) = Some (chi x) \<and>
     GetCurrentThreadId (par x) s = Inr (pi_no x) \<and> GetCurrentThreadId (chi x) s = Inr (ci_no x) \<and> parentID (blkB x) = pi_no x \<and>
     semv s (mutex (blkA x)) = Some 1 \<and> semv s (joinsem (blkB x)) = Some 0 \<and> semv s (exitsem (blkB x)) = Some 0 \<and> semv s (mutex (blkB x)) \<noteq> None \<and>
     distinct [mutex (blkA x), joinsem (blkB x), exitsem (blkB x), mutex (blkB x)] \<and> Bitmap_ok (slotManager s) \<and> numBits (slotManager s) = 10"

text \<open>What is left of \<open>JoinUpdate\<close> and \<open>ExitUpdate\<close> after each of their calls.\<close>

definition J12 :: "Meeting \<Rightarrow> 'z Sys_scheme \<Rightarrow> ('z, int) routine" where
  "J12 x s = bindP (asP (bindR (pcb_ptr (ci_no x) s) (\<lambda>a. PCB_GetExitCode a s)) s) (\<lambda>ec s. Ret ec s)"

definition J10 :: "Meeting \<Rightarrow> 'z Sys_scheme \<Rightarrow> ('z, int) routine" where
  "J10 x s = bindP (asP (pcb_ptr (ci_no x) s) s) (\<lambda>a s. bindP (PCB_ExitRelease a s) (\<lambda>_. J12 x))"

definition J8 :: "Meeting \<Rightarrow> 'z Sys_scheme \<Rightarrow> ('z, int) routine" where
  "J8 x s = bindP (asP (put_pcb (pa x) (\<lambda>b. b\<lparr>numwait := numwait b - 1\<rparr>) s) s) (\<lambda>s _. bindP (userV (mutex (blkA x)) s) (\<lambda>_. J10 x))"

definition J6 :: "Meeting \<Rightarrow> 'z Sys_scheme \<Rightarrow> ('z, int) routine" where
  "J6 x s = bindP (asP (pcb_ptr (pi_no x) s) s) (\<lambda>a s. bindP (PCB_DecNumWait a s) (\<lambda>_. J10 x))"

definition J4 :: "Meeting \<Rightarrow> 'z Sys_scheme \<Rightarrow> ('z, int) routine" where
  "J4 x s = bindP (asP (pcb_ptr (ci_no x) s) s) (\<lambda>a s. bindP (PCB_JoinWait a s) (\<lambda>_. J6 x))"

definition J2 :: "Meeting \<Rightarrow> 'z Sys_scheme \<Rightarrow> ('z, int) routine" where
  "J2 x s = bindP (asP (put_pcb (pa x) (\<lambda>b. b\<lparr>numwait := numwait b + 1\<rparr>) s) s) (\<lambda>s _. bindP (userV (mutex (blkA x)) s) (\<lambda>_. J4 x))"

definition X4 :: "Meeting \<Rightarrow> 'z Sys_scheme \<Rightarrow> ('z, int) routine" where
  "X4 x s = bindP (PTable_Remove (chi x) (ci_no x) s) (\<lambda>_ s. Fault NoReturnValue)"

definition X2 :: "Meeting \<Rightarrow> 'z Sys_scheme \<Rightarrow> ('z, int) routine" where
  "X2 x s = bindP (asP (pcb_ptr (ci_no x) s) s) (\<lambda>a s. bindP (PCB_ExitWait a s) (\<lambda>_. X4 x))"

text \<open>
  The parent after \<open>n\<close> of its steps and the child after \<open>m\<close>. An odd number: the thread is about to make a call; an even one: the
  call has taken effect.
\<close>

definition rs :: "Machine \<Rightarrow> 'z Sys_scheme \<Rightarrow> 'z Sys_scheme" where
  "rs m0 s = s\<lparr>mach := restore_user m0 (mach s)\<rparr>"

definition J_op :: "Meeting \<Rightarrow> nat \<Rightarrow> kop" where
  "J_op x k = [SemP (mutex (blkA x)), SemV (mutex (blkA x)), SemP (joinsem (blkB x)), SemP (mutex (blkA x)), SemV (mutex (blkA x)), SemV (exitsem (blkB x))] ! k"

definition J_cont :: "Meeting \<Rightarrow> nat \<Rightarrow> 'z Sys_scheme \<Rightarrow> ('z, int) routine" where
  "J_cont x k = [J2 x, J4 x, J6 x, J8 x, J10 x, J12 x] ! k"

definition X_op :: "Meeting \<Rightarrow> nat \<Rightarrow> kop" where
  "X_op x k = [SemV (joinsem (blkB x)), SemP (exitsem (blkB x)), FinishThread] ! k"

definition X_cont :: "Meeting \<Rightarrow> nat \<Rightarrow> 'z Sys_scheme \<Rightarrow> ('z, int) routine" where
  "X_cont x k = [X2 x, X4 x] ! k"

definition J_at :: "Meeting \<Rightarrow> nat \<Rightarrow> (kop, 'z Sys_scheme, int) tstate \<Rightarrow> bool" where
  "J_at x n ts \<longleftrightarrow> (if n = 0 then ts = Resume (JoinUpdate (par x) (ci_no x)) else if n = 13 then ts = Finished (r_ec x)
     else \<exists>m0. ts = (if odd n then Pending (J_op x (n div 2)) (\<lambda>s. J_cont x (n div 2) (rs m0 s)) else Resume (\<lambda>s. J_cont x (n div 2 - 1) (rs m0 s))))"

definition X_at :: "Meeting \<Rightarrow> nat \<Rightarrow> (kop, 'z Sys_scheme, int) tstate \<Rightarrow> bool" where
  "X_at x m ts \<longleftrightarrow> (if m = 0 then ts = Resume (ExitUpdate (chi x) (r_ec x)) else if m = 5 then \<exists>k. ts = Pending FinishThread k
     else \<exists>m0. ts = (if odd m then Pending (X_op x (m div 2)) (\<lambda>s. X_cont x (m div 2) (rs m0 s)) else Resume (\<lambda>s. X_cont x (m div 2 - 1) (rs m0 s))))"

definition met :: "Meeting \<Rightarrow> nat \<Rightarrow> nat \<Rightarrow> 'z Sys_scheme \<Rightarrow> 'z Sys_scheme \<Rightarrow> bool" where
  "met x n m s0 s \<longleftrightarrow> pcbs s = pcbs s0 \<and> (6 \<le> n \<longrightarrow> 2 \<le> m) \<and> (4 \<le> m \<longrightarrow> 12 \<le> n) \<and>
     (\<forall>a. a \<noteq> pa x \<longrightarrow> a \<noteq> pb x \<longrightarrow> pcb_heap s a = pcb_heap s0 a) \<and>
     pcb_heap s (pa x) = Some ((blkA x)\<lparr>numwait := numwait (blkA x) + (if 3 \<le> n \<and> n < 9 then 1 else 0)\<rparr>) \<and>
     pcb_heap s (pb x) = Some ((blkB x)\<lparr>exitcode := (if 1 \<le> m then r_ec x else exitcode (blkB x)), pcb_file := (if m = 5 then None else pcb_file (blkB x))\<rparr>) \<and>
     semv s (mutex (blkA x)) = Some (if n \<in> {2, 3, 8, 9} then 0 else 1) \<and>
     semv s (joinsem (blkB x)) = (if m = 5 then None else Some ((if 2 \<le> m then 1 else 0) - (if 6 \<le> n then 1 else 0))) \<and>
     semv s (exitsem (blkB x)) = (if m = 5 then None else Some ((if 12 \<le> n then 1 else 0) - (if 4 \<le> m then 1 else 0))) \<and>
     (m < 5 \<longrightarrow> semv s (mutex (blkB x)) \<noteq> None) \<and> (m < 5 \<longrightarrow> Bitmap_ok (slotManager s) \<and> numBits (slotManager s) = 10) \<and>
     (m = 5 \<longrightarrow> ci_no x \<notin> Bitmap_used (slotManager s))"

lemma met_rs [simp]: "met x n m s0 (rs m0 s) = met x n m s0 s"
  by (simp add: met_def rs_def)

lemma met_ids: "meets x s0 \<Longrightarrow> met x n m s0 s \<Longrightarrow> same_ids s0 s"
  unfolding same_ids_def
proof (intro conjI allI)
  assume a: "meets x s0" "met x n m s0 s"
  show "pcbs s = pcbs s0" using a by (simp add: met_def)
  fix p show "map_option (\<lambda>b. (pcb_thread b, pid b)) (pcb_heap s p) = map_option (\<lambda>b. (pcb_thread b, pid b)) (pcb_heap s0 p)"
    using a by (cases "p = pa x"; cases "p = pb x") (simp_all add: meets_def met_def)
qed

lemma met_ptr:
  assumes "meets x s0" "met x n m s0 s"
  shows "pcb_ptr (pi_no x) s = Inr (pa x)" "pcb_ptr (ci_no x) s = Inr (pb x)" "IsExist (ci_no x) s = Inr True"
    "GetCurrentThreadId (par x) s = Inr (pi_no x)" "GetCurrentThreadId (chi x) s = Inr (ci_no x)"
proof -
  have "pcbs s = pcbs s0" using assms(2) by (simp add: met_def)
  then show "pcb_ptr (pi_no x) s = Inr (pa x)" "pcb_ptr (ci_no x) s = Inr (pb x)" "IsExist (ci_no x) s = Inr True"
    using assms(1) by (auto simp: meets_def pcb_ptr_def IsExist_def aget_def MAX_PROCESSES_def nat_less_iff)
  show "GetCurrentThreadId (par x) s = Inr (pi_no x)" "GetCurrentThreadId (chi x) s = Inr (ci_no x)"
    using GetCurrentThreadId_cong [OF met_ids [OF assms]] assms(1) by (simp_all add: meets_def)
qed

lemma met_heap:
  assumes "meets x s0" "met x n m s0 s"
  shows "\<exists>A. pcb_heap s (pa x) = Some A \<and> mutex A = mutex (blkA x)"
    and "\<exists>B. pcb_heap s (pb x) = Some B \<and> joinsem B = joinsem (blkB x) \<and> exitsem B = exitsem (blkB x) \<and> mutex B = mutex (blkB x) \<and>
      parentID B = pi_no x \<and> pcb_thread B = Some (chi x) \<and> exitcode B = (if 1 \<le> m then r_ec x else exitcode (blkB x))"
  using assms by (auto simp: meets_def met_def)

lemmas J_defs = J2_def [abs_def] J4_def [abs_def] J6_def [abs_def] J8_def [abs_def] J10_def [abs_def] J12_def [abs_def]
lemmas PCB_calls = PCB_IncNumWait_def PCB_DecNumWait_def PCB_JoinWait_def PCB_JoinRelease_def PCB_ExitWait_def PCB_ExitRelease_def

lemma J_start:
  assumes "meets x s0" "met x 0 m s0 s"
  shows "JoinUpdate (par x) (ci_no x) s = Call (J_op x 0) s (\<lambda>s'. J_cont x 0 (rs (mach s) s'))"
proof -
  obtain A where A: "pcb_heap s (pa x) = Some A" "mutex A = mutex (blkA x)" using met_heap(1) [OF assms] by blast
  obtain B where B: "pcb_heap s (pb x) = Some B" "parentID B = pi_no x" using met_heap(2) [OF assms] by blast
  have v: "semv s (mutex (blkA x)) = Some 1" and d: "ci_no x \<noteq> pi_no x" using assms by (auto simp: met_def meets_def)
  show ?thesis
    by (simp add: JoinUpdate_def met_ptr [OF assms] A B v d PCB_IncNumWait_def bindP_assoc J_op_def J_cont_def J_defs rs_def [symmetric] A(2))
qed


lemma J_next:
  assumes x: "meets x s0"
  shows "met x 2 m s0 s \<Longrightarrow> \<exists>s'. J2 x s = Call (J_op x 1) s' (\<lambda>s''. J_cont x 1 (rs (mach s') s'')) \<and> met x 3 m s0 s'"
    and "met x 4 m s0 s \<Longrightarrow> \<exists>s'. J4 x s = Call (J_op x 2) s' (\<lambda>s''. J_cont x 2 (rs (mach s') s'')) \<and> met x 5 m s0 s'"
    and "met x 6 m s0 s \<Longrightarrow> \<exists>s'. J6 x s = Call (J_op x 3) s' (\<lambda>s''. J_cont x 3 (rs (mach s') s'')) \<and> met x 7 m s0 s'"
    and "met x 8 m s0 s \<Longrightarrow> \<exists>s'. J8 x s = Call (J_op x 4) s' (\<lambda>s''. J_cont x 4 (rs (mach s') s'')) \<and> met x 9 m s0 s'"
    and "met x 10 m s0 s \<Longrightarrow> \<exists>s'. J10 x s = Call (J_op x 5) s' (\<lambda>s''. J_cont x 5 (rs (mach s') s'')) \<and> met x 11 m s0 s'"
    and "met x 12 m s0 s \<Longrightarrow> J12 x s = Ret (r_ec x) s \<and> met x 13 m s0 s"
proof -
  have ne: "pa x \<noteq> pb x" using x by (simp add: meets_def)
  {
    assume a: "met x 2 m s0 s"
    let ?s = "s\<lparr>pcb_heap := (pcb_heap s)(pa x \<mapsto> (blkA x)\<lparr>numwait := numwait (blkA x) + 1\<rparr>)\<rparr>"
    have A: "pcb_heap s (pa x) = Some (blkA x)" and v: "semv s (mutex (blkA x)) = Some 0" using a ne by (simp_all add: met_def)
    have "J2 x s = Call (J_op x 1) ?s (\<lambda>s''. J_cont x 1 (rs (mach ?s) s''))"
      using v by (simp add: J2_def A J_op_def J_cont_def rs_def [symmetric])
    moreover have "met x 3 m s0 ?s" using a ne by (simp add: met_def)
    ultimately show "\<exists>s'. J2 x s = Call (J_op x 1) s' (\<lambda>s''. J_cont x 1 (rs (mach s') s'')) \<and> met x 3 m s0 s'" by blast
  next
    assume a: "met x 4 m s0 s"
    obtain B where B: "pcb_heap s (pb x) = Some B" "joinsem B = joinsem (blkB x)" using met_heap(2) [OF x a] by blast
    obtain v where v: "semv s (joinsem (blkB x)) = Some v" using a by (auto simp: met_def split: if_splits)
    show "\<exists>s'. J4 x s = Call (J_op x 2) s' (\<lambda>s''. J_cont x 2 (rs (mach s') s'')) \<and> met x 5 m s0 s'"
      using a v by (intro exI [of _ s] conjI) (simp add: J4_def met_ptr [OF x a] B PCB_JoinWait_def J_op_def J_cont_def rs_def [symmetric], auto simp: met_def)
  next
    assume a: "met x 6 m s0 s"
    obtain A where A: "pcb_heap s (pa x) = Some A" "mutex A = mutex (blkA x)" using met_heap(1) [OF x a] by blast
    have v: "semv s (mutex (blkA x)) = Some 1" using a by (simp add: met_def)
    show "\<exists>s'. J6 x s = Call (J_op x 3) s' (\<lambda>s''. J_cont x 3 (rs (mach s') s'')) \<and> met x 7 m s0 s'"
      using a v by (intro exI [of _ s] conjI)
        (simp add: J6_def met_ptr [OF x a] A PCB_DecNumWait_def bindP_assoc J_op_def J_cont_def J_defs rs_def [symmetric], auto simp: met_def)
  next
    assume a: "met x 8 m s0 s"
    let ?s = "s\<lparr>pcb_heap := (pcb_heap s)(pa x \<mapsto> blkA x)\<rparr>"
    have A: "pcb_heap s (pa x) = Some ((blkA x)\<lparr>numwait := numwait (blkA x) + 1\<rparr>)" and v: "semv s (mutex (blkA x)) = Some 0"
      using a ne by (simp_all add: met_def)
    have "J8 x s = Call (J_op x 4) ?s (\<lambda>s''. J_cont x 4 (rs (mach ?s) s''))"
      using v by (simp add: J8_def A J_op_def J_cont_def rs_def [symmetric])
    moreover have "met x 9 m s0 ?s" using a ne by (simp add: met_def)
    ultimately show "\<exists>s'. J8 x s = Call (J_op x 4) s' (\<lambda>s''. J_cont x 4 (rs (mach s') s'')) \<and> met x 9 m s0 s'" by blast
  next
    assume a: "met x 10 m s0 s"
    obtain B where B: "pcb_heap s (pb x) = Some B" "exitsem B = exitsem (blkB x)" using met_heap(2) [OF x a] by blast
    obtain v where v: "semv s (exitsem (blkB x)) = Some v" using a by (auto simp: met_def split: if_splits)
    show "\<exists>s'. J10 x s = Call (J_op x 5) s' (\<lambda>s''. J_cont x 5 (rs (mach s') s'')) \<and> met x 11 m s0 s'"
      using a v by (intro exI [of _ s] conjI) (simp add: J10_def met_ptr [OF x a] B PCB_ExitRelease_def J_op_def J_cont_def rs_def [symmetric], auto simp: met_def)
  next
    assume a: "met x 12 m s0 s"
    obtain B where B: "pcb_heap s (pb x) = Some B" "exitcode B = r_ec x" using met_heap(2) [OF x a] a by (auto simp: met_def)
    show "J12 x s = Ret (r_ec x) s \<and> met x 13 m s0 s" using a by (simp add: J12_def met_ptr [OF x a] PCB_GetExitCode_def B) (simp add: met_def)
  }
qed

lemma X_start:
  assumes x: "meets x s0" and a: "met x n 0 s0 s"
  shows "\<exists>s'. ExitUpdate (chi x) (r_ec x) s = Call (X_op x 0) s' (\<lambda>s''. X_cont x 0 (rs (mach s') s'')) \<and> met x n 1 s0 s'"
proof -
  have ne: "pa x \<noteq> pb x" "ci_no x \<noteq> 0" using x by (simp_all add: meets_def)
  let ?B = "(blkB x)\<lparr>exitcode := r_ec x\<rparr>"
  let ?s = "s\<lparr>pcb_heap := (pcb_heap s)(pb x \<mapsto> ?B)\<rparr>"
  have B: "pcb_heap s (pb x) = Some (blkB x)" and v: "semv s (joinsem (blkB x)) = Some 0" using a by (auto simp: met_def)
  have m: "met x n 1 s0 ?s" using a ne by (simp add: met_def)
  have "ExitUpdate (chi x) (r_ec x) s = Call (X_op x 0) ?s (\<lambda>s''. X_cont x 0 (rs (mach ?s) s''))"
    using v ne by (simp add: ExitUpdate_def met_ptr [OF x a] met_ptr [OF x m] B PCB_SetExitCode_def PCB_JoinRelease_def bindP_assoc X_op_def X_cont_def
      X2_def [abs_def] X4_def [abs_def] rs_def [symmetric])
  with m show ?thesis by blast
qed

lemma X_wait:
  assumes x: "meets x s0" and a: "met x n 2 s0 s"
  shows "X2 x s = Call (X_op x 1) s (\<lambda>s''. X_cont x 1 (rs (mach s) s'')) \<and> met x n 3 s0 s"
proof -
  obtain B where B: "pcb_heap s (pb x) = Some B" "exitsem B = exitsem (blkB x)" using met_heap(2) [OF x a] by blast
  obtain v where v: "semv s (exitsem (blkB x)) = Some v" using a by (auto simp: met_def)
  have "X2 x s = Call (X_op x 1) s (\<lambda>s''. X_cont x 1 (rs (mach s) s''))"
    using v by (simp add: X2_def met_ptr [OF x a] B PCB_ExitWait_def X_op_def X_cont_def rs_def [symmetric])
  moreover have "met x n 3 s0 s" using a by (simp add: met_def)
  ultimately show ?thesis ..
qed

lemma X_end:
  assumes x: "meets x s0" and a: "met x n 4 s0 s"
  shows "\<exists>s' k. X4 x s = Call FinishThread s' k \<and> met x n 5 s0 s'"
proof -
  have ne: "pa x \<noteq> pb x" "0 \<le> ci_no x" "ci_no x < 10" and d: "distinct [mutex (blkA x), joinsem (blkB x), exitsem (blkB x), mutex (blkB x)]"
      and th: "pcb_thread (blkB x) = Some (chi x)" using x by (simp_all add: meets_def)
  have B: "pcb_heap s (pb x) = Some ((blkB x)\<lparr>exitcode := r_ec x\<rparr>)" and sl: "Bitmap_ok (slotManager s)" "numBits (slotManager s) = 10"
      and v: "semv s (joinsem (blkB x)) \<noteq> None" "semv s (exitsem (blkB x)) \<noteq> None" "semv s (mutex (blkB x)) \<noteq> None" using a by (auto simp: met_def)
  obtain b where b: "Bitmap_Clear (slotManager s) (ci_no x) = Inr b" "ci_no x \<notin> Bitmap_used b" using bm.clear_law [OF sl(1) ne(2)] ne(3) sl(2) by auto
  let ?s1 = "s\<lparr>numProcesses := numProcesses s - 1, slotManager := b\<rparr>"
  let ?s2 = "?s1\<lparr>pcb_heap := (pcb_heap s)(pb x \<mapsto> (blkB x)\<lparr>exitcode := r_ec x, pcb_file := None\<rparr>),
    semv := (semv s)(joinsem (blkB x) := None, exitsem (blkB x) := None, mutex (blkB x) := None)\<rparr>"
  have p: "pcb_ptr (ci_no x) ?s1 = Inr (pb x)" using met_ptr(2) [OF x a] by (simp add: pcb_ptr_def)
  have "PCB_delete (chi x) (pb x) ?s1 = Call FinishThread ?s2 (\<lambda>s. Fault AssertFailed)"
    using v d th by (simp add: PCB_delete_def B del_sem_def)
  then have "X4 x s = Call FinishThread ?s2 (\<lambda>s. Fault AssertFailed)"
    using b p by (simp add: X4_def PTable_Remove_def met_ptr [OF x a])
  moreover have "met x n 5 s0 ?s2"
  proof -
    define A where "A = mutex (blkA x)"
    define B1 B2 B3 where "B1 = joinsem (blkB x)" and "B2 = exitsem (blkB x)" and "B3 = mutex (blkB x)"
    have dd: "A \<noteq> B1" "A \<noteq> B2" "A \<noteq> B3" "B1 \<noteq> B2" "B1 \<noteq> B3" "B2 \<noteq> B3" using d by (auto simp: A_def B1_def B2_def B3_def)
    have "12 \<le> n" using a by (simp add: met_def)
    then show ?thesis using a ne(1) b(2) unfolding met_def A_def [symmetric] B1_def [symmetric] B2_def [symmetric] B3_def [symmetric]
      by (simp add: dd)
  qed
  ultimately show ?thesis by blast
qed

lemma six_steps: "odd n \<Longrightarrow> n < 13 \<Longrightarrow> n = 1 \<or> n = 3 \<or> n = 5 \<or> n = 7 \<or> n = 9 \<or> n = (11 :: nat)"
  by presburger

lemma keff_P: "keff (SemP k) s = Some s' \<longleftrightarrow> (\<exists>v. semv s k = Some v \<and> v \<noteq> 0 \<and> s' = s\<lparr>semv := (semv s)(k \<mapsto> v - 1)\<rparr>)"
  by (auto simp: keff_def split: option.splits if_splits)

lemma keff_V: "keff (SemV k) s = Some s' \<longleftrightarrow> (\<exists>v. semv s k = Some v \<and> s' = s\<lparr>semv := (semv s)(k \<mapsto> v + 1)\<rparr>)"
  by (auto simp: keff_def split: option.splits)

lemma J_effect:
  assumes x: "meets x s0" and a: "met x n m s0 s" and n: "odd n" "n < 13" and m: "m \<le> 5" and e: "keff (J_op x (n div 2)) s = Some s'"
  shows "met x (Suc n) m s0 s'"
proof -
  define A where "A = mutex (blkA x)"
  define B1 B2 B3 where "B1 = joinsem (blkB x)" and "B2 = exitsem (blkB x)" and "B3 = mutex (blkB x)"
  have dd: "A \<noteq> B1" "A \<noteq> B2" "A \<noteq> B3" "B1 \<noteq> B2" "B1 \<noteq> B3" "B2 \<noteq> B3"
    using x by (auto simp: meets_def A_def B1_def B2_def B3_def)
  note ab = A_def [symmetric] B1_def [symmetric] B2_def [symmetric] B3_def [symmetric]
  note un = met_def ab
  have op: "J_op x 0 = SemP A" "J_op x (Suc 0) = SemV A" "J_op x 2 = SemP B1" "J_op x 3 = SemP A" "J_op x 4 = SemV A" "J_op x 5 = SemV B2"
    by (simp_all add: J_op_def ab)
  show ?thesis using six_steps [OF n]
  proof (elim disjE)
    assume n: "n = 1"
    have "s' = s\<lparr>semv := (semv s)(A \<mapsto> 0)\<rparr>" using e a unfolding n un by (simp add: op keff_P)
    then show ?thesis using a unfolding n un by (simp add: dd dd [symmetric])
  next
    assume n: "n = 3"
    have "s' = s\<lparr>semv := (semv s)(A \<mapsto> 1)\<rparr>" using e a unfolding n un by (simp add: op keff_V)
    then show ?thesis using a unfolding n un by (simp add: dd dd [symmetric])
  next
    assume n: "n = 5"
    have v: "semv s B1 = (if m = 5 then None else Some (if 2 \<le> m then 1 else 0))" using a unfolding n un by simp
    have "keff (SemP B1) s = Some s'" using e unfolding n by (simp add: op)
    then obtain v' where v': "semv s B1 = Some v'" "v' \<noteq> 0" "s' = s\<lparr>semv := (semv s)(B1 \<mapsto> v' - 1)\<rparr>" unfolding keff_P by blast
    then have "2 \<le> m" "v' = 1" using v by (simp_all split: if_splits)
    then have "2 \<le> m" "s' = s\<lparr>semv := (semv s)(B1 \<mapsto> 0)\<rparr>" using v'(3) by simp_all
    moreover have "m < 4" using a unfolding n un by simp
    ultimately show ?thesis using a unfolding n un by (simp add: dd dd [symmetric])
  next
    assume n: "n = 7"
    have "s' = s\<lparr>semv := (semv s)(A \<mapsto> 0)\<rparr>" using e a unfolding n un by (simp add: op keff_P)
    then show ?thesis using a unfolding n un by (simp add: dd dd [symmetric])
  next
    assume n: "n = 9"
    have "s' = s\<lparr>semv := (semv s)(A \<mapsto> 1)\<rparr>" using e a unfolding n un by (simp add: op keff_V)
    then show ?thesis using a unfolding n un by (simp add: dd dd [symmetric])
  next
    assume n: "n = 11"
    have v: "m < 4" "semv s B2 = Some 0" using a unfolding n un by auto
    then have "s' = s\<lparr>semv := (semv s)(B2 \<mapsto> 1)\<rparr>" using e unfolding n by (simp add: op keff_V)
    then show ?thesis using a v(1) unfolding n un by (simp add: dd dd [symmetric])
  qed
qed

lemma X_effect:
  assumes x: "meets x s0" and a: "met x n m s0 s" and m: "m = 1 \<or> m = 3" and e: "keff (X_op x (m div 2)) s = Some s'"
  shows "met x n (Suc m) s0 s'"
proof -
  define A where "A = mutex (blkA x)"
  define B1 B2 B3 where "B1 = joinsem (blkB x)" and "B2 = exitsem (blkB x)" and "B3 = mutex (blkB x)"
  have dd: "A \<noteq> B1" "A \<noteq> B2" "A \<noteq> B3" "B1 \<noteq> B2" "B1 \<noteq> B3" "B2 \<noteq> B3"
    using x by (auto simp: meets_def A_def B1_def B2_def B3_def)
  note ab = A_def [symmetric] B1_def [symmetric] B2_def [symmetric] B3_def [symmetric]
  note un = met_def ab
  have op: "X_op x 0 = SemV B1" "X_op x (Suc 0) = SemP B2" by (simp_all add: X_op_def ab)
  show ?thesis using m
  proof
    assume m: "m = 1"
    have v: "\<not> 6 \<le> n" "semv s B1 = Some 0" using a unfolding m un by auto
    then have "s' = s\<lparr>semv := (semv s)(B1 \<mapsto> 1)\<rparr>" using e unfolding m by (simp add: op keff_V)
    then show ?thesis using a v(1) unfolding m un by (simp add: dd dd [symmetric] numeral_2_eq_2)
  next
    assume m: "m = 3"
    have v: "semv s B2 = Some (if 12 \<le> n then 1 else 0)" using a unfolding m un by auto
    have "keff (SemP B2) s = Some s'" using e unfolding m by (simp add: op)
    then obtain v' where v': "semv s B2 = Some v'" "v' \<noteq> 0" "s' = s\<lparr>semv := (semv s)(B2 \<mapsto> v' - 1)\<rparr>" unfolding keff_P by blast
    then have n: "12 \<le> n" "v' = 1" using v by (simp_all split: if_splits)
    then have "s' = s\<lparr>semv := (semv s)(B2 \<mapsto> 0)\<rparr>" using v'(3) by simp
    with n(1) show ?thesis using a unfolding m un by (simp add: dd dd [symmetric])
  qed
qed

text \<open>The whole configuration, and one step of it.\<close>

definition conf :: "Meeting \<Rightarrow> nat \<Rightarrow> nat \<Rightarrow> 'z Sys_scheme \<Rightarrow> 'z Sys_scheme \<times> (nat \<Rightarrow> (kop, 'z Sys_scheme, int) tstate) \<Rightarrow> bool" where
  "conf x n m s0 c \<longleftrightarrow> n \<le> 13 \<and> m \<le> 5 \<and> met x n m s0 (fst c) \<and> J_at x n (snd c (par x)) \<and> X_at x m (snd c (chi x)) \<and>
     (\<forall>t. t \<noteq> par x \<longrightarrow> t \<noteq> chi x \<longrightarrow> snd c t = Finished 0)"

lemma J_go:
  assumes x: "meets x s0" and a: "met x n m s0 s" and j: "J_at x n (Resume k)" and n: "n \<le> 13" and st: "settle s (k s) = (s', ts)"
  shows "n \<le> 12 \<and> met x (Suc n) m s0 s' \<and> J_at x (Suc n) ts"
proof -
  have "even n" "n \<noteq> 13" using j n by (auto simp: J_at_def split: if_splits)
  then have "n = 0 \<or> n = 2 \<or> n = 4 \<or> n = 6 \<or> n = 8 \<or> n = 10 \<or> n = 12" using n by presburger
  then consider "n = 0" | k' where "k' < 6" "n = 2 * k' + 2" by (elim disjE) (auto intro: that(2) [of 0] that(2) [of 1] that(2) [of 2] that(2) [of 3] that(2) [of 4] that(2) [of 5])
  then show ?thesis
  proof cases
    case 1
    then have k: "k = JoinUpdate (par x) (ci_no x)" using j by (simp add: J_at_def)
    show ?thesis using st J_start [OF x a [unfolded 1]] a unfolding k 1 by (auto simp: J_at_def met_def)
  next
    case 2
    obtain m0 where k: "k = (\<lambda>s. J_cont x k' (rs m0 s))" using j 2 by (auto simp: J_at_def)
    have "k' = 0 \<or> k' = 1 \<or> k' = 2 \<or> k' = 3 \<or> k' = 4 \<or> k' = 5" using 2(1) by presburger
    then show ?thesis
    proof (elim disjE)
      assume k0: "k' = 0"
      then have n0: "n = 2" using 2(2) by simp
      then have "met x 2 m s0 (rs m0 s)" using a by simp
      then obtain s1 where s1: "J_cont x 0 (rs m0 s) = Call (J_op x 1) s1 (\<lambda>s''. J_cont x 1 (rs (mach s1) s''))" "met x 3 m s0 s1"
        using J_next(1) [OF x, of m "rs m0 s"] by (auto simp: J_cont_def)
      then have "s' = s1" "ts = Pending (J_op x 1) (\<lambda>s''. J_cont x 1 (rs (mach s1) s''))" using st unfolding k k0 by auto
      then show ?thesis using s1(2) unfolding n0 by (auto simp: J_at_def)
    next
      assume k0: "k' = 1"
      then have n0: "n = 4" using 2(2) by simp
      then have "met x 4 m s0 (rs m0 s)" using a by simp
      then obtain s1 where s1: "J_cont x 1 (rs m0 s) = Call (J_op x 2) s1 (\<lambda>s''. J_cont x 2 (rs (mach s1) s''))" "met x 5 m s0 s1"
        using J_next(2) [OF x, of m "rs m0 s"] by (auto simp: J_cont_def)
      then have "s' = s1" "ts = Pending (J_op x 2) (\<lambda>s''. J_cont x 2 (rs (mach s1) s''))" using st unfolding k k0 by auto
      then show ?thesis using s1(2) unfolding n0 by (auto simp: J_at_def)
    next
      assume k0: "k' = 2"
      then have n0: "n = 6" using 2(2) by simp
      then have "met x 6 m s0 (rs m0 s)" using a by simp
      then obtain s1 where s1: "J_cont x 2 (rs m0 s) = Call (J_op x 3) s1 (\<lambda>s''. J_cont x 3 (rs (mach s1) s''))" "met x 7 m s0 s1"
        using J_next(3) [OF x, of m "rs m0 s"] by (auto simp: J_cont_def)
      then have "s' = s1" "ts = Pending (J_op x 3) (\<lambda>s''. J_cont x 3 (rs (mach s1) s''))" using st unfolding k k0 by auto
      then show ?thesis using s1(2) unfolding n0 by (auto simp: J_at_def)
    next
      assume k0: "k' = 3"
      then have n0: "n = 8" using 2(2) by simp
      then have "met x 8 m s0 (rs m0 s)" using a by simp
      then obtain s1 where s1: "J_cont x 3 (rs m0 s) = Call (J_op x 4) s1 (\<lambda>s''. J_cont x 4 (rs (mach s1) s''))" "met x 9 m s0 s1"
        using J_next(4) [OF x, of m "rs m0 s"] by (auto simp: J_cont_def)
      then have "s' = s1" "ts = Pending (J_op x 4) (\<lambda>s''. J_cont x 4 (rs (mach s1) s''))" using st unfolding k k0 by auto
      then show ?thesis using s1(2) unfolding n0 by (auto simp: J_at_def)
    next
      assume k0: "k' = 4"
      then have n0: "n = 10" using 2(2) by simp
      then have "met x 10 m s0 (rs m0 s)" using a by simp
      then obtain s1 where s1: "J_cont x 4 (rs m0 s) = Call (J_op x 5) s1 (\<lambda>s''. J_cont x 5 (rs (mach s1) s''))" "met x 11 m s0 s1"
        using J_next(5) [OF x, of m "rs m0 s"] by (auto simp: J_cont_def)
      then have "s' = s1" "ts = Pending (J_op x 5) (\<lambda>s''. J_cont x 5 (rs (mach s1) s''))" using st unfolding k k0 by auto
      then show ?thesis using s1(2) unfolding n0 by (auto simp: J_at_def)
    next
      assume k0: "k' = 5"
      then have n0: "n = 12" using 2(2) by simp
      then have "met x 12 m s0 (rs m0 s)" using a by simp
      then have "J12 x (rs m0 s) = Ret (r_ec x) (rs m0 s)" "met x 13 m s0 (rs m0 s)" using J_next(6) [OF x, of m "rs m0 s"] by simp_all
      then show ?thesis using st unfolding k n0 k0 by (auto simp: J_at_def J_cont_def)
    qed
  qed
qed

lemma X_go:
  assumes x: "meets x s0" and a: "met x n m s0 s" and j: "X_at x m (Resume k)" and m: "m \<le> 5" and st: "settle s (k s) = (s', ts)"
  shows "m \<le> 4 \<and> met x n (Suc m) s0 s' \<and> X_at x (Suc m) ts"
proof -
  have "even m" "m \<noteq> 5" using j m by (auto simp: X_at_def split: if_splits)
  then have "m = 0 \<or> m = 2 \<or> m = 4" using m by presburger
  then show ?thesis
  proof (elim disjE)
    assume m0: "m = 0"
    then have k: "k = ExitUpdate (chi x) (r_ec x)" using j by (simp add: X_at_def)
    obtain s1 where s1: "ExitUpdate (chi x) (r_ec x) s = Call (X_op x 0) s1 (\<lambda>s''. X_cont x 0 (rs (mach s1) s''))" "met x n 1 s0 s1"
      using X_start [OF x a [unfolded m0]] by blast
    then have "s' = s1" "ts = Pending (X_op x 0) (\<lambda>s''. X_cont x 0 (rs (mach s1) s''))" using st unfolding k by auto
    then show ?thesis using s1(2) unfolding m0 by (auto simp: X_at_def)
  next
    assume m0: "m = 2"
    obtain m1 where k: "k = (\<lambda>s. X_cont x 0 (rs m1 s))" using j unfolding m0 by (auto simp: X_at_def)
    have "X2 x (rs m1 s) = Call (X_op x 1) (rs m1 s) (\<lambda>s''. X_cont x 1 (rs (mach (rs m1 s)) s''))" "met x n 3 s0 (rs m1 s)"
      using X_wait [OF x, of n "rs m1 s"] a unfolding m0 by simp_all
    then have "met x n 3 s0 s'" "ts = Pending (X_op x 1) (\<lambda>s''. X_cont x 1 (rs (mach (rs m1 s)) s''))" using st unfolding k by (auto simp: X_cont_def)
    then show ?thesis unfolding m0 by (auto simp: X_at_def)
  next
    assume m0: "m = 4"
    obtain m1 where k: "k = (\<lambda>s. X_cont x 1 (rs m1 s))" using j unfolding m0 by (auto simp: X_at_def)
    obtain s1 k1 where "X4 x (rs m1 s) = Call FinishThread s1 k1" "met x n 5 s0 s1" using X_end [OF x, of n "rs m1 s"] a unfolding m0 by auto
    then show ?thesis using st unfolding k m0 by (auto simp: X_cont_def X_at_def)
  qed
qed

lemma J_at_cases:
  assumes "J_at x n ts" "n \<le> 13"
  obtains (res) k where "ts = Resume k" "n \<le> 12" | (pend) k where "ts = Pending (J_op x (n div 2)) k" "odd n" "n < 13" "J_at x (Suc n) (Resume k)"
    | (fin) "n = 13" "ts = Finished (r_ec x)"
proof (cases "odd n \<and> n \<noteq> 13")
  case True
  then obtain m0 where "ts = Pending (J_op x (n div 2)) (\<lambda>s. J_cont x (n div 2) (rs m0 s))" using assms True by (auto simp: J_at_def split: if_splits)
  moreover have "J_at x (Suc n) (Resume (\<lambda>s. J_cont x (n div 2) (rs m0 s)))" using True by (auto simp: J_at_def)
  ultimately show ?thesis using pend True assms(2) by auto
next
  case False
  then show ?thesis using assms that(1,3) by (auto simp: J_at_def split: if_splits)
qed

lemma X_at_cases:
  assumes "X_at x m ts" "m \<le> 5"
  obtains (res) k where "ts = Resume k" "m \<le> 4" | (pend) k where "ts = Pending (X_op x (m div 2)) k" "m = 1 \<or> m = 3" "X_at x (Suc m) (Resume k)"
    | (fin) k where "m = 5" "ts = Pending FinishThread k"
proof (cases "odd m \<and> m \<noteq> 5")
  case True
  then have "m = 1 \<or> m = 3" using assms(2) by presburger
  moreover obtain m0 where "ts = Pending (X_op x (m div 2)) (\<lambda>s. X_cont x (m div 2) (rs m0 s))" using assms True by (auto simp: X_at_def split: if_splits)
  moreover have "X_at x (Suc m) (Resume (\<lambda>s. X_cont x (m div 2) (rs m0 s)))" using True by (auto simp: X_at_def)
  ultimately show ?thesis using pend by blast
next
  case False
  then show ?thesis using assms that(1,3) by (auto simp: X_at_def split: if_splits)
qed

lemma conf_par:
  assumes c: "conf x n m s0 (s, P)" and ne: "par x \<noteq> chi x" and "n \<le> 12" "met x (Suc n) m s0 s'" "J_at x (Suc n) ts"
  shows "conf x (Suc n) m s0 (s', P(par x := ts))"
  using assms by (simp add: conf_def)

lemma conf_chi:
  assumes c: "conf x n m s0 (s, P)" and ne: "par x \<noteq> chi x" and "m \<le> 4" "met x n (Suc m) s0 s'" "X_at x (Suc m) ts"
  shows "conf x n (Suc m) s0 (s', P(chi x := ts))"
  using assms by (simp add: conf_def)

lemma conf_step:
  assumes x: "meets x s0" and c: "conf x n m s0 (s, P)" and st: "pstep keff (s, P) c'"
  shows "conf x (Suc n) m s0 c' \<or> conf x n (Suc m) s0 c'"
proof -
  have ne: "par x \<noteq> chi x" using x by (simp add: meets_def)
  have a: "n \<le> 13" "m \<le> 5" "met x n m s0 s" "J_at x n (P (par x))" "X_at x m (P (chi x))"
    and fin: "\<And>t. t \<noteq> par x \<Longrightarrow> t \<noteq> chi x \<Longrightarrow> P t = Finished 0" using c by (auto simp: conf_def)
  from st show ?thesis
  proof cases
    case (take_effect t c k s')
    then have t: "t = par x \<or> t = chi x" using fin by fastforce
    then show ?thesis
    proof
      assume t: "t = par x"
      from a(4,1) show ?thesis
      proof (cases rule: J_at_cases)
        case (pend k')
        then have "met x (Suc n) m s0 s'" using J_effect [OF x a(3) pend(2,3) a(2)] take_effect t by simp
        then show ?thesis using conf_par [OF c ne] pend take_effect t by simp
      qed (use take_effect t in simp_all)
    next
      assume t: "t = chi x"
      from a(5,2) show ?thesis
      proof (cases rule: X_at_cases)
        case (pend k')
        then have "met x n (Suc m) s0 s'" using X_effect [OF x a(3) pend(2)] take_effect t by simp
        then show ?thesis using conf_chi [OF c ne] pend take_effect t by auto
      qed (use take_effect t in \<open>simp_all add: keff_def\<close>)
    qed
  next
    case (go_on t k s' ts)
    then have t: "t = par x \<or> t = chi x" using fin by fastforce
    then show ?thesis
    proof
      assume t: "t = par x"
      then have "J_at x n (Resume k)" using a(4) go_on by simp
      from J_go [OF x a(3) this a(1)] go_on have "n \<le> 12 \<and> met x (Suc n) m s0 s' \<and> J_at x (Suc n) ts" by blast
      then show ?thesis using conf_par [OF c ne] go_on t by blast
    next
      assume t: "t = chi x"
      then have "X_at x m (Resume k)" using a(5) go_on by simp
      from X_go [OF x a(3) this a(2)] go_on have "m \<le> 4 \<and> met x n (Suc m) s0 s' \<and> X_at x (Suc m) ts" by blast
      then show ?thesis using conf_chi [OF c ne] go_on t by blast
    qed
  qed
qed

definition join_threads :: "Meeting \<Rightarrow> nat \<Rightarrow> (kop, 'z Sys_scheme, int) tstate" where
  "join_threads x = (\<lambda>_. Finished 0)(par x := Resume (JoinUpdate (par x) (ci_no x)), chi x := Resume (ExitUpdate (chi x) (r_ec x)))"

lemma conf_start: "meets x s0 \<Longrightarrow> conf x 0 0 s0 (s0, join_threads x)"
  by (simp add: conf_def join_threads_def J_at_def X_at_def met_def meets_def)

lemma conf_run:
  assumes "meets x s0" "(pstep keff ^^ i) (s0, join_threads x) c"
  shows "\<exists>n m. n + m = i \<and> conf x n m s0 c"
  using assms(2)
proof (induction i arbitrary: c)
  case 0
  then show ?case using conf_start [OF assms(1)] by auto
next
  case (Suc i)
  then obtain c1 where c1: "(pstep keff ^^ i) (s0, join_threads x) c1" "pstep keff c1 c" by auto
  then obtain n m where nm: "n + m = i" "conf x n m s0 c1" using Suc.IH by blast
  obtain s P where "c1 = (s, P)" by (cases c1)
  then have "conf x (Suc n) m s0 c \<or> conf x n (Suc m) s0 c" using conf_step [OF assms(1)] nm(2) c1(2) by blast
  then show ?case
  proof
    assume "conf x (Suc n) m s0 c"
    then show ?thesis using nm(1) by (intro exI [of _ "Suc n"] exI [of _ m]) simp
  next
    assume "conf x n (Suc m) s0 c"
    then show ?thesis using nm(1) by (intro exI [of _ n] exI [of _ "Suc m"]) simp
  qed
qed

text \<open>As long as one of the two is not through, one of them can go on.\<close>

lemma J_enabled:
  assumes "met x n m s0 s" "odd n" "n < 13" "m \<le> 5" "n = 5 \<longrightarrow> 2 \<le> m"
  shows "\<exists>s'. keff (J_op x (n div 2)) s = Some s'"
proof -
  have op: "J_op x 0 = SemP (mutex (blkA x))" "J_op x (Suc 0) = SemV (mutex (blkA x))" "J_op x 2 = SemP (joinsem (blkB x))" "J_op x 3 = SemP (mutex (blkA x))"
      "J_op x 4 = SemV (mutex (blkA x))" "J_op x 5 = SemV (exitsem (blkB x))" by (simp_all add: J_op_def)
  have a: "4 \<le> m \<longrightarrow> 12 \<le> n" "semv s (mutex (blkA x)) = Some (if n \<in> {2, 3, 8, 9} then 0 else 1)"
      "semv s (joinsem (blkB x)) = (if m = 5 then None else Some ((if 2 \<le> m then 1 else 0) - (if 6 \<le> n then 1 else 0)))"
      "semv s (exitsem (blkB x)) = (if m = 5 then None else Some ((if 12 \<le> n then 1 else 0) - (if 4 \<le> m then 1 else 0)))"
    using assms(1) unfolding met_def by blast+
  show ?thesis using six_steps [OF assms(2,3)] a assms(5) by (elim disjE; simp add: op keff_def)
qed

lemma conf_progress:
  assumes x: "meets x s0" and c: "conf x n m s0 (s, P)" and "\<not> (n = 13 \<and> m = 5)"
  shows "\<exists>c'. pstep keff (s, P) c'"
proof -
  have a: "n \<le> 13" "m \<le> 5" "met x n m s0 s" "J_at x n (P (par x))" "X_at x m (P (chi x))" using c by (auto simp: conf_def)
  have go: "P t = Resume k \<Longrightarrow> ?thesis" for t k using pstep.go_on [of P t k s] by (metis surj_pair)
  have ef: "P t = Pending op k \<Longrightarrow> keff op s = Some s' \<Longrightarrow> ?thesis" for t op k s' using pstep.take_effect [of P t op k keff s s'] by blast
  have child: ?thesis if "m \<le> 4" "n = 13 \<or> m < 2"
    using a(5,2)
  proof (cases rule: X_at_cases)
    case (pend k)
    have a': "4 \<le> m \<longrightarrow> 12 \<le> n" "6 \<le> n \<longrightarrow> 2 \<le> m" "semv s (joinsem (blkB x)) = (if m = 5 then None else Some ((if 2 \<le> m then 1 else 0) - (if 6 \<le> n then 1 else 0)))"
        "semv s (exitsem (blkB x)) = (if m = 5 then None else Some ((if 12 \<le> n then 1 else 0) - (if 4 \<le> m then 1 else 0)))"
      using a(3) unfolding met_def by blast+
    have op: "X_op x 0 = SemV (joinsem (blkB x))" "X_op x (Suc 0) = SemP (exitsem (blkB x))" by (simp_all add: X_op_def)
    have "\<exists>s'. keff (X_op x (m div 2)) s = Some s'" using pend(2) that a' by (elim disjE; simp add: op keff_def)
    then show ?thesis using ef pend(1) by blast
  qed (use go that in auto)
  from a(4,1) show ?thesis
  proof (cases rule: J_at_cases)
    case (pend k)
    show ?thesis
    proof (cases "n = 5 \<and> m < 2")
      case True
      then show ?thesis using child by simp
    next
      case False
      then show ?thesis using J_enabled [OF a(3) pend(2,3) a(2)] ef pend(1) by fastforce
    qed
  qed (use go child assms(3) a(2) in auto)
qed

lemma join_again:
  assumes x: "meets x s0" and a: "met x 13 5 s0 s"
  shows "solo keff (JoinUpdate (par x) (ci_no x) s) = Some (Inl UseAfterFree)"
proof -
  have ne: "pa x \<noteq> pb x" "ci_no x \<noteq> pi_no x" "mutex (blkA x) \<noteq> joinsem (blkB x)" using x by (auto simp: meets_def)
  have A: "pcb_heap s (pa x) = Some (blkA x)" and v: "semv s (mutex (blkA x)) = Some 1" "semv s (joinsem (blkB x)) = None" using a by (simp_all add: met_def)
  obtain B where B: "pcb_heap s (pb x) = Some B" "joinsem B = joinsem (blkB x)" "parentID B = pi_no x" using met_heap(2) [OF x a] by blast
  have p: "pcb_ptr (ci_no x) (s\<lparr>pcb_heap := h\<rparr>) = Inr (pb x)" for h using met_ptr(2) [OF x a] by (simp add: pcb_ptr_def)
  have u: "(semv s)(mutex (blkA x) \<mapsto> 0, mutex (blkA x) \<mapsto> 1) = semv s" using v(1) by (simp add: fun_upd_idem)
  have "solo keff (JoinUpdate (par x) (ci_no x) s) = solo keff (J4 x (s\<lparr>pcb_heap := (pcb_heap s)(pa x \<mapsto> (blkA x)\<lparr>numwait := numwait (blkA x) + 1\<rparr>)\<rparr>))"
    using v(1) u ne(2) A B by (simp add: JoinUpdate_def met_ptr [OF x a] PCB_IncNumWait_def bindP_assoc J_defs fun_upd_idem)
  also have "\<dots> = Some (Inl UseAfterFree)"
    using v(2) ne(1) B p
    by (simp add: J4_def PCB_JoinWait_def userP_def)
  finally show ?thesis .
qed

text \<open>
  C7. Join and exit. A parent calls \<open>Join\<close> on its child and the child calls \<open>Exit\<close>, interleaved in any way.
  No run crashes or gets stuck before both are through: every run ends after at most 18 steps, the parent has then returned the
  exit code of the child, the child is in \<open>Thread::Finish\<close>, and its slot is free. The table still has the pointer to the deleted
  block: a second \<open>Join\<close> on the same number uses a semaphore that has been deleted.
\<close>

theorem join_exit_rendezvous:
  assumes "meets x s0" "(pstep keff ^^ i) (s0, join_threads x) (s, P)"
  shows "i \<le> 18 \<and> (\<forall>t e. P t \<noteq> Crashed e) \<and> (\<forall>r. P (par x) = Finished r \<longrightarrow> r = r_ec x) \<and>
    ((\<nexists>c. pstep keff (s, P) c) \<longrightarrow> P (par x) = Finished (r_ec x) \<and> (\<exists>k. P (chi x) = Pending FinishThread k) \<and>
      ci_no x \<notin> Bitmap_used (slotManager s) \<and> solo keff (JoinUpdate (par x) (ci_no x) s) = Some (Inl UseAfterFree))"
proof -
  obtain n m where nm: "n + m = i" "conf x n m s0 (s, P)" using conf_run [OF assms] by blast
  then have a: "n \<le> 13" "m \<le> 5" "met x n m s0 s" "J_at x n (P (par x))" "X_at x m (P (chi x))"
    and fin: "\<And>t. t \<noteq> par x \<Longrightarrow> t \<noteq> chi x \<Longrightarrow> P t = Finished 0" by (auto simp: conf_def)
  have 1: "P t \<noteq> Crashed e" for t e
  proof -
    have "P (par x) \<noteq> Crashed e" using J_at_cases [OF a(4,1)] by (metis tstate.distinct(5,9,11))
    moreover have "P (chi x) \<noteq> Crashed e" using X_at_cases [OF a(5,2)] by (metis tstate.distinct(5,9))
    ultimately show ?thesis using fin [of t] by (cases "t = par x"; cases "t = chi x") simp_all
  qed
  have 2: "P (par x) = Finished r \<Longrightarrow> r = r_ec x" for r using J_at_cases [OF a(4,1)] by (metis tstate.distinct(3,7) tstate.inject(3))
  have 3: "P (par x) = Finished (r_ec x) \<and> (\<exists>k. P (chi x) = Pending FinishThread k) \<and> ci_no x \<notin> Bitmap_used (slotManager s) \<and>
      solo keff (JoinUpdate (par x) (ci_no x) s) = Some (Inl UseAfterFree)" if "\<nexists>c. pstep keff (s, P) c"
  proof -
    have nm': "n = 13" "m = 5" using conf_progress [OF assms(1) nm(2)] that by blast+
    have "ci_no x \<notin> Bitmap_used (slotManager s)" using a(3) unfolding nm' by (simp add: met_def)
    then show ?thesis using a(3-5) join_again [OF assms(1)] unfolding nm' by (simp add: J_at_def X_at_def)
  qed
  have "i \<le> 18" using nm(1) a(1,2) by linarith
  then show ?thesis using 1 2 3 by (intro conjI allI impI) blast+
qed


lemma join_runs:
  assumes "meets x s0" "i \<le> 18"
  shows "\<exists>c. (pstep keff ^^ i) (s0, join_threads x) c"
  using assms(2)
proof (induction i)
  case (Suc i)
  then obtain c where c: "(pstep keff ^^ i) (s0, join_threads x) c" by auto
  then obtain n m where nm: "n + m = i" "conf x n m s0 c" using conf_run [OF assms(1)] by blast
  obtain s P where sP: "c = (s, P)" by (cases c)
  have "\<not> (n = 13 \<and> m = 5)" using nm(1) Suc.prems by linarith
  then obtain c' where "pstep keff c c'" using conf_progress [OF assms(1)] nm(2) unfolding sP by blast
  then show ?case using c by (meson relpowp_Suc_I)
qed auto

text \<open>A parent and a child in slots 0 and 1.\<close>

definition pcb_of :: "nat \<Rightarrow> nat \<Rightarrow> int \<Rightarrow> int \<Rightarrow> PCB" where
  "pcb_of k t p q = \<lparr>joinsem = k, exitsem = k + 1, mutex = k + 2, exitcode = 0, numwait = 0, pcb_file = Some [97 + of_nat t, 0], pcb_thread = Some t, pid = p, parentID = q\<rparr>"

definition sys_family :: Sys where
  "sys_family = sys0\<lparr>semv := [0 \<mapsto> 1, 1 \<mapsto> 1, 2 \<mapsto> 1, 3 \<mapsto> 1, 4 \<mapsto> 0, 5 \<mapsto> 0, 6 \<mapsto> 1, 7 \<mapsto> 0, 8 \<mapsto> 0, 9 \<mapsto> 1], next_semv := 10, next_tid := 2,
     pcb_heap := [0 \<mapsto> pcb_of 4 0 0 (-1), 1 \<mapsto> pcb_of 7 1 1 0], next_pcb := 2, pcbs := [Some 0, Some 1] @ replicate 8 None,
     numProcesses := 12, slotManager := \<lparr>numBits = 10, numWords = 1, map_words = [3]\<rparr>\<rparr>"

definition family :: Meeting where
  "family = \<lparr>par = 0, chi = 1, pi_no = 0, ci_no = 1, r_ec = 7, pa = 0, pb = 1, blkA = pcb_of 4 0 0 (-1), blkB = pcb_of 7 1 1 0\<rparr>"

lemma family_meets: "meets family sys_family"
proof -
  have "map int [0..<nat MAX_PROCESSES] = [0, 1, 2, 3, 4, 5, 6, 7, 8, 9]" by (simp add: MAX_PROCESSES_def upt_conv_Cons)
  then have "GetCurrentThreadId 0 sys_family = Inr 0" "GetCurrentThreadId 1 sys_family = Inr 1"
    by (simp_all add: GetCurrentThreadId_def sys_family_def aget_def pcb_def pcb_of_def)
  moreover have "Bitmap_ok (slotManager sys_family)" "numBits (slotManager sys_family) = 10"
    by (simp_all add: sys_family_def Bitmap_ok_def BitsInWord_32 divRoundUp_eq)
  ultimately show ?thesis by (simp add: meets_def family_def) (simp add: sys_family_def pcb_of_def)
qed

theorem join_exit_rendezvous_witness:
  "\<exists>s P. (pstep keff ^^ 18) (sys_family, join_threads family) (s, P) \<and> P 0 = Finished 7 \<and> solo keff (JoinUpdate 0 1 s) = Some (Inl UseAfterFree)"
proof -
  obtain s P where r: "(pstep keff ^^ 18) (sys_family, join_threads family) (s, P)" using join_runs [OF family_meets, of 18] by (metis order_refl surj_pair)
  have "\<nexists>c. pstep keff (s, P) c"
  proof
    assume "\<exists>c. pstep keff (s, P) c"
    then obtain s' P' where "pstep keff (s, P) (s', P')" by (metis surj_pair)
    with r have "(pstep keff ^^ Suc 18) (sys_family, join_threads family) (s', P')" by (rule relpowp_Suc_I)
    from join_exit_rendezvous [OF family_meets this] show False by simp
  qed
  moreover have f: "par family = 0" "ci_no family = 1" "r_ec family = 7" by (simp_all add: family_def)
  ultimately have "P 0 = Finished 7 \<and> solo keff (JoinUpdate 0 1 s) = Some (Inl UseAfterFree)"
    using join_exit_rendezvous [OF family_meets r] unfolding f by blast
  then show ?thesis using r by blast
qed

section \<open>The table of user semaphores is a map from names\<close>

text \<open>
  A slot that is taken holds a semaphore object with a C string as its name; names are different, and the semaphores are
  allocated. The map a table stands for takes a name (without its terminating zero) to the number of the semaphore.
\<close>

definition STable_ok :: "'z Sys_scheme \<Rightarrow> bool" where
  "STable_ok s \<longleftrightarrow> Bitmap_ok (st_bm s) \<and> numBits (st_bm s) = 10 \<and> length (st_table s) = 10 \<and>
     (\<forall>i<10. (int i \<in> Bitmap_used (st_bm s)) = (st_table s ! i \<noteq> None)) \<and>
     (\<forall>i<10. \<forall>m. st_table s ! i = Some m \<longrightarrow> (\<exists>nm. sem_name m = nm @ [0] \<and> 0 \<notin> set nm) \<and> semv s (sem_sem m) \<noteq> None) \<and>
     (\<forall>i<10. \<forall>j<10. \<forall>m n. st_table s ! i = Some m \<longrightarrow> st_table s ! j = Some n \<longrightarrow> sem_name m = sem_name n \<longrightarrow> i = j) \<and>
     (\<forall>k. next_semv s \<le> k \<longrightarrow> semv s k = None)"

fun sem_lookup :: "byte list \<Rightarrow> Sem option list \<Rightarrow> Sem option" where
  "sem_lookup nm [] = None"
| "sem_lookup nm (x # xs) = (case x of Some m \<Rightarrow> if sem_name m = nm @ [0] then Some m else sem_lookup nm xs | None \<Rightarrow> sem_lookup nm xs)"

definition sem_map :: "'z Sys_scheme \<Rightarrow> byte list \<rightharpoonup> nat" where
  "sem_map s nm = map_option sem_sem (sem_lookup nm (st_table s))"

lemma strcmp_strings:
  "0 \<notin> set a \<Longrightarrow> 0 \<notin> set b \<Longrightarrow> strcmp_eq (a @ 0 # r) (b @ [0]) = Inr (a = b)"
proof (induction a arbitrary: b)
  case Nil
  then show ?case by (cases b) auto
next
  case (Cons x xs)
  then show ?case by (cases b) auto
qed

lemma cstr_split: "cstr name = Inr nm \<Longrightarrow> \<exists>r. name = nm @ 0 # r \<and> 0 \<notin> set nm"
proof -
  assume c: "cstr name = Inr nm"
  then have z: "0 \<in> set name" and nm: "nm = takeWhile (\<lambda>c. c \<noteq> 0) name" by (auto simp: cstr_def split: if_splits)
  have "dropWhile (\<lambda>c. c \<noteq> 0) name \<noteq> []" using z by (simp add: dropWhile_eq_Nil_conv)
  then obtain x r where d: "dropWhile (\<lambda>c. c \<noteq> 0) name = x # r" by (cases "dropWhile (\<lambda>c. c \<noteq> 0) name") auto
  then have "x = 0" using hd_dropWhile [of "\<lambda>c. c \<noteq> 0" name] by simp
  then have "name = nm @ 0 # r" using takeWhile_dropWhile_id [of "\<lambda>c. c \<noteq> 0" name] d nm by simp
  moreover have "0 \<notin> set nm" unfolding nm by (auto dest: set_takeWhileD)
  ultimately show ?thesis by blast
qed

lemma find_sem_lookup:
  assumes ok: "STable_ok s" and c: "cstr name = Inr nm" and k: "k \<le> 10"
  shows "find_sem name (map int [k..<10]) s = Inr (sem_lookup nm (drop k (st_table s)))"
  using k
proof (induction "10 - k" arbitrary: k)
  case 0
  then have "k = 10" "length (st_table s) = 10" using ok by (simp_all add: STable_ok_def)
  then show ?case by simp
next
  case (Suc n)
  then have k: "k < 10" by simp
  have len: "length (st_table s) = 10" and b: "Bitmap_ok (st_bm s)" "numBits (st_bm s) = 10"
    and us: "(int k \<in> Bitmap_used (st_bm s)) = (st_table s ! k \<noteq> None)" using ok k by (auto simp: STable_ok_def)
  have IH: "find_sem name (map int [Suc k..<10]) s = Inr (sem_lookup nm (drop (Suc k) (st_table s)))" using Suc by simp
  have t: "Bitmap_Test (st_bm s) (int k) = Inr (st_table s ! k \<noteq> None)" using bm.test_law [OF b(1)] b(2) k us by simp
  have dr: "drop k (st_table s) = st_table s ! k # drop (Suc k) (st_table s)" using k len by (simp add: Cons_nth_drop_Suc)
  have up: "map int [k..<10] = int k # map int [Suc k..<10]" using k by (simp add: upt_conv_Cons)
  show ?case
  proof (cases "st_table s ! k")
    case None
    then show ?thesis unfolding up dr using t IH by simp
  next
    case (Some m)
    then obtain nm' where n': "sem_name m = nm' @ [0]" "0 \<notin> set nm'" using ok k unfolding STable_ok_def by blast
    obtain r where r: "name = nm @ 0 # r" "0 \<notin> set nm" using cstr_split [OF c] by blast
    have "strcmp_eq name (sem_name m) = Inr (nm = nm')" unfolding r(1) n'(1) by (rule strcmp_strings [OF r(2) n'(2)])
    then show ?thesis unfolding up dr using t IH Some n'(1) k len by (auto simp: aget_def)
  qed
qed

lemma STable_find_eq: "STable_ok s \<Longrightarrow> cstr name = Inr nm \<Longrightarrow> STable_find name s = Inr (sem_lookup nm (st_table s))"
  using find_sem_lookup [of s name nm 0] by (simp add: STable_find_def MAX_SEMAPHORE_def)

lemma sem_lookup_None: "sem_lookup nm xs = None \<longleftrightarrow> (\<forall>m. Some m \<in> set xs \<longrightarrow> sem_name m \<noteq> nm @ [0])"
  by (induction xs) (auto split: option.splits)

lemma sem_lookup_put:
  assumes "i < length xs" "xs ! i = None"
  shows "sem_name m \<noteq> nm @ [0] \<Longrightarrow> sem_lookup nm (xs[i := Some m]) = sem_lookup nm xs"
    and "sem_name m = nm @ [0] \<Longrightarrow> sem_lookup nm xs = None \<Longrightarrow> sem_lookup nm (xs[i := Some m]) = Some m"
proof -
  show "sem_name m \<noteq> nm @ [0] \<Longrightarrow> sem_lookup nm (xs[i := Some m]) = sem_lookup nm xs" using assms
  proof (induction xs arbitrary: i)
    case (Cons x xs)
    then show ?case by (cases i) (auto split: option.splits)
  qed simp
  show "sem_name m = nm @ [0] \<Longrightarrow> sem_lookup nm xs = None \<Longrightarrow> sem_lookup nm (xs[i := Some m]) = Some m" using assms
  proof (induction xs arbitrary: i)
    case (Cons x xs)
    then show ?case by (cases i) (auto split: option.splits if_splits)
  qed simp
qed

lemma STable_full:
  assumes ok: "STable_ok s"
  shows "Bitmap_used (st_bm s) = {0..<10} \<longleftrightarrow> None \<notin> set (st_table s)"
proof -
  have us: "i < 10 \<Longrightarrow> (int i \<in> Bitmap_used (st_bm s)) = (st_table s ! i \<noteq> None)" for i using ok by (auto simp: STable_ok_def)
  have len: "length (st_table s) = 10" and n: "numBits (st_bm s) = 10" using ok by (auto simp: STable_ok_def)
  show ?thesis
  proof
    assume u: "Bitmap_used (st_bm s) = {0..<10}"
    have "st_table s ! i \<noteq> None" if "i < 10" for i using us [OF that] that u by simp
    then show "None \<notin> set (st_table s)" using len by (metis in_set_conv_nth)
  next
    assume u: "None \<notin> set (st_table s)"
    have "x \<in> Bitmap_used (st_bm s)" if "0 \<le> x" "x < 10" for x
    proof -
      have i: "nat x < 10" "int (nat x) = x" using that by auto
      then have "st_table s ! nat x \<noteq> None" using u len nth_mem by metis
      then show ?thesis using us [OF i(1)] i(2) by simp
    qed
    then show "Bitmap_used (st_bm s) = {0..<10}" using Bitmap_used_range [of "st_bm s"] n by auto
  qed
qed

lemma STable_Create_new:
  assumes ok: "STable_ok s" and c: "cstr name = Inr nm" and new: "sem_lookup nm (st_table s) = None" and room: "None \<in> set (st_table s)" and l: "length nm \<le> 49"
  shows "\<exists>s'. STable_Create name v s = Inr (0, s') \<and> STable_ok s' \<and> sem_map s' = (sem_map s)(nm \<mapsto> next_semv s) \<and> semv s' = (semv s)(next_semv s \<mapsto> v)"
proof -
  have b: "Bitmap_ok (st_bm s)" "numBits (st_bm s) = 10" and len: "length (st_table s) = 10"
    and us: "\<And>i. i < 10 \<Longrightarrow> (int i \<in> Bitmap_used (st_bm s)) = (st_table s ! i \<noteq> None)"
    and nms: "\<And>i m. i < 10 \<Longrightarrow> st_table s ! i = Some m \<Longrightarrow> (\<exists>nm. sem_name m = nm @ [0] \<and> 0 \<notin> set nm) \<and> semv s (sem_sem m) \<noteq> None"
    and dis: "\<And>i j m n. i < 10 \<Longrightarrow> j < 10 \<Longrightarrow> st_table s ! i = Some m \<Longrightarrow> st_table s ! j = Some n \<Longrightarrow> sem_name m = sem_name n \<Longrightarrow> i = j"
    and fr: "\<And>k. next_semv s \<le> k \<Longrightarrow> semv s k = None"
    using ok unfolding STable_ok_def by blast+
  have z: "0 \<notin> set nm" using cstr_split [OF c] by blast
  have "Bitmap_used (st_bm s) \<noteq> {0..<numBits (st_bm s)}" using STable_full [OF ok] room b(2) by simp
  then obtain x b' where f: "Bitmap_FindAndSet (st_bm s) = Inr (x, b')" "0 \<le> x" "x < 10" "x \<notin> Bitmap_used (st_bm s)" "Bitmap_ok b'" "numBits b' = 10"
      "Bitmap_used b' = insert x (Bitmap_used (st_bm s))" using bm.find_free [OF b(1)] b(2) by metis
  define i where "i = nat x"
  have i: "i < 10" "x = int i" using f(2,3) by (auto simp: i_def)
  then have ni: "st_table s ! i = None" using us [OF i(1)] f(4) by simp
  define m where "m = \<lparr>sem_name = nm @ [0], sem_sem = next_semv s\<rparr>"
  let ?s = "s\<lparr>st_bm := b', semv := (semv s)(next_semv s \<mapsto> v), next_semv := Suc (next_semv s), st_table := (st_table s)[i := Some m]\<rparr>"
  have "STable_Create name v s = Inr (0, ?s)"
    using STable_find_eq [OF ok c] new f(1) c l i len by (simp add: STable_Create_def FindFreeSlot_def Sem_new_def new_sem_def aset_def m_def)
  moreover have "STable_ok ?s"
    unfolding STable_ok_def
  proof (intro conjI allI impI)
    fix j :: nat assume j: "j < 10"
    show "(int j \<in> Bitmap_used (st_bm ?s)) = (st_table ?s ! j \<noteq> None)" using us [OF j] f(7) i j len by (cases "j = i") auto
    fix n assume n: "st_table ?s ! j = Some n"
    show "\<exists>nm. sem_name n = nm @ [0] \<and> 0 \<notin> set nm" using nms [OF j] n z i len by (cases "j = i") (auto simp: m_def)
    show "semv ?s (sem_sem n) \<noteq> None" using nms [OF j] n i len by (cases "j = i") (auto simp: m_def)
    fix k :: nat and n' assume k: "k < 10" "st_table ?s ! k = Some n'" "sem_name n = sem_name n'"
    have old: "sem_name q \<noteq> nm @ [0]" if "q' < 10" "st_table s ! q' = Some q" for q q'
      using new that len sem_lookup_None [of nm "st_table s"] nth_mem [of q' "st_table s"] by metis
    show "j = k" using dis [OF j k(1)] n k(2,3) i len old [OF j] old [OF k(1)] by (cases "j = i"; cases "k = i") (auto simp: m_def)
  qed (use b f fr len in \<open>auto\<close>)
  moreover have "sem_map ?s = (sem_map s)(nm \<mapsto> next_semv s)"
  proof
    fix q show "sem_map ?s q = ((sem_map s)(nm \<mapsto> next_semv s)) q"
      using sem_lookup_put [of i "st_table s" m q] i len ni new by (cases "q = nm") (auto simp: sem_map_def m_def)
  qed
  ultimately show ?thesis by (intro exI [of _ ?s]) simp
qed

text \<open>
  C8. User semaphores are found by name. In a consistent table \<open>Create\<close> refuses a name that exists and a full table
  without any effect; otherwise, for a name of at most 49 bytes, it adds exactly that name, with a new semaphore of the given
  value, and the table stays consistent; a longer name writes past the array of the semaphore object. \<open>Wait\<close> and \<open>Signal\<close> are \<open>P\<close> and
  \<open>V\<close> on the semaphore of the name, or report -1 when there is none.
\<close>

theorem semaphore_names:
  assumes "STable_ok s" "cstr name = Inr nm"
  shows "case sem_map s nm of
      Some k \<Rightarrow> STable_Create name v s = Inr (-1, s) \<and> STable_Wait name s = bindP (userP k s) (\<lambda>_. Ret 0) \<and> STable_Signal name s = bindP (userV k s) (\<lambda>_. Ret 0)
    | None \<Rightarrow> STable_Wait name s = Ret (-1) s \<and> STable_Signal name s = Ret (-1) s \<and>
        (if None \<notin> set (st_table s) then STable_Create name v s = Inr (-1, s)
         else if length nm > 49 then STable_Create name v s = Inl OutOfBounds
         else \<exists>s'. STable_Create name v s = Inr (0, s') \<and> STable_ok s' \<and> sem_map s' = (sem_map s)(nm \<mapsto> next_semv s) \<and> semv s' = (semv s)(next_semv s \<mapsto> v))"
proof (cases "sem_lookup nm (st_table s)")
  case (Some m)
  then show ?thesis using STable_find_eq [OF assms] by (simp add: sem_map_def STable_Create_def STable_Wait_def STable_Signal_def Sem_Wait_def Sem_Signal_def)
next
  case None
  note f = STable_find_eq [OF assms, unfolded None]
  have b: "Bitmap_ok (st_bm s)" "numBits (st_bm s) = 10" using assms(1) by (auto simp: STable_ok_def)
  have 1: "STable_Create name v s = Inr (-1, s)" if "None \<notin> set (st_table s)"
    using STable_full [OF assms(1)] that bm.find_full [OF b(1)] b(2) f by (simp add: STable_Create_def FindFreeSlot_def)
  have 2: "STable_Create name v s = Inl OutOfBounds" if "None \<in> set (st_table s)" "length nm > 49"
  proof -
    have "Bitmap_used (st_bm s) \<noteq> {0..<numBits (st_bm s)}" using STable_full [OF assms(1)] that(1) b(2) by simp
    then obtain x b' where "Bitmap_FindAndSet (st_bm s) = Inr (x, b')" "0 \<le> x" using bm.find_free [OF b(1)] by metis
    then show ?thesis using f assms(2) that(2) by (simp add: STable_Create_def FindFreeSlot_def Sem_new_def)
  qed
  show ?thesis using 1 2 STable_Create_new [OF assms None, of v] None f by (auto simp: sem_map_def STable_Wait_def STable_Signal_def)
qed

lemma sys0_table: "STable_ok sys0"
proof -
  have "Bitmap_used (st_bm sys0) = {}"
  proof -
    have "\<not> bit_at \<lparr>numBits = 10, numWords = 1, map_words = [0]\<rparr> i" if "0 \<le> i" "i < 10" for i using that by (simp add: bit_at_def BitsInWord_32)
    then show ?thesis by (auto simp: sys0_def Bitmap_used_def)
  qed
  moreover have "Bitmap_ok (st_bm sys0)" "numBits (st_bm sys0) = 10" by (simp_all add: sys0_def Bitmap_ok_def BitsInWord_32 divRoundUp_eq)
  moreover have "length (st_table sys0) = 10" "i < 10 \<Longrightarrow> st_table sys0 ! i = None" for i unfolding sys0_def by simp_all
  moreover have "semv sys0 k = None" if "next_semv sys0 \<le> k" for k using that by (simp add: sys0_def)
  ultimately show ?thesis unfolding STable_ok_def by simp
qed

theorem semaphore_names_witness:
  "STable_Wait [115, 0] sys0 = Ret (-1) sys0 \<and> (\<exists>s'. STable_Create [115, 0] 5 sys0 = Inr (0, s') \<and> sem_map s' [115] = Some 4 \<and> semv s' 4 = Some 5)"
proof -
  have c: "cstr [115, 0] = Inr [115]" by (simp add: cstr_def)
  have t: "st_table sys0 = replicate 10 None" and n: "next_semv sys0 = 4" by (simp_all add: sys0_def)
  have "sem_lookup [115] (replicate n None) = None" for n by (induction n) simp_all
  then have "sem_map sys0 [115] = None" by (simp add: sem_map_def t)
  then show ?thesis using semaphore_names [OF sys0_table c, of 5] by (auto simp: t n)
qed

section \<open>Starting a process\<close>

definition PTable_ok :: "'z Sys_scheme \<Rightarrow> bool" where
  "PTable_ok s \<longleftrightarrow> Bitmap_ok (slotManager s) \<and> numBits (slotManager s) = 10 \<and> length (pcbs s) = 10 \<and> semv s (ptable_sem s) = Some 1 \<and>
     (\<forall>k. next_semv s \<le> k \<longrightarrow> semv s k = None)"

text \<open>The process \<open>cur\<close>, with the name \<open>fn\<close>, makes a call in thread \<open>self\<close>.\<close>

definition runs_as :: "nat \<Rightarrow> int \<Rightarrow> byte list \<Rightarrow> 'z Sys_scheme \<Rightarrow> bool" where
  "runs_as self cur fn s \<longleftrightarrow> GetCurrentThreadId self s = Inr cur \<and> 0 \<le> cur \<and> cur < 10 \<and> 0 \<notin> set fn \<and>
     (\<exists>a A. pcbs s ! nat cur = Some a \<and> pcb_heap s a = Some A \<and> pcb_file A = Some (fn @ [0]))"

definition new_block :: "'z Sys_scheme \<Rightarrow> int \<Rightarrow> int \<Rightarrow> byte list \<Rightarrow> PCB" where
  "new_block s sl cur nm = \<lparr>joinsem = next_semv s, exitsem = Suc (next_semv s), mutex = Suc (Suc (next_semv s)), exitcode = 0, numwait = 0,
     pcb_file = Some (nm @ [0]), pcb_thread = Some (next_tid s), pid = sl, parentID = cur\<rparr>"

lemma PCB_Exec_solo:
  assumes h: "pcb_heap s a = Some b" "semv s (mutex b) = Some 1" and nm: "cstr name = Inr nm" "length nm < heap_room s (length nm)"
  shows "solo keff (bindP (PCB_Exec a name p s) g) = solo keff (g p (s\<lparr>next_tid := Suc (next_tid s),
    pcb_heap := (pcb_heap s)(a \<mapsto> b\<lparr>pid := p, pcb_file := Some (nm @ [0]), pcb_thread := Some (next_tid s)\<rparr>),
    forked_args := (forked_args s)(next_tid s \<mapsto> nm @ [0])\<rparr>))"
proof -
  have "(semv s)(mutex b \<mapsto> 0, mutex b \<mapsto> 1) = semv s" using h(2) by (simp add: fun_upd_idem)
  then have u: "(semv s)(mutex b \<mapsto> 1) = semv s" by simp
  have c: "copy_name name (s\<lparr>semv := w, pcb_heap := h'\<rparr>) = Inr (nm @ [0])" for w h' using nm by (simp add: copy_name_def)
  show ?thesis using h by (simp add: PCB_Exec_def bindP_assoc Let_def c user_call_def u)
qed

lemma strcmp_strings':
  "0 \<notin> set a \<Longrightarrow> 0 \<notin> set b \<Longrightarrow> strcmp_eq (a @ [0]) (b @ 0 # r) = Inr (a = b)"
proof (induction a arbitrary: b)
  case Nil
  then show ?case by (cases b) auto
next
  case (Cons x xs)
  then show ?case by (cases b) auto
qed

lemma ExecUpdate_start:
  assumes t: "PTable_ok s" and r: "runs_as self cur fn s" and nm: "cstr name = Inr nm"
  shows "solo keff (ExecUpdate self name s) = (let s1 = s\<lparr>semv := (semv s)(ptable_sem s \<mapsto> 0)\<rparr> in
    if fn = nm then Some (Inr (-1, s))
    else solo keff (bindP (liftP (GetFreeSlot s1)) (\<lambda>slot s.
       if slot = -1 then bindP (userV (ptable_sem s) s) (\<lambda>_ s. Ret (-1) s)
       else
         let (a, s) = PCB_new s in
         bindP (asP (bindR (aset (pcbs s) slot (Some a)) (\<lambda>ps. put_pcb a (\<lambda>b. b\<lparr>parentID := cur\<rparr>) (s\<lparr>pcbs := ps\<rparr>))) s) (\<lambda>s _.
         bindP (PCB_Exec a name slot s) (\<lambda>result s.
         let s = s\<lparr>numProcesses := numProcesses s + 1\<rparr> in
         bindP (userV (ptable_sem s) s) (\<lambda>_ s. Ret result s))))))"
proof -
  let ?s1 = "s\<lparr>semv := (semv s)(ptable_sem s \<mapsto> 0)\<rparr>"
  have v: "semv s (ptable_sem s) = Some 1" and len: "length (pcbs s) = 10" using t by (auto simp: PTable_ok_def)
  have u: "(semv s)(ptable_sem s \<mapsto> 1) = semv s" using v by (simp add: fun_upd_idem)
  obtain a A where a: "GetCurrentThreadId self s = Inr cur" "0 \<le> cur" "cur < 10" "0 \<notin> set fn" "pcbs s ! nat cur = Some a" "pcb_heap s a = Some A" "pcb_file A = Some (fn @ [0])"
    using r by (auto simp: runs_as_def)
  obtain rest where rest: "name = nm @ 0 # rest" "0 \<notin> set nm" using cstr_split [OF nm] by blast
  have eq: "strcmp_eq (fn @ [0]) name = Inr (fn = nm)" unfolding rest(1) using strcmp_strings' [OF a(4) rest(2)] .
  have ids: "GetCurrentThreadId self ?s1 = Inr cur" using GetCurrentThreadId_cong [of s ?s1] a(1) by (simp add: same_ids_def)
  have p: "pcb_ptr cur ?s1 = Inr a" using a len by (simp add: pcb_ptr_def aget_def)
  show ?thesis
    unfolding ExecUpdate_def solo_userP [OF v zero_less_one]
    using ids p a(6,7) eq u by (simp add: Let_def)
qed


text \<open>The state after a process has been started in slot \<open>x\<close>, with \<open>b\<close> as the new map of slots.\<close>

definition started :: "int \<Rightarrow> Bitmap \<Rightarrow> int \<Rightarrow> byte list \<Rightarrow> 'z Sys_scheme \<Rightarrow> 'z Sys_scheme" where
  "started x b cur nm s = s\<lparr>slotManager := b, pcbs := (pcbs s)[nat x := Some (next_pcb s)],
     pcb_heap := (pcb_heap s)(next_pcb s \<mapsto> new_block s x cur nm), next_pcb := Suc (next_pcb s),
     semv := (semv s)(next_semv s \<mapsto> 0, Suc (next_semv s) \<mapsto> 0, Suc (Suc (next_semv s)) \<mapsto> 1), next_semv := Suc (Suc (Suc (next_semv s))),
     next_tid := Suc (next_tid s), forked_args := (forked_args s)(next_tid s \<mapsto> nm @ [0]), numProcesses := numProcesses s + 1\<rparr>"

lemma ExecUpdate_forks:
  assumes t: "PTable_ok s" and r: "runs_as self cur fn s" and nm: "cstr name = Inr nm" "length nm < heap_room s (length nm)" "fn \<noteq> nm"
    and f: "Bitmap_FindAndSet (slotManager s) = Inr (x, b)" "0 \<le> x" "x < 10"
  shows "solo keff (ExecUpdate self name s) = Some (Inr (x, started x b cur nm s))"
proof -
  let ?k = "ptable_sem s" and ?N = "next_semv s"
  have v: "semv s ?k = Some 1" and len: "length (pcbs s) = 10" and fr: "\<And>k. ?N \<le> k \<Longrightarrow> semv s k = None" using t by (auto simp: PTable_ok_def)
  have k: "?k < ?N" using fr [of ?k] v by (cases "?k < ?N") auto
  have x: "nat x < 10" "x \<noteq> -1" "\<not> x < 0" using f(2,3) by auto
  define B where "B = \<lparr>joinsem = ?N, exitsem = Suc ?N, mutex = Suc (Suc ?N), exitcode = 0, numwait = 0, pcb_file = None, pcb_thread = None, pid = -1, parentID = cur\<rparr>"
  define s4 where "s4 = s\<lparr>slotManager := b, semv := (semv s)(?k \<mapsto> 0, ?N \<mapsto> 0, Suc ?N \<mapsto> 0, Suc (Suc ?N) \<mapsto> 1), next_semv := Suc (Suc (Suc ?N)),
    next_pcb := Suc (next_pcb s), pcbs := (pcbs s)[nat x := Some (next_pcb s)], pcb_heap := (pcb_heap s)(next_pcb s \<mapsto> B)\<rparr>"
  have h4: "pcb_heap s4 (next_pcb s) = Some B" "semv s4 (mutex B) = Some 1" "length nm < heap_room s4 (length nm)" using nm(2) by (simp_all add: s4_def B_def)
  have s4: "solo keff (ExecUpdate self name s) = solo keff (bindP (PCB_Exec (next_pcb s) name x s4) (\<lambda>result s.
       bindP (userV (ptable_sem s) (s\<lparr>numProcesses := numProcesses s + 1\<rparr>)) (\<lambda>_ s. Ret result s)))"
    unfolding ExecUpdate_start [OF t r nm(1)]
    using nm(3) f(1) len x by (simp add: GetFreeSlot_def Let_def PCB_new_def new_sem_def aset_def s4_def B_def)
  have w: "(semv s4)(?k \<mapsto> 1) = (semv s)(?N \<mapsto> 0, Suc ?N \<mapsto> 0, Suc (Suc ?N) \<mapsto> 1)" using k v by (auto simp: s4_def)
  have p: "ptable_sem s4 = ?k" "semv s4 ?k = Some 0" using k by (simp_all add: s4_def)
  have "solo keff (ExecUpdate self name s) = Some (Inr (x, s4\<lparr>next_tid := Suc (next_tid s), pcb_heap := (pcb_heap s4)(next_pcb s \<mapsto> new_block s x cur nm),
      forked_args := (forked_args s)(next_tid s \<mapsto> nm @ [0]), numProcesses := numProcesses s + 1, semv := (semv s4)(?k \<mapsto> 1)\<rparr>))"
    unfolding s4 PCB_Exec_solo [OF h4(1,2) nm(1) h4(3)] using p by (simp add: new_block_def B_def s4_def)
  also have "\<dots> = Some (Inr (x, started x b cur nm s))" unfolding w started_def by (simp add: s4_def)
  finally show ?thesis .
qed


lemma family_table: "PTable_ok sys_family" "runs_as 0 0 [97] sys_family" "Bitmap_used (slotManager sys_family) \<noteq> {0..<10}"
proof -
  show "PTable_ok sys_family" by (simp add: PTable_ok_def sys_family_def Bitmap_ok_def BitsInWord_32 divRoundUp_eq sys0_def)
  show "runs_as 0 0 [97] sys_family" using family_meets by (simp add: runs_as_def meets_def family_def sys_family_def pcb_of_def)
  have "5 \<notin> Bitmap_used (slotManager sys_family)" by (simp add: Bitmap_used_def sys_family_def bit_at_def BitsInWord_32 bit_numeral_rec)
  then show "Bitmap_used (slotManager sys_family) \<noteq> {0..<10}" by auto
qed


text \<open>
  C26. When \<open>Join\<close> is refused. \<open>PTable::JoinUpdate\<close> returns -1 for a number that is not that of a process, -2 for the caller's own
  number and -3 for a process whose parent is not the caller; in these cases it makes no call that could wait and changes nothing.
\<close>

theorem Join_refused:
  assumes "GetCurrentThreadId self s = Inr cur" "length (pcbs s) = 10"
  shows "(c < 0 \<or> c \<ge> 10 \<or> pcbs s ! nat c = None \<longrightarrow> JoinUpdate self c s = Ret (-1) s) \<and>
    (\<forall>a b. 0 \<le> c \<and> c < 10 \<and> pcbs s ! nat c = Some a \<and> pcb_heap s a = Some b \<longrightarrow>
      (c = cur \<longrightarrow> JoinUpdate self c s = Ret (-2) s) \<and> (c \<noteq> cur \<and> parentID b \<noteq> cur \<longrightarrow> JoinUpdate self c s = Ret (-3) s))"
proof (intro conjI allI impI)
  assume "c < 0 \<or> c \<ge> 10 \<or> pcbs s ! nat c = None"
  then have "IsExist c s = Inr False" using assms(2) by (auto simp: IsExist_def MAX_PROCESSES_def aget_def)
  then show "JoinUpdate self c s = Ret (-1) s" using assms(1) by (simp add: JoinUpdate_def)
next
  fix a b assume a: "0 \<le> c \<and> c < 10 \<and> pcbs s ! nat c = Some a \<and> pcb_heap s a = Some b"
  then have e: "IsExist c s = Inr True" "pcb_ptr c s = Inr a" using assms(2) by (auto simp: IsExist_def MAX_PROCESSES_def aget_def pcb_ptr_def)
  show "JoinUpdate self c s = Ret (-2) s" if "c = cur" using e assms(1) that by (simp add: JoinUpdate_def)
  show "JoinUpdate self c s = Ret (-3) s" if "c \<noteq> cur \<and> parentID b \<noteq> cur" using e assms(1) that a by (simp add: JoinUpdate_def)
qed

theorem Join_refused_witness:
  "JoinUpdate 0 5 sys_family = Ret (-1) sys_family \<and> JoinUpdate 0 0 sys_family = Ret (-2) sys_family"
proof -
  have c: "GetCurrentThreadId 0 sys_family = Inr 0" "length (pcbs sys_family) = 10" using family_meets by (simp_all add: meets_def family_def)
  have p: "pcbs sys_family ! 5 = None" "pcbs sys_family ! 0 = Some 0" "pcb_heap sys_family 0 = Some (pcb_of 4 0 0 (-1))" by (simp_all add: sys_family_def)
  show ?thesis using Join_refused [OF c, of 5] Join_refused [OF c, of 0] p by simp
qed

end
