(* ===== verification/Nachos_Syscall.thy ===== *)
theory Nachos_Syscall
  imports Nachos_Process
begin

text \<open>
  System calls: the console with waiting (\<open>userprog/synchconsole.cc\<close>), the remaining kernel calls of \<open>userprog/ksyscall.h\<close> and
  the entry from user programs, \<open>userprog/exception.cc\<close>.

  \<open>self\<close> is the thread that makes the call. A routine that may wait restores the registers and the page table of the process when it
  goes on. An access of the kernel to user memory that cannot be translated raises an exception in the kernel, for which
  \<open>ExceptionHandler\<close> halts the machine. \<open>new char[n]\<close> succeeds unless \<open>n\<close> is negative. \<open>keyboard\<close> is what the console will still deliver, the
  end of the input being the character \<open>EOF\<close>.
\<close>

section \<open>The console\<close>

definition EOFc :: byte where "EOFc = 255"

text \<open>The lock is a semaphore of value one that only \<open>Acquire\<close> and \<open>Release\<close> of this routine use.\<close>

definition SynchConsoleInput_GetChar :: "'z Sys_scheme \<Rightarrow> ('z, byte) routine" where
  "SynchConsoleInput_GetChar s =
     bindP (userP (in_lock s) s) (\<lambda>_ s.
     bindP (user_call AwaitChar s) (\<lambda>_ s.
     let ch = hd (keyboard s); s = s\<lparr>keyboard := tl (keyboard s)\<rparr> in
     bindP (userV (in_lock s) s) (\<lambda>_ s. Ret ch s)))"

text \<open>\<open>i\<close> characters have been stored, \<open>k\<close> remain.\<close>

fun GetString_from :: "int \<Rightarrow> nat \<Rightarrow> byte list \<Rightarrow> 'z Sys_scheme \<Rightarrow> ('z, bool \<times> byte list) routine" where
  "GetString_from i 0 buffer s = Ret (True, buffer) s"
| "GetString_from i (Suc k) buffer s =
     bindP (SynchConsoleInput_GetChar s) (\<lambda>c s.
     bindP (asP (aset buffer i c) s) (\<lambda>buffer s.
     if c = EOFc then bindP (asP (aset buffer i 0) s) (\<lambda>buffer s. Ret (False, buffer) s)
     else GetString_from (i + 1) k buffer s))"

definition SynchConsoleInput_GetString :: "byte list \<Rightarrow> int \<Rightarrow> 'z Sys_scheme \<Rightarrow> ('z, int \<times> byte list) routine" where
  "SynchConsoleInput_GetString buffer sz s =
     bindP (GetString_from 0 (nat sz) buffer s) (\<lambda>(ok, buffer) s. Ret (if ok then sz else -1, buffer) s)"

definition SynchConsoleOutput_PutChar :: "byte \<Rightarrow> 'z Sys_scheme \<Rightarrow> ('z, unit) routine" where
  "SynchConsoleOutput_PutChar ch s =
     bindP (userP (out_lock s) s) (\<lambda>_ s.
     bindP (user_call (PutCh ch) s) (\<lambda>_ s.
     userV (out_lock s) s))"

definition SynchConsoleOutput_PutString :: "byte list \<Rightarrow> int \<Rightarrow> 'z Sys_scheme \<Rightarrow> ('z, int) routine" where
  "SynchConsoleOutput_PutString buffer sz s =
     bindP (forP (\<lambda>i s. bindP (asP (aget buffer i) s) SynchConsoleOutput_PutChar) (map int [0..<nat sz]) s) (\<lambda>_ s. Ret sz s)"

section \<open>userprog/ksyscall.h\<close>

definition MAXLENGTH :: i32 where "MAXLENGTH = 255"

definition SysHalt :: "'z Sys_scheme \<Rightarrow> ('z, unit) routine" where
  "SysHalt s = Fault MachineHalted"

definition SysAdd :: "i32 \<Rightarrow> i32 \<Rightarrow> i32" where
  "SysAdd op1 op2 = op1 + op2"

definition IncreasePC :: "Machine \<Rightarrow> Machine res" where
  "IncreasePC m =
     bindR (ReadRegister m (int PCReg)) (\<lambda>pc. bindR (WriteRegister m (int PrevPCReg) pc) (\<lambda>m.
     bindR (ReadRegister m (int PCReg)) (\<lambda>pc. bindR (WriteRegister m (int PCReg) (pc + 4)) (\<lambda>m.
     bindR (ReadRegister m (int PCReg)) (\<lambda>pc. WriteRegister m (int NextPCReg) (pc + 4))))))"

definition SysReadChar :: "'z Sys_scheme \<Rightarrow> ('z, byte) routine" where
  "SysReadChar s = SynchConsoleInput_GetChar s"

text \<open>The characters read so far are \<open>acc\<close>; at most \<open>k\<close> more are read.\<close>

fun ReadString_from :: "nat \<Rightarrow> byte list \<Rightarrow> 'z Sys_scheme \<Rightarrow> ('z, byte list) routine" where
  "ReadString_from 0 acc s = Ret acc s"
| "ReadString_from (Suc k) acc s =
     bindP (SysReadChar s) (\<lambda>c s. if c = 10 then Ret acc s else ReadString_from k (acc @ [c]) s)"

definition SysReadString :: "'z Sys_scheme \<Rightarrow> ('z, byte list) routine" where
  "SysReadString s = bindP (ReadString_from 255 [] s) (\<lambda>newBuffer s. Ret (newBuffer @ [0]) s)"

definition SysPrintChar :: "byte \<Rightarrow> 'z Sys_scheme \<Rightarrow> ('z, unit) routine" where
  "SysPrintChar character s = SynchConsoleOutput_PutChar character s"

definition SysPrintString :: "byte list \<Rightarrow> int \<Rightarrow> 'z Sys_scheme \<Rightarrow> ('z, unit) routine" where
  "SysPrintString buffer len s =
     forP (\<lambda>i s. bindP (asP (aget buffer i) s) SysPrintChar) (map int [0..<nat len]) s"

definition SysRead :: "byte list \<Rightarrow> int \<Rightarrow> int \<Rightarrow> 'z Sys_scheme \<Rightarrow> ('z, int \<times> byte list) routine" where
  "SysRead buffer sz openFileID s =
     (if openFileID < 0 \<or> openFileID \<ge> 20 then Ret (-1, buffer) s
      else bindP (asP (GetFileDescriptorByID openFileID s) s) (\<lambda>e s.
        if e = None then Ret (-1, buffer) s
        else if openFileID = 1 then Ret (-1, buffer) s
        else if openFileID = 0 then SynchConsoleInput_GetString buffer sz s
        else liftP (bindR (FileSystem_Read buffer sz openFileID s) (\<lambda>(r, buffer, s). Inr ((r, buffer), s)))))"

definition SysWrite :: "byte list \<Rightarrow> int \<Rightarrow> int \<Rightarrow> 'z Sys_scheme \<Rightarrow> ('z, int) routine" where
  "SysWrite buffer sz openFileId s =
     (if openFileId < 0 \<or> openFileId \<ge> 20 then Ret (-1) s
      else bindP (asP (GetFileDescriptorByID openFileId s) s) (\<lambda>e s. case e of
        None \<Rightarrow> Ret (-1) s
      | Some file2write \<Rightarrow>
          if openFileId = 0 then Ret (-1) s
          else if openFileId = 1 then SynchConsoleOutput_PutString buffer sz s
          else if fileType file2write = 1 then Ret (-1) s
          else liftP (FileSystem_Write buffer sz openFileId s)))"

definition SysExec :: "nat \<Rightarrow> byte list \<Rightarrow> 'z Sys_scheme \<Rightarrow> ('z, int) routine" where
  "SysExec self name s =
     bindP (liftP (FileSystem_Open name s)) (\<lambda>oFile s.
     if oFile = None then Ret (-1) s else ExecUpdate self name s)"

text \<open>\<open>SysExecV\<close> has no return statement.\<close>

definition SysExecV :: "nat \<Rightarrow> byte list \<Rightarrow> byte list list \<Rightarrow> 'z Sys_scheme \<Rightarrow> ('z, int) routine" where
  "SysExecV self program argv s = bindP (SysExec self program s) (\<lambda>_ s. Fault NoReturnValue)"

section \<open>User memory\<close>

text \<open>
  \<open>machine->ReadMem\<close> and \<open>machine->WriteMem\<close> called by the kernel. When the translation fails, \<open>RaiseException\<close> calls the
  handler, which halts for every exception that \<open>Translate\<close> reports.
\<close>

definition kernel_ReadMem :: "i32 \<Rightarrow> nat \<Rightarrow> Machine \<Rightarrow> (i32 \<times> Machine) res" where
  "kernel_ReadMem addr sz m = bindR (ReadMem m addr sz) (\<lambda>r. case r of Inl _ \<Rightarrow> Inl MachineHalted | Inr x \<Rightarrow> Inr x)"

definition kernel_WriteMem :: "i32 \<Rightarrow> nat \<Rightarrow> i32 \<Rightarrow> Machine \<Rightarrow> Machine res" where
  "kernel_WriteMem addr sz v m = bindR (WriteMem m addr sz v) (\<lambda>r. case r of Inl _ \<Rightarrow> Inl MachineHalted | Inr m \<Rightarrow> Inr m)"

fun User2System_from :: "i32 \<Rightarrow> nat \<Rightarrow> nat \<Rightarrow> byte list \<Rightarrow> Machine \<Rightarrow> (byte list \<times> Machine) res" where
  "User2System_from virtAddr i 0 kernelBuf m = Inr (kernelBuf, m)"
| "User2System_from virtAddr i (Suc k) kernelBuf m =
     bindR (kernel_ReadMem (virtAddr + of_nat i) 1 m) (\<lambda>(oneChar, m).
     bindR (aset kernelBuf (int i) (ucast oneChar)) (\<lambda>kernelBuf.
     if oneChar = 0 then Inr (kernelBuf, m) else User2System_from virtAddr (Suc i) k kernelBuf m))"

definition User2System :: "i32 \<Rightarrow> i32 \<Rightarrow> Machine \<Rightarrow> (byte list \<times> Machine) res" where
  "User2System virtAddr limit m =
     (if sint (limit + 1) < 0 then Inl AllocFailed
      else User2System_from virtAddr 0 (nat (sint limit)) (replicate (nat (sint (limit + 1))) 0) m)"

text \<open>\<open>i\<close> bytes have been copied and at most \<open>k + 1\<close> more are.\<close>

fun System2User_from :: "i32 \<Rightarrow> nat \<Rightarrow> nat \<Rightarrow> byte list \<Rightarrow> Machine \<Rightarrow> (int \<times> Machine) res" where
  "System2User_from virtAddr i k buffer m =
     bindR (aget buffer (int i)) (\<lambda>c.
     bindR (kernel_WriteMem (virtAddr + of_nat i) 1 (scast c) m) (\<lambda>m.
     case k of
       Suc k \<Rightarrow> if (scast c :: i32) \<noteq> 0 then System2User_from virtAddr (Suc i) k buffer m else Inr (int i + 1, m)
     | 0 \<Rightarrow> Inr (int i + 1, m)))"

declare System2User_from.simps [simp del]

definition System2User :: "i32 \<Rightarrow> int \<Rightarrow> byte list \<Rightarrow> Machine \<Rightarrow> (int \<times> Machine) res" where
  "System2User virtAddr len buffer m =
     (if len < 0 then Inr (-1, m) else if len = 0 then Inr (len, m) else System2User_from virtAddr 0 (nat len - 1) buffer m)"

fun User2System2_from :: "i32 \<Rightarrow> nat \<Rightarrow> nat \<Rightarrow> Machine \<Rightarrow> (byte list list \<times> Machine) res" where
  "User2System2_from virtAddr i 0 m = Inr ([], m)"
| "User2System2_from virtAddr i (Suc k) m =
     bindR (kernel_ReadMem (virtAddr + of_nat i * 4) 4 m) (\<lambda>(argi, m).
     bindR (User2System argi MAXLENGTH m) (\<lambda>(s, m).
     bindR (User2System2_from virtAddr (Suc i) k m) (\<lambda>(ss, m). Inr (s # ss, m))))"

definition User2System2 :: "i32 \<Rightarrow> i32 \<Rightarrow> Machine \<Rightarrow> (byte list list \<times> Machine) res" where
  "User2System2 virtAddr argc m =
     (if sint (argc + 1) < 0 then Inl AllocFailed else User2System2_from virtAddr 0 (nat (sint argc)) m)"

section \<open>Handlers\<close>

definition reg :: "int \<Rightarrow> 'z Sys_scheme \<Rightarrow> ('z, i32) routine" where
  "reg n s = asP (ReadRegister (mach s) n) s"

definition set_reg :: "int \<Rightarrow> i32 \<Rightarrow> 'z Sys_scheme \<Rightarrow> ('z, unit) routine" where
  "set_reg n v s = bindP (asP (WriteRegister (mach s) n v) s) (\<lambda>m s. Ret () (s\<lparr>mach := m\<rparr>))"

definition on_mach :: "(Machine \<Rightarrow> ('a \<times> Machine) res) \<Rightarrow> 'z Sys_scheme \<Rightarrow> ('z, 'a) routine" where
  "on_mach f s = liftP (bindR (f (mach s)) (\<lambda>(x, m). Inr (x, s\<lparr>mach := m\<rparr>)))"

definition next_pc :: "'z Sys_scheme \<Rightarrow> ('z, unit) routine" where
  "next_pc s = on_mach (\<lambda>m. bindR (IncreasePC m) (\<lambda>m. Inr ((), m))) s"

definition Handle_Exec :: "nat \<Rightarrow> 'z Sys_scheme \<Rightarrow> ('z, unit) routine" where
  "Handle_Exec self s =
     bindP (reg 4 s) (\<lambda>addr s.
     bindP (on_mach (User2System addr MAXLENGTH) s) (\<lambda>fname s.
     bindP (SysExec self fname s) (\<lambda>result s.
     set_reg 2 (of_int result) s)))"

definition Handle_Join :: "nat \<Rightarrow> 'z Sys_scheme \<Rightarrow> ('z, unit) routine" where
  "Handle_Join self s =
     bindP (reg 4 s) (\<lambda>id s.
     bindP (JoinUpdate self (sint id) s) (\<lambda>result s.
     set_reg 2 (of_int result) s))"

definition Handle_Exit :: "nat \<Rightarrow> 'z Sys_scheme \<Rightarrow> ('z, unit) routine" where
  "Handle_Exit self s =
     bindP (reg 4 s) (\<lambda>exitCode s.
     bindP (ExitUpdate self (sint exitCode) s) (\<lambda>result s. Ret () s))"

text \<open>\<open>new\<close> does not return a null pointer, so the test of \<open>name\<close> in the next three handlers is never true.\<close>

definition Handle_CreateSemaphore :: "'z Sys_scheme \<Rightarrow> ('z, unit) routine" where
  "Handle_CreateSemaphore s =
     bindP (reg 4 s) (\<lambda>virtAddr s. bindP (reg 5 s) (\<lambda>semVal s.
     bindP (on_mach (User2System virtAddr MAXLENGTH) s) (\<lambda>name s.
     bindP (liftP (STable_Create name (sint semVal) s)) (\<lambda>res s.
     set_reg 2 (of_int res) s))))"

definition Handle_Wait :: "'z Sys_scheme \<Rightarrow> ('z, unit) routine" where
  "Handle_Wait s =
     bindP (reg 4 s) (\<lambda>virtAddr s.
     bindP (on_mach (User2System virtAddr MAXLENGTH) s) (\<lambda>name s.
     bindP (STable_Wait name s) (\<lambda>res s.
     set_reg 2 (of_int res) s)))"

definition Handle_Signal :: "'z Sys_scheme \<Rightarrow> ('z, unit) routine" where
  "Handle_Signal s =
     bindP (reg 4 s) (\<lambda>virtAddr s.
     bindP (on_mach (User2System virtAddr MAXLENGTH) s) (\<lambda>name s.
     bindP (STable_Signal name s) (\<lambda>res s.
     set_reg 2 (of_int res) s)))"

text \<open>The loop that takes \<open>number\<close> apart, with the division of C; \<open>temp\<close> is the array of the digits, \<open>j\<close> their number.\<close>

function num_digits :: "int \<Rightarrow> int list \<Rightarrow> int \<Rightarrow> (int list \<times> int) res" where
  "num_digits number temp j =
     bindR (aset temp j (number smod 10)) (\<lambda>temp.
     if number sdiv 10 \<noteq> 0 then num_digits (number sdiv 10) temp (j + 1) else Inr (temp, j + 1))"
  by pat_completeness auto
termination
proof (relation "measure (\<lambda>(number, _, _). nat \<bar>number\<bar>)")
  fix number :: int
  assume "number sdiv 10 \<noteq> 0"
  then have "number \<noteq> 0" by (auto simp: signed_divide_int_def)
  then show "((number sdiv 10, temp', j + 1), (number, temp, j)) \<in> measure (\<lambda>(number, _, _). nat \<bar>number\<bar>)" for temp' :: "int list" and temp :: "int list" and j :: int
    by (auto simp: signed_divide_int_def abs_mult sgn_if)
qed simp

declare num_digits.simps [simp del]

text \<open>The loop \<open>while (j)\<close>; it stores at \<open>i\<close>, \<open>i + 1\<close>, ...\<close>

fun copy_digits :: "int list \<Rightarrow> nat \<Rightarrow> byte list \<Rightarrow> int \<Rightarrow> byte list res" where
  "copy_digits temp 0 num_buffer i = Inr num_buffer"
| "copy_digits temp (Suc j) num_buffer i =
     bindR (aget temp (int j)) (\<lambda>d.
     bindR (aset num_buffer i (48 + of_int d)) (\<lambda>num_buffer. copy_digits temp j num_buffer (i + 1)))"

text \<open>The buffer and the number of its characters that are printed; the rest of it is never read. \<open>-number\<close> wraps around.\<close>

definition num_text :: "i32 \<Rightarrow> (byte list \<times> int) res" where
  "num_text number =
     (let num_buffer = replicate 11 0; neg = sint number < 0;
          num_buffer = (if neg then num_buffer[0 := 45] else num_buffer);
          n = (if neg then sint (- number) else sint number)
      in bindR (num_digits n (replicate 11 0) 0) (\<lambda>(temp, j).
         bindR (copy_digits temp (nat j) num_buffer (if neg then 1 else 0)) (\<lambda>num_buffer.
         Inr (num_buffer, if neg then j + 1 else j))))"

definition Handle_PrintNum :: "'z Sys_scheme \<Rightarrow> ('z, unit) routine" where
  "Handle_PrintNum s =
     bindP (reg 4 s) (\<lambda>number s.
     bindP (asP (num_text number) s) (\<lambda>(num_buffer, len) s.
     forP (\<lambda>i s. bindP (asP (aget num_buffer i) s) SynchConsoleOutput_PutChar) (map int [0..<nat len]) s))"

text \<open>\<open>argv[0]\<close> of an empty array is not initialised; using it is a fault.\<close>

definition Handle_ExecV :: "nat \<Rightarrow> 'z Sys_scheme \<Rightarrow> ('z, unit) routine" where
  "Handle_ExecV self s =
     bindP (reg 4 s) (\<lambda>argc1 s. bindP (reg 5 s) (\<lambda>argv1 s.
     bindP (on_mach (User2System2 argv1 argc1) s) (\<lambda>argv s.
     bindP (asP (aget argv 0) s) (\<lambda>program s.
     bindP (asP (cstr program) s) (\<lambda>_ s.
     bindP (SysExecV self program argv s) (\<lambda>result s.
     set_reg 2 (of_int result) s))))))"

section \<open>ExceptionHandler\<close>

text \<open>The cases that have no handler of their own.\<close>

definition SC_Create :: "'z Sys_scheme \<Rightarrow> ('z, unit) routine" where
  "SC_Create s =
     bindP (reg 4 s) (\<lambda>filenameAddr s.
     bindP (on_mach (User2System filenameAddr MAXLENGTH) s) (\<lambda>filename s.
     bindP (liftP (SysCreate filename s)) (\<lambda>result s.
     bindP (set_reg 2 (if result = -1 then -1 else 0) s) (\<lambda>_. next_pc))))"

definition SC_Remove :: "'z Sys_scheme \<Rightarrow> ('z, unit) routine" where
  "SC_Remove s =
     bindP (reg 4 s) (\<lambda>virtAddr s.
     bindP (on_mach (User2System virtAddr MAXLENGTH) s) (\<lambda>filename s.
     bindP (liftP (SysRemove (Some filename) s)) (\<lambda>result s.
     bindP (set_reg 2 (if result = -1 then -1 else 0) s) (\<lambda>_. next_pc))))"

definition SC_Open :: "'z Sys_scheme \<Rightarrow> ('z, unit) routine" where
  "SC_Open s =
     bindP (reg 4 s) (\<lambda>virtAddr s. bindP (reg 5 s) (\<lambda>type s.
     if sint type \<noteq> 0 \<and> sint type \<noteq> 1
     then bindP (set_reg 2 (-1) s) (\<lambda>_ s. bindP (next_pc s) (\<lambda>_ s. Fault AssertFailed))
     else
       bindP (on_mach (User2System virtAddr 32) s) (\<lambda>filename s.
       bindP (liftP (SysOpen (Some filename) (sint type) s)) (\<lambda>openFileID s.
       bindP (set_reg 2 (if openFileID = -1 then -1 else of_int openFileID) s) (\<lambda>_. next_pc)))))"

definition SC_Close :: "'z Sys_scheme \<Rightarrow> ('z, unit) routine" where
  "SC_Close s =
     bindP (reg 4 s) (\<lambda>fileID s.
     bindP (liftP (SysClose (sint fileID) s)) (\<lambda>result s.
     bindP (set_reg 2 (if result = -1 then -1 else 0) s) (\<lambda>_. next_pc)))"

definition SC_Read :: "'z Sys_scheme \<Rightarrow> ('z, unit) routine" where
  "SC_Read s =
     bindP (reg 4 s) (\<lambda>virtAddr s. bindP (reg 5 s) (\<lambda>sz s. bindP (reg 6 s) (\<lambda>openFileID s.
     bindP (on_mach (User2System virtAddr sz) s) (\<lambda>buffer s.
     bindP (SysRead buffer (sint sz) (sint openFileID) s) (\<lambda>(result, buffer) s.
     bindP (if result > 0
            then bindP (set_reg 2 (of_int result) s) (\<lambda>_ s.
                 bindP (on_mach (System2User virtAddr (sint (sz + 1)) buffer) s) (\<lambda>_ s. Ret () s))
            else set_reg 2 (of_int result) s) (\<lambda>_. next_pc))))))"

definition SC_Write :: "'z Sys_scheme \<Rightarrow> ('z, unit) routine" where
  "SC_Write s =
     bindP (reg 4 s) (\<lambda>virtAddr s. bindP (reg 5 s) (\<lambda>sz s. bindP (reg 6 s) (\<lambda>openFileId s.
     bindP (on_mach (User2System virtAddr sz) s) (\<lambda>buffer s.
     bindP (SysWrite buffer (sint sz) (sint openFileId) s) (\<lambda>result s.
     bindP (set_reg 2 (if result = -1 then -1 else of_int result) s) (\<lambda>_. next_pc))))))"

definition SC_Seek :: "'z Sys_scheme \<Rightarrow> ('z, unit) routine" where
  "SC_Seek s =
     bindP (reg 4 s) (\<lambda>pos s. bindP (reg 5 s) (\<lambda>openFileID s.
     bindP (liftP (SysSeek (sint pos) (sint openFileID) s)) (\<lambda>result s.
     bindP (set_reg 2 (if result = -1 then -1 else of_int result) s) (\<lambda>_. next_pc))))"

definition SC_SocketTCP :: "'z Sys_scheme \<Rightarrow> ('z, unit) routine" where
  "SC_SocketTCP s =
     bindP (liftP (OpenNewSocket s)) (\<lambda>result s.
     bindP (set_reg 2 (if result \<noteq> -1 then of_int result else -1) s) (\<lambda>_. next_pc))"

definition SC_Connect :: "'z Sys_scheme \<Rightarrow> ('z, unit) routine" where
  "SC_Connect s =
     bindP (reg 4 s) (\<lambda>socketId s. bindP (reg 5 s) (\<lambda>virtAddr s. bindP (reg 6 s) (\<lambda>port s.
     bindP (on_mach (User2System virtAddr MAXLENGTH) s) (\<lambda>ipAddress s.
     bindP (asP (FileSystem_Connect (sint socketId) ipAddress (sint port) s) s) (\<lambda>result s.
     bindP (set_reg 2 (if result = -1 then -1 else 0) s) (\<lambda>_. next_pc))))))"

definition SC_Send :: "'z Sys_scheme \<Rightarrow> ('z, unit) routine" where
  "SC_Send s =
     bindP (reg 4 s) (\<lambda>socketId s. bindP (reg 5 s) (\<lambda>virtAddr s. bindP (reg 6 s) (\<lambda>len s.
     bindP (on_mach (User2System virtAddr MAXLENGTH) s) (\<lambda>buffer s.
     bindP (asP (SendSocketMessage (sint socketId) buffer (sint len) s) s) (\<lambda>result s.
     bindP (set_reg 2 (of_int result) s) (\<lambda>_. next_pc))))))"

definition SC_Receive :: "'z Sys_scheme \<Rightarrow> ('z, unit) routine" where
  "SC_Receive s =
     bindP (reg 4 s) (\<lambda>socketId s. bindP (reg 5 s) (\<lambda>virtAddr s. bindP (reg 6 s) (\<lambda>len s.
     bindP (on_mach (User2System virtAddr MAXLENGTH) s) (\<lambda>buffer s.
     bindP (asP (ReceiveSocketMessage (sint socketId) buffer (sint len) s) s) (\<lambda>(result, buffer) s.
     bindP (if result = -1 then set_reg 2 (-1) s
            else bindP (set_reg 2 (of_int result) s) (\<lambda>_ s.
                 bindP (asP (strlen buffer) s) (\<lambda>n s.
                 bindP (on_mach (System2User virtAddr (n + 1) buffer) s) (\<lambda>_ s. Ret () s)))) (\<lambda>_. next_pc))))))"

definition SC_ReadString :: "'z Sys_scheme \<Rightarrow> ('z, unit) routine" where
  "SC_ReadString s =
     bindP (reg 4 s) (\<lambda>virtAddr s.
     bindP (SysReadString s) (\<lambda>buffer s.
     bindP (asP (strlen buffer) s) (\<lambda>len s.
     bindP (on_mach (System2User virtAddr (len + 1) buffer) s) (\<lambda>_ s.
     bindP (set_reg 2 (of_int len) s) (\<lambda>_. next_pc)))))"

definition SC_PrintString :: "'z Sys_scheme \<Rightarrow> ('z, unit) routine" where
  "SC_PrintString s =
     bindP (reg 4 s) (\<lambda>memPtr s.
     bindP (on_mach (User2System memPtr MAXLENGTH) s) (\<lambda>buffer s.
     bindP (asP (strlen buffer) s) (\<lambda>n s.
     bindP (SysPrintString buffer n s) (\<lambda>_. next_pc))))"

definition SC_dispatch :: "nat \<Rightarrow> int \<Rightarrow> 'z Sys_scheme \<Rightarrow> ('z, unit) routine" where
  "SC_dispatch self type s =
     (if type = 0 then bindP (SysHalt s) (\<lambda>_ s. Fault AssertFailed)
      else if type = 4 then SC_Create s
      else if type = 5 then SC_Remove s
      else if type = 6 then SC_Open s
      else if type = 10 then SC_Close s
      else if type = 7 then SC_Read s
      else if type = 8 then SC_Write s
      else if type = 9 then SC_Seek s
      else if type = 43 then SC_SocketTCP s
      else if type = 44 then SC_Connect s
      else if type = 45 then SC_Send s
      else if type = 46 then SC_Receive s
      else if type = 47 then SC_ReadString s
      else if type = 48 then SC_PrintString s
      else if type = 2 then bindP (Handle_Exec self s) (\<lambda>_. next_pc)
      else if type = 3 then bindP (Handle_Join self s) (\<lambda>_. next_pc)
      else if type = 1 then bindP (Handle_Exit self s) (\<lambda>_. next_pc)
      else if type = 23 then bindP (Handle_CreateSemaphore s) (\<lambda>_. next_pc)
      else if type = 24 then bindP (Handle_Wait s) (\<lambda>_. next_pc)
      else if type = 25 then bindP (Handle_Signal s) (\<lambda>_. next_pc)
      else if type = 17 then bindP (Handle_PrintNum s) (\<lambda>_. next_pc)
      else if type = 13 then bindP (Handle_ExecV self s) (\<lambda>_. next_pc)
      else Ret () s)"

definition ExceptionHandler :: "nat \<Rightarrow> ExceptionType \<Rightarrow> 'z Sys_scheme \<Rightarrow> ('z, unit) routine" where
  "ExceptionHandler self which s =
     bindP (reg 2 s) (\<lambda>type s. case which of
       NoException \<Rightarrow> Ret () s
     | SyscallException \<Rightarrow> SC_dispatch self (sint type) s
     | _ \<Rightarrow> Fault MachineHalted)"

end
