(* ===== verification/Spec2Isabelle.thy ===== *)
theory Spec2Isabelle
  imports Nachos_Bitmap Nachos_List Nachos_Mips Nachos_Locks Nachos_Devices Nachos_Isolation Nachos_Syscall
begin

text \<open>
  A verification of Nachos 4.0, the instructional operating system under \<open>src/code\<close>: a kernel in C++ that runs user programs on
  a simulated MIPS machine with simulated devices. File names below are relative to \<open>src/code\<close>. The build that is modelled is the one of
  \<open>build.linux/Makefile\<close>: \<open>FILESYS_STUB\<close>, \<open>RDATA\<close> and \<open>SIM_FIX\<close> are defined, \<open>USE_TLB\<close> is not, the host is a
  32-bit little-endian machine on which \<open>char\<close> is signed.

  \<^bold>\<open>The program.\<close> The machine (\<open>machine/machine.cc\<close>, \<open>translate.cc\<close>, \<open>mipssim.cc\<close>) executes user instructions on physical
  memory through a page table. Simulated time (\<open>machine/interrupt.cc\<close>, \<open>timer.cc\<close>) advances with every instruction and with every
  enabling of interrupts; devices (\<open>disk.cc\<close>, \<open>console.cc\<close>, \<open>network.cc\<close>) schedule interrupts in a sorted list of pending
  interrupts. The thread system (\<open>threads/thread.cc\<close>, \<open>scheduler.cc\<close>, \<open>synch.cc\<close>, \<open>alarm.cc\<close>) multiplexes kernel threads and
  offers semaphores, locks and condition variables. On top of it there are address spaces (\<open>userprog/addrspace.cc\<close>), processes
  (\<open>threads/pcb.cc\<close>, \<open>PTable.cc\<close>), user semaphores (\<open>threads/sem.cc\<close>, \<open>STable.cc\<close>) and files of the host behind a descriptor table
  (\<open>filesys/filesys.h\<close>, \<open>openfile.h\<close>, \<open>lib/sysdep.cc\<close>). Lists and bitmaps (\<open>lib/list.cc\<close>, \<open>lib/bitmap.cc\<close>) are used throughout.

  \<^bold>\<open>How code is modelled.\<close> Every function is a total function on the state it reads and writes. The result type \<open>'a res\<close> of
  \<open>Nachos_Prelude\<close> has a value for everything that ends a C++ function abnormally: a failed \<open>ASSERT\<close>, a null or dangling pointer, an index
  out of bounds, a trap, a call that never returns. Machine words are \<open>32 word\<close> and wrap; \<open>int\<close> variables of the kernel that the code
  keeps small are HOL's \<open>int\<close>. Pointers are numbers, and objects that are shared or freed live in explicit heaps. Two forms of blocking code
  are used. In \<open>Nachos_Threads\<close> every thread is the list of actions it still has to execute and the step function interleaves threads and
  interrupts at the points where the kernel can switch. In \<open>Nachos_Prog\<close> kernel code is a tree whose nodes are the calls that may
  switch threads; it is run alone (\<open>solo\<close>), in an arbitrary environment (\<open>exec\<close>), or step by step beside other threads (\<open>pstep\<close>).

  \<^bold>\<open>Theories.\<close>
  \<^item> \<open>Nachos_Prelude\<close>: faults and results, arrays with bounds, the macros of \<open>lib/utility.h\<close> and \<open>lib/debug.h\<close>, bytes and words.
  \<^item> \<open>Nachos_Bitmap\<close>: class \<open>Bitmap\<close> on its array of 32-bit words. The set of marked bits is the abstraction; the locale \<open>slot_map\<close>
    states what allocators of frames, slots and semaphores rely on and is interpreted on the class. The self test passes.
  \<^item> \<open>Nachos_List\<close>: \<open>List\<close> and \<open>SortedList\<close> as linked cells on a heap. Each operation refines the operation on sequences; the locales
    \<open>checked_list\<close> and \<open>comparator\<close> carry the self tests and sorted insertion; they are interpreted on both classes and comparison functions.
  \<^item> \<open>Nachos_Machine\<close>: registers, memory, page tables and the TLB, \<open>Translate\<close>, \<open>ReadMem\<close>, \<open>WriteMem\<close>. Translation stays in
    memory and follows the entry for the page; what was written is read back.
  \<^item> \<open>Nachos_Mips\<close>: decoding and execution of every instruction. \<open>Mult\<close> is exact, the overflow tests are right, the unaligned pairs of
    loads and stores compose, and one instruction is total on well-formed machines.
  \<^item> \<open>Nachos_Interrupt\<close>: statistics, the list of pending interrupts, \<open>OneTick\<close>, \<open>SetLevel\<close>, \<open>Idle\<close>, \<open>CheckIfDue\<close>, timer and alarm.
    The locale \<open>interrupt_handlers\<close> states what a callback must keep; simulation results hold for all such handlers.
  \<^item> \<open>Nachos_Threads\<close>: threads, ready list, semaphores, locks, condition variables and the step function. \<open>Nachos_Sched\<close>: every thread
    is in exactly one place and every step keeps this. \<open>Nachos_Sync\<close>: no step fails, context switches, no wake-up is lost.
    \<open>Nachos_Locks\<close>: at most one thread is between \<open>Acquire\<close> and \<open>Release\<close> of a lock.
  \<^item> \<open>Nachos_Devices\<close>: disk, console and network with their callbacks, which are interrupt handlers in the sense of the locale; a disk
    request completes after the predicted time and sectors read back what was written.
  \<^item> \<open>Nachos_Host\<close>: C strings and the UNIX calls behind \<open>lib/sysdep.cc\<close>, by their documented behaviour. \<open>Nachos_Stub\<close>: \<open>OpenFile\<close>
    and \<open>FileSystem\<close> with sockets, and the file calls of \<open>userprog/ksyscall.h\<close>. After any sequence of calls the table is consistent.
  \<^item> \<open>Nachos_Prog\<close>, \<open>Nachos_Sys\<close>: blocking routines and the kernel state that system calls see (\<open>threads/kernel.h\<close>). A user
    process that calls a blocking routine finds its registers and page table restored when it is scheduled again.
  \<^item> \<open>Nachos_AddrSpace\<close>: the NOFF loader, frames, translation in the kernel. A loaded program has its segments in memory frames of its
    own; the refusals of \<open>Load\<close> are characterised.
  \<^item> \<open>Nachos_Isolation\<close>: the composition of loader, frame map and instruction simulator. Processes that load, run and exit in any
    order never share a frame and never change one another's memory.
  \<^item> \<open>Nachos_Process\<close>: control blocks, the process table and user semaphores. \<open>Exec\<close>, \<open>Join\<close> and \<open>Exit\<close> are specified, the
    latter two in every interleaving; the table of user semaphores is a map from names.

  \<^bold>\<open>Bounds and fuel.\<close> \<open>Nachos_Interrupt.Idle\<close> and the loops on lists are bounded by the length of the list they shrink; the loops of the
  machine by the size of the arrays; the list loops carry the number of live cells as fuel and running out of it is \<open>LoopsForever\<close>, which
  the refinement lemmas exclude. The 18 steps of the rendezvous of \<open>Join\<close> and \<open>Exit\<close> count the calls of the two routines.

  \<^bold>\<open>Assumptions.\<close> The host calls of \<open>Nachos_Host\<close> behave as documented; random numbers, console input, packet loss and the usable size of
  a block from \<open>new char[n]\<close> are parameters. Statistics counters do not overflow.

  \<^bold>\<open>Not modelled.\<close>
  \<^item> \<open>userprog/exception.cc\<close> and the remaining wrappers of \<open>userprog/ksyscall.h\<close>: the dispatch from the registers of a user program
    to the operations that are modelled.
  \<^item> \<open>filesys/filesys.cc\<close>, \<open>directory.cc\<close>, \<open>filehdr.cc\<close>, \<open>pbitmap.cc\<close>, \<open>openfile.cc\<close>: the file system on the simulated disk, which
    is compiled only without \<open>FILESYS_STUB\<close>.
  \<^item> \<open>filesys/synchdisk.cc\<close>, \<open>userprog/synchconsole.cc\<close>, \<open>threads/synchlist.cc\<close>, \<open>network/post.cc\<close>: of these only the
    callbacks are in \<open>Nachos_Devices\<close>; \<open>lib/hash.cc\<close>.
  \<^item> \<open>threads/kernel.cc\<close>, \<open>threads/main.cc\<close>: command line and construction of the objects.
  \<^item> \<open>threads/switch.S\<close> is the change of the current thread; the rest of \<open>lib/sysdep.cc\<close> only calls the host.
  \<^item> Output for debugging (\<open>Print\<close>, \<open>Dump\<close>, \<open>Debugger\<close>, \<open>DEBUG\<close>), user test programs and build tools.
\<close>

end
